(* ===== verification/Ix_Prelude.thy ===== *)
theory Ix_Prelude
  imports Main "HOL-Library.Word"
begin

text \<open>
  Shared vocabulary of the development.  The library is compiled for 32-bit targets:
  \<open>int\<close>, \<open>long\<close> and pointers are 32 bits wide, \<open>short\<close> is 16 bits wide.  Flag words and
  counters whose wrap-around the code can observe are \<open>word\<close>s; other C integers are \<open>int\<close>
  or \<open>nat\<close>, with \<open>s32\<close> and \<open>s16\<close> written where a conversion to a signed width occurs.

  This theory holds: the integer conversions, the \<open>errno\<close> values of \<open>include/errno.h\<close>,
  the outcome type of code that may call \<open>panic\<close> or leave an array, the linear scan that
  every table search of the library performs, and lemmas on lists, counting and bit masks.
\<close>

unbundle bit_operations_syntax

named_theorems ix_defs \<open>definitions that component proofs unfold\<close>

section \<open>Machine integers\<close>

type_synonym u8 = "8 word"
type_synonym u16 = "16 word"
type_synonym u32 = "32 word"

definition s32 :: "int \<Rightarrow> int" where
  "s32 x = sint (word_of_int x :: u32)"

definition s16 :: "int \<Rightarrow> int" where
  "s16 x = sint (word_of_int x :: u16)"

lemma s32_id: "- (2 ^ 31) \<le> x \<Longrightarrow> x < 2 ^ 31 \<Longrightarrow> s32 x = x"
  unfolding s32_def by (simp add: signed_take_bit_int_eq_self sint_sbintrunc')

lemma s16_id: "- (2 ^ 15) \<le> x \<Longrightarrow> x < 2 ^ 15 \<Longrightarrow> s16 x = x"
  unfolding s16_def by (simp add: signed_take_bit_int_eq_self sint_sbintrunc')

section \<open>Error numbers\<close>

abbreviation (input) EPERM :: int where "EPERM \<equiv> 1"
abbreviation (input) ENOENT :: int where "ENOENT \<equiv> 2"
abbreviation (input) ESRCH :: int where "ESRCH \<equiv> 3"
abbreviation (input) EINTR :: int where "EINTR \<equiv> 4"
abbreviation (input) EIO :: int where "EIO \<equiv> 5"
abbreviation (input) E2BIG :: int where "E2BIG \<equiv> 7"
abbreviation (input) EBADF :: int where "EBADF \<equiv> 9"
abbreviation (input) ENOMEM :: int where "ENOMEM \<equiv> 12"
abbreviation (input) EACCES :: int where "EACCES \<equiv> 13"
abbreviation (input) EEXIST :: int where "EEXIST \<equiv> 17"
abbreviation (input) EINVAL :: int where "EINVAL \<equiv> 22"
abbreviation (input) EMFILE :: int where "EMFILE \<equiv> 24"
abbreviation (input) EFBIG :: int where "EFBIG \<equiv> 27"
abbreviation (input) ENOSPC :: int where "ENOSPC \<equiv> 28"
abbreviation (input) EPIPE :: int where "EPIPE \<equiv> 32"
abbreviation (input) EAGAIN :: int where "EAGAIN \<equiv> 35"
abbreviation (input) ENOSYS :: int where "ENOSYS \<equiv> 78"

section \<open>Outcomes of kernel code\<close>

text \<open>
  \<open>Panic\<close> is a call of \<open>panic\<close> (\<open>library/hwck.c\<close>), which aborts the process; \<open>Wild\<close> is an
  access outside the array or through the null pointer the C expression names.
\<close>

datatype 'a exec = Ok 'a | Panic string | Wild

fun exec_bind :: "'a exec \<Rightarrow> ('a \<Rightarrow> 'b exec) \<Rightarrow> 'b exec" where
  "exec_bind (Ok x) f = f x"
| "exec_bind (Panic m) f = Panic m"
| "exec_bind Wild f = Wild"

lemma exec_bind_Ok_iff: "exec_bind m f = Ok y \<longleftrightarrow> (\<exists>x. m = Ok x \<and> f x = Ok y)"
  by (cases m) auto

lemma exec_bind_Ok_E:
  assumes "exec_bind m f = Ok y"
  obtains x where "m = Ok x" and "f x = Ok y"
  using assms by (cases m) auto

lemma exec_bind_cong:
  "m = m' \<Longrightarrow> (\<And>x. m' = Ok x \<Longrightarrow> f x = g x) \<Longrightarrow> exec_bind m f = exec_bind m' g"
  by (cases m) auto

section \<open>Linear scans\<close>

text \<open>
  \<open>scan P i xs\<close> is \<open>for (; i < n; i++) if (P (xs[i])) break;\<close> over a table of \<open>n\<close> entries:
  the index the loop stops at, or \<open>None\<close> when it runs off the end.
\<close>

function scan :: "('a \<Rightarrow> bool) \<Rightarrow> nat \<Rightarrow> 'a list \<Rightarrow> nat option" where
  "scan P i xs = (if i < length xs then if P (xs ! i) then Some i else scan P (Suc i) xs else None)"
  by pat_completeness auto
termination
  by (relation "measure (\<lambda>(P, i, xs). length xs - i)") auto

declare scan.simps [simp del]

lemma scan_Some:
  "scan P i xs = Some k \<longleftrightarrow> i \<le> k \<and> k < length xs \<and> P (xs ! k) \<and> (\<forall>j. i \<le> j \<and> j < k \<longrightarrow> \<not> P (xs ! j))"
proof (induction P i xs rule: scan.induct)
  case (1 P i xs)
  consider (out) "\<not> i < length xs" | (hit) "i < length xs" "P (xs ! i)" | (miss) "i < length xs" "\<not> P (xs ! i)"
    by blast
  then show ?case
  proof cases
    case out
    then show ?thesis by (subst scan.simps) auto
  next
    case hit
    then show ?thesis by (subst scan.simps) (auto simp: le_less)
  next
    case miss
    then show ?thesis
      by (subst scan.simps) (simp add: "1.IH", metis Suc_leD Suc_leI le_less)
  qed
qed

lemma scan_None: "scan P i xs = None \<longleftrightarrow> (\<forall>k. i \<le> k \<and> k < length xs \<longrightarrow> \<not> P (xs ! k))"
proof (induction P i xs rule: scan.induct)
  case (1 P i xs)
  show ?case
  proof (cases "i < length xs \<and> \<not> P (xs ! i)")
    case True
    then have "scan P i xs = scan P (Suc i) xs" by (subst scan.simps) simp
    with "1.IH" True show ?thesis by (metis Suc_leD Suc_leI le_less)
  next
    case False
    then show ?thesis by (subst scan.simps) auto
  qed
qed

lemma scan_cong:
  assumes "length ys = length xs" and "\<And>k. i \<le> k \<Longrightarrow> k < length xs \<Longrightarrow> P (ys ! k) \<longleftrightarrow> Q (xs ! k)"
  shows "scan P i ys = scan Q i xs"
proof (cases "scan Q i xs")
  case None
  with assms have "scan P i ys = None" by (auto simp: scan_None)
  with None show ?thesis by simp
next
  case (Some k)
  with assms have "scan P i ys = Some k" by (auto simp: scan_Some)
  with Some show ?thesis by simp
qed

section \<open>Linked chains\<close>

text \<open>
  \<open>chain ptr nil nx p xs\<close>: following the links \<open>nx\<close> from the pointer \<open>p\<close> visits the nodes \<open>xs\<close> and ends with
  \<open>nil\<close>; \<open>ptr\<close> makes a pointer of a node.
\<close>

fun chain :: "('a \<Rightarrow> 'p) \<Rightarrow> 'p \<Rightarrow> ('a \<Rightarrow> 'p) \<Rightarrow> 'p \<Rightarrow> 'a list \<Rightarrow> bool" where
  "chain ptr nil nx p [] \<longleftrightarrow> p = nil"
| "chain ptr nil nx p (x # xs) \<longleftrightarrow> p = ptr x \<and> chain ptr nil nx (nx x) xs"

lemma chain_cong: "(\<And>x. x \<in> set xs \<Longrightarrow> nx' x = nx x) \<Longrightarrow> chain ptr nil nx' p xs = chain ptr nil nx p xs"
  by (induction xs arbitrary: p) simp_all

lemma chain_upd [simp]: "a \<notin> set xs \<Longrightarrow> chain ptr nil (nx(a := v)) p xs = chain ptr nil nx p xs"
  by (rule chain_cong) auto

lemma chain_if [simp]:
  "a \<notin> set xs \<Longrightarrow> chain ptr nil (\<lambda>x. if x = a then v else nx x) p xs = chain ptr nil nx p xs"
  "a \<notin> set xs \<Longrightarrow> chain ptr nil (\<lambda>x. f (if x = a then w else g x)) p xs = chain ptr nil (\<lambda>x. f (g x)) p xs"
  by (induction xs arbitrary: p) auto

lemma chain_snoc:
  assumes "chain ptr nil nx p (xs @ [x])" and "x \<notin> set xs" and "y \<notin> set xs" and "y \<noteq> x"
  shows "chain ptr nil (nx(x := ptr y, y := nil)) p (xs @ [x, y])"
  using assms by (induction xs arbitrary: p) auto

end
