(* ===== verification/Ix_Time.thy ===== *)
theory Ix_Time
  imports Ix_Prelude
begin

text \<open>
  The interval timers: \<open>library/kern_time.c\<close> (the branch the preprocessor selects) and the
  timer interrupt of \<open>library/ix_timer.c\<close>.  A \<open>timeval\<close> is a record of two C \<open>long\<close>s.  The
  clock granularity \<open>timer_resolution\<close> is a variable the startup code fills in, so it is the
  argument \<open>res\<close>.  The properties: timers that \<open>setitimer\<close> accepts stay normalised under the
  interrupt, a tick takes exactly \<open>res\<close> microseconds off, and a periodic timer does not drift.
\<close>

section \<open>Data\<close>

record timeval =
  tv_sec :: int
  tv_usec :: int

record itimerval =
  it_interval :: timeval
  it_value :: timeval

record timer_user =
  u_timer :: "itimerval list"
  u_utime :: timeval
  u_stime :: timeval
  u_start_pc :: nat
  u_end_pc :: nat
  u_prof_scale :: nat
  u_prof_last_pc :: nat
  t_errno :: int

abbreviation (input) ITIMER_PROF :: nat where "ITIMER_PROF \<equiv> 2"

definition timerisset :: "timeval \<Rightarrow> bool" where
  "timerisset tv \<longleftrightarrow> tv_sec tv \<noteq> 0 \<or> tv_usec tv \<noteq> 0"

section \<open>Operations of kern_time.c\<close>

definition getitimer :: "nat \<Rightarrow> bool \<Rightarrow> timer_user \<Rightarrow> int \<times> itimerval option \<times> timer_user" where
  "getitimer which itv u =
     (if which > ITIMER_PROF \<or> \<not> itv then (-1, None, u\<lparr>t_errno := EINVAL\<rparr>)
      else (0, Some (u_timer u ! which), u))"

definition itimerfix :: "int \<Rightarrow> timeval \<Rightarrow> int \<times> timeval" where
  "itimerfix res tv =
     (if tv_sec tv < 0 \<or> tv_sec tv > 100000000 \<or> tv_usec tv < 0 \<or> tv_usec tv \<ge> 1000000
      then (-1, tv)
      else if tv_sec tv = 0 \<and> tv_usec tv \<noteq> 0 \<and> tv_usec tv < res
      then (0, tv\<lparr>tv_usec := res\<rparr>)
      else (0, tv))"

text \<open>
  \<open>setitimer\<close> returns the status, the caller's new value as \<open>itimerfix\<close> left it (the casts in
  the source drop the \<open>const\<close>, so the caller's structure is rounded in place), the old value
  handed back through \<open>oitv\<close>, and the process state.  The two pointers do not alias.
\<close>

definition setitimer ::
    "int \<Rightarrow> nat \<Rightarrow> itimerval option \<Rightarrow> bool \<Rightarrow> timer_user
     \<Rightarrow> int \<times> itimerval option \<times> itimerval option \<times> timer_user" where
  "setitimer res which itv oitv u =
     (if which > ITIMER_PROF then (-1, itv, None, u\<lparr>t_errno := EINVAL\<rparr>)
      else
        let old = (if oitv then fst (snd (getitimer which True u)) else None) in
        if oitv \<and> fst (getitimer which True u) \<noteq> 0 then (-1, itv, old, snd (snd (getitimer which True u)))
        else
        (case itv of
           None \<Rightarrow> (0, None, old, u)
         | Some it \<Rightarrow>
             let (r1, v) = itimerfix res (it_value it) in
             if r1 \<noteq> 0 then (-1, Some it, old, u\<lparr>t_errno := EINVAL\<rparr>)
             else
               let (r2, iv) = itimerfix res (it_interval it) in
               if r2 \<noteq> 0 then (-1, Some (it\<lparr>it_value := v\<rparr>), old, u\<lparr>t_errno := EINVAL\<rparr>)
               else
                 let it' = \<lparr>it_interval = iv, it_value = v\<rparr> in
                 (0, Some it', old, u\<lparr>u_timer := (u_timer u)[which := it']\<rparr>)))"

definition itimer_expire :: "itimerval \<Rightarrow> int \<Rightarrow> itimerval" where
  "itimer_expire itp usec =
     (if timerisset (it_interval itp) then
        let v = (it_interval itp)\<lparr>tv_usec := tv_usec (it_interval itp) - usec\<rparr> in
        itp\<lparr>it_value := if tv_usec v < 0
                        then \<lparr>tv_sec = tv_sec v - 1, tv_usec = tv_usec v + 1000000\<rparr> else v\<rparr>
      else itp\<lparr>it_value := (it_value itp)\<lparr>tv_usec := 0\<rparr>\<rparr>)"

definition itimerdecr :: "itimerval \<Rightarrow> int \<Rightarrow> int \<times> itimerval" where
  "itimerdecr itp usec =
     (let v = it_value itp in
      if tv_usec v < usec \<and> tv_sec v = 0 then (0, itimer_expire itp (usec - tv_usec v))
      else
        let v1 = (if tv_usec v < usec
                  then \<lparr>tv_sec = tv_sec v - 1, tv_usec = tv_usec v + 1000000\<rparr> else v);
            v2 = v1\<lparr>tv_usec := tv_usec v1 - usec\<rparr>;
            itp' = itp\<lparr>it_value := v2\<rparr>
        in if timerisset v2 then (1, itp') else (0, itimer_expire itp' 0))"

definition timevalfix :: "timeval \<Rightarrow> timeval" where
  "timevalfix t =
     (let t1 = (if tv_usec t < 0
                then \<lparr>tv_sec = s32 (tv_sec t - 1), tv_usec = s32 (tv_usec t + 1000000)\<rparr> else t)
      in if tv_usec t1 \<ge> 1000000
         then \<lparr>tv_sec = s32 (tv_sec t1 + 1), tv_usec = s32 (tv_usec t1 - 1000000)\<rparr> else t1)"

definition timevaladd :: "timeval \<Rightarrow> timeval \<Rightarrow> timeval" where
  "timevaladd t1 t2 =
     timevalfix \<lparr>tv_sec = s32 (tv_sec t1 + tv_sec t2), tv_usec = s32 (tv_usec t1 + tv_usec t2)\<rparr>"

definition timevalsub :: "timeval \<Rightarrow> timeval \<Rightarrow> timeval" where
  "timevalsub t1 t2 =
     timevalfix \<lparr>tv_sec = s32 (tv_sec t1 - tv_sec t2), tv_usec = s32 (tv_usec t1 - tv_usec t2)\<rparr>"

section \<open>The timer interrupt of ix_timer.c\<close>

datatype timer_event = PostSignal nat | AddUpc nat

datatype profile_method = IX_PROFILE_PROGRAM | IX_PROFILE_TASK | IX_PROFILE_ALWAYS | IX_PROFILE_UNUSED

definition tick_timer :: "int \<Rightarrow> nat \<Rightarrow> itimerval \<Rightarrow> timer_event list \<times> itimerval" where
  "tick_timer res sig it =
     (if timerisset (it_value it)
      then let (r, it') = itimerdecr it res in (if r = 0 then [PostSignal sig] else [], it')
      else ([], it))"

definition tick_usage :: "int \<Rightarrow> timeval \<Rightarrow> timeval" where
  "tick_usage res tv =
     (let tv1 = tv\<lparr>tv_usec := tv_usec tv + res\<rparr> in
      if tv_usec tv1 \<ge> 1000000
      then \<lparr>tv_sec = tv_sec tv1 + 1, tv_usec = tv_usec tv1 - 1000000\<rparr> else tv1)"

definition tick_profile :: "profile_method \<Rightarrow> bool \<Rightarrow> nat \<Rightarrow> timer_user \<Rightarrow> timer_event list" where
  "tick_profile pm running pc p =
     (case pm of
        IX_PROFILE_PROGRAM \<Rightarrow> if u_prof_scale p \<noteq> 0 then [AddUpc pc] else []
      | IX_PROFILE_TASK \<Rightarrow> if running \<and> u_prof_scale p \<noteq> 0 then [AddUpc (u_prof_last_pc p)] else []
      | IX_PROFILE_ALWAYS \<Rightarrow> if u_prof_scale p \<noteq> 0 then [AddUpc (u_prof_last_pc p)] else []
      | IX_PROFILE_UNUSED \<Rightarrow> [])"

text \<open>
  \<open>running\<close> is \<open>me == current_task\<close> and \<open>pc\<close> the interrupted program counter; posted signals
  and profiling hits are returned as events in program order.
\<close>

definition ix_timer ::
    "int \<Rightarrow> profile_method \<Rightarrow> bool \<Rightarrow> nat \<Rightarrow> timer_user \<Rightarrow> timer_event list \<times> timer_user" where
  "ix_timer res pm running pc p =
     (let (ev0, t0) = tick_timer res 14 (u_timer p ! 0);
          p0 = p\<lparr>u_timer := (u_timer p)[0 := t0]\<rparr> in
      if running then
        let is_user = (u_start_pc p \<le> pc \<and> pc < u_end_pc p);
            (ev1, t1) = (if is_user then tick_timer res 26 (u_timer p0 ! 1) else ([], u_timer p0 ! 1));
            (ev2, t2) = tick_timer res 27 (u_timer p0 ! 2);
            p2 = p0\<lparr>u_timer := (u_timer p0)[1 := t1, 2 := t2]\<rparr>;
            p3 = (if is_user then p2\<lparr>u_utime := tick_usage res (u_utime p2)\<rparr>
                  else p2\<lparr>u_stime := tick_usage res (u_stime p2)\<rparr>)
        in (ev0 @ ev1 @ ev2 @ tick_profile pm True pc p, p3)
      else (ev0 @ tick_profile pm False pc p, p0))"

section \<open>Abstraction: microseconds\<close>

definition usecs :: "timeval \<Rightarrow> int" where
  "usecs t = tv_sec t * 1000000 + tv_usec t"

definition tv_ok :: "timeval \<Rightarrow> bool" where
  "tv_ok t \<longleftrightarrow> 0 \<le> tv_sec t \<and> tv_sec t \<le> 100000000 \<and> 0 \<le> tv_usec t \<and> tv_usec t < 1000000"

text \<open>A loaded timer: both parts normalised, the reload value zero or at least one tick.\<close>

definition itimer_ok :: "int \<Rightarrow> itimerval \<Rightarrow> bool" where
  "itimer_ok res it \<longleftrightarrow> tv_ok (it_value it) \<and> tv_ok (it_interval it)
     \<and> (usecs (it_interval it) = 0 \<or> res \<le> usecs (it_interval it))"

definition timer_list_ok :: "int \<Rightarrow> itimerval list \<Rightarrow> bool" where
  "timer_list_ok res ts \<longleftrightarrow> length ts = 3 \<and> (\<forall>it \<in> set ts. itimer_ok res it)"

abbreviation timers_ok :: "int \<Rightarrow> timer_user \<Rightarrow> bool" where
  "timers_ok res u \<equiv> timer_list_ok res (u_timer u)"

lemma usecs_nonneg: "tv_ok t \<Longrightarrow> 0 \<le> usecs t"
  by (simp add: tv_ok_def usecs_def)

lemma timerisset_usecs: "tv_ok t \<Longrightarrow> timerisset t \<longleftrightarrow> 0 < usecs t"
  by (auto simp: tv_ok_def usecs_def timerisset_def)

lemma itimerfix_ok:
  "itimerfix res tv = (0, tv') \<Longrightarrow> res < 1000000 \<Longrightarrow>
     tv_ok tv' \<and> (usecs tv' = 0 \<or> res \<le> usecs tv') \<and> usecs tv \<le> usecs tv'"
  by (auto simp: itimerfix_def tv_ok_def usecs_def split: if_splits)

lemma itimerfix_err: "fst (itimerfix res tv) \<noteq> 0 \<longleftrightarrow> \<not> tv_ok tv"
  by (auto simp: itimerfix_def tv_ok_def)

lemma itimer_expire_usecs:
  assumes "tv_ok (it_interval it)" and "0 \<le> d" and "d < 1000000"
    and "d \<le> usecs (it_interval it)" and "timerisset (it_interval it)"
  shows "usecs (it_value (itimer_expire it d)) = usecs (it_interval it) - d"
    and "tv_ok (it_value (itimer_expire it d))"
    and "it_interval (itimer_expire it d) = it_interval it"
  using assms by (auto simp: itimer_expire_def Let_def usecs_def tv_ok_def)

text \<open>One tick of a running timer, in microseconds.\<close>

lemma itimerdecr_running:
  assumes "tv_ok (it_value it)" and "0 \<le> d" and "d < 1000000" and "d < usecs (it_value it)"
  shows "fst (itimerdecr it d) = 1"
    and "usecs (it_value (snd (itimerdecr it d))) = usecs (it_value it) - d"
    and "tv_ok (it_value (snd (itimerdecr it d)))"
    and "it_interval (snd (itimerdecr it d)) = it_interval it"
  using assms by (auto simp: itimerdecr_def Let_def usecs_def tv_ok_def timerisset_def)

lemma itimerdecr_expiring:
  assumes "tv_ok (it_value it)" and "0 \<le> d" and "d < 1000000" and "usecs (it_value it) \<le> d"
  shows "fst (itimerdecr it d) = 0"
    and "\<exists>v. tv_sec v = 0 \<and> itimerdecr it d = (0, itimer_expire (it\<lparr>it_value := v\<rparr>) (d - usecs (it_value it)))"
proof -
  have sec: "tv_sec (it_value it) = 0"
    using assms by (auto simp: usecs_def tv_ok_def)
  show "fst (itimerdecr it d) = 0"
    using assms sec by (auto simp: itimerdecr_def Let_def usecs_def tv_ok_def timerisset_def)
  show "\<exists>v. tv_sec v = 0 \<and> itimerdecr it d = (0, itimer_expire (it\<lparr>it_value := v\<rparr>) (d - usecs (it_value it)))"
  proof (cases "tv_usec (it_value it) < d")
    case True
    with sec show ?thesis
      by (intro exI [of _ "it_value it"]) (simp add: itimerdecr_def usecs_def)
  next
    case False
    with sec assms have "d = tv_usec (it_value it)" by (simp add: usecs_def)
    with sec show ?thesis
      by (intro exI [of _ "(it_value it)\<lparr>tv_usec := 0\<rparr>"]) (simp add: itimerdecr_def usecs_def timerisset_def)
  qed
qed

lemma itimer_expire_off:
  "\<not> timerisset (it_interval it) \<Longrightarrow> tv_sec v = 0 \<Longrightarrow>
     it_value (itimer_expire (it\<lparr>it_value := v\<rparr>) d) = \<lparr>tv_sec = 0, tv_usec = 0\<rparr>
     \<and> it_interval (itimer_expire (it\<lparr>it_value := v\<rparr>) d) = it_interval it"
  by (simp add: itimer_expire_def)

lemma itimerdecr_reload:
  assumes "itimer_ok res it" and "0 < res" and "res < 1000000" and "usecs (it_value it) \<le> res"
    and "0 < usecs (it_value it)" and "0 < usecs (it_interval it)"
  shows "usecs (it_value (snd (itimerdecr it res))) = usecs (it_interval it) + usecs (it_value it) - res"
    and "tv_ok (it_value (snd (itimerdecr it res)))"
    and "it_interval (snd (itimerdecr it res)) = it_interval it"
proof -
  have v: "tv_ok (it_value it)" and iv: "tv_ok (it_interval it)" and ge: "res \<le> usecs (it_interval it)"
    using assms by (auto simp: itimer_ok_def)
  obtain w where "tv_sec w = 0"
    and eq: "itimerdecr it res = (0, itimer_expire (it\<lparr>it_value := w\<rparr>) (res - usecs (it_value it)))"
    using itimerdecr_expiring(2) [OF v, of res] assms by auto
  have set: "timerisset (it_interval it)" using iv assms by (simp add: timerisset_usecs)
  note ex = itimer_expire_usecs [of "it\<lparr>it_value := w\<rparr>" "res - usecs (it_value it)", simplified,
      OF iv _ _ _ set]
  show "usecs (it_value (snd (itimerdecr it res))) = usecs (it_interval it) + usecs (it_value it) - res"
    using ex(1) assms ge eq by simp
  show "tv_ok (it_value (snd (itimerdecr it res)))"
    using ex(2) assms ge eq by simp
  show "it_interval (snd (itimerdecr it res)) = it_interval it"
    using ex(3) assms ge eq by simp
qed

lemma itimerdecr_oneshot:
  assumes "itimer_ok res it" and "0 < res" and "res < 1000000" and "usecs (it_value it) \<le> res"
    and "usecs (it_interval it) = 0"
  shows "usecs (it_value (snd (itimerdecr it res))) = 0"
    and "tv_ok (it_value (snd (itimerdecr it res)))"
    and "it_interval (snd (itimerdecr it res)) = it_interval it"
proof -
  have v: "tv_ok (it_value it)" and iv: "tv_ok (it_interval it)"
    using assms by (auto simp: itimer_ok_def)
  obtain w where w: "tv_sec w = 0"
    and eq: "itimerdecr it res = (0, itimer_expire (it\<lparr>it_value := w\<rparr>) (res - usecs (it_value it)))"
    using itimerdecr_expiring(2) [OF v, of res] assms by auto
  have off: "\<not> timerisset (it_interval it)" using iv assms by (simp add: timerisset_usecs)
  note ex = itimer_expire_off [OF off w]
  show "usecs (it_value (snd (itimerdecr it res))) = 0" "tv_ok (it_value (snd (itimerdecr it res)))"
    "it_interval (snd (itimerdecr it res)) = it_interval it"
    using ex eq by (auto simp: usecs_def tv_ok_def)
qed

lemma itimerdecr_itimer_ok:
  assumes "itimer_ok res it" and "0 < res" and "res < 1000000" and "timerisset (it_value it)"
  shows "itimer_ok res (snd (itimerdecr it res))"
proof -
  have v: "tv_ok (it_value it)" using assms by (simp add: itimer_ok_def)
  have pos: "0 < usecs (it_value it)" using v assms by (simp add: timerisset_usecs)
  consider "res < usecs (it_value it)" | "usecs (it_value it) \<le> res" "0 < usecs (it_interval it)"
    | "usecs (it_value it) \<le> res" "usecs (it_interval it) = 0"
    using assms usecs_nonneg by (force simp: itimer_ok_def)
  then show ?thesis
  proof cases
    case 1
    then show ?thesis using itimerdecr_running [OF v, of res] assms by (simp add: itimer_ok_def)
  next
    case 2
    then show ?thesis using itimerdecr_reload [of res it] assms pos by (simp add: itimer_ok_def)
  next
    case 3
    then show ?thesis using itimerdecr_oneshot [of res it] assms by (simp add: itimer_ok_def)
  qed
qed

lemma tick_timer_ok:
  "itimer_ok res it \<Longrightarrow> 0 < res \<Longrightarrow> res < 1000000 \<Longrightarrow> itimer_ok res (snd (tick_timer res sig it))"
  using itimerdecr_itimer_ok [of res it] by (cases "itimerdecr it res") (simp add: tick_timer_def)

lemma timer_list_ok_update:
  "timer_list_ok res ts \<Longrightarrow> itimer_ok res it \<Longrightarrow> timer_list_ok res (ts[i := it])"
  using set_update_subset_insert [of ts i it] by (auto simp: timer_list_ok_def)

lemma timer_list_ok_nth: "timer_list_ok res ts \<Longrightarrow> i < 3 \<Longrightarrow> itimer_ok res (ts ! i)"
  by (simp add: timer_list_ok_def)

lemma setitimer_timers_ok:
  assumes "timers_ok res u" and "res < 1000000"
  shows "timers_ok res (snd (snd (snd (setitimer res which itv oitv u))))"
proof (cases itv)
  case None
  then show ?thesis using assms by (simp add: setitimer_def getitimer_def Let_def)
next
  case (Some it)
  obtain r1 v r2 iv where f: "itimerfix res (it_value it) = (r1, v)" "itimerfix res (it_interval it) = (r2, iv)"
    by fastforce
  have "r1 = 0 \<Longrightarrow> r2 = 0 \<Longrightarrow> itimer_ok res \<lparr>it_interval = iv, it_value = v\<rparr>"
    using itimerfix_ok f assms by (fastforce simp: itimer_ok_def)
  then show ?thesis using assms f Some timer_list_ok_update [OF assms(1)]
    by (simp add: setitimer_def getitimer_def Let_def)
qed

lemma ix_timer_u_timer:
  "u_timer (snd (ix_timer res pm running pc p)) =
     (let ts = (u_timer p)[0 := snd (tick_timer res 14 (u_timer p ! 0))] in
      if running
      then ts[1 := if u_start_pc p \<le> pc \<and> pc < u_end_pc p then snd (tick_timer res 26 (ts ! 1)) else ts ! 1,
              2 := snd (tick_timer res 27 (ts ! 2))]
      else ts)"
  by (simp add: ix_timer_def Let_def case_prod_beta)

lemma ix_timer_timers_ok:
  assumes "timers_ok res u" and "0 < res" and "res < 1000000"
  shows "timers_ok res (snd (ix_timer res pm running pc u))"
proof -
  define ts where "ts = (u_timer u)[0 := snd (tick_timer res 14 (u_timer u ! 0))]"
  have ts: "timer_list_ok res ts"
    unfolding ts_def using assms by (intro timer_list_ok_update tick_timer_ok timer_list_ok_nth) auto
  have t: "itimer_ok res (ts ! 1)" "itimer_ok res (snd (tick_timer res 26 (ts ! 1)))"
    "itimer_ok res (snd (tick_timer res 27 (ts ! 2)))"
    using ts assms(2,3) by (auto intro!: tick_timer_ok timer_list_ok_nth)
  show ?thesis
    unfolding ix_timer_u_timer Let_def ts_def [symmetric]
    using ts t by (auto intro!: timer_list_ok_update)
qed

section \<open>Properties\<close>

fun run_ticks :: "int \<Rightarrow> nat \<Rightarrow> itimerval \<Rightarrow> nat \<times> itimerval" where
  "run_ticks res 0 it = (0, it)"
| "run_ticks res (Suc n) it =
     (let (ev, it') = tick_timer res 14 it; (k, it'') = run_ticks res n it'
      in (length ev + k, it''))"

lemma tick_timer_periodic:
  assumes "itimer_ok res it" and "0 < res" and "res < 1000000"
    and "0 < usecs (it_value it)" and "0 < usecs (it_interval it)"
    and "tick_timer res sig it = (ev, it')"
  shows "usecs (it_value it') = usecs (it_value it) + int (length ev) * usecs (it_interval it) - res"
    and "0 < usecs (it_value it')" and "it_interval it' = it_interval it" and "itimer_ok res it'"
    and "usecs (it_value it') \<le> max (usecs (it_value it)) (usecs (it_interval it))"
proof -
  have v: "tv_ok (it_value it)" and ge: "res \<le> usecs (it_interval it)"
    using assms by (auto simp: itimer_ok_def)
  have set: "timerisset (it_value it)" using v assms by (simp add: timerisset_usecs)
  obtain r where it': "it' = snd (itimerdecr it res)" and r: "r = fst (itimerdecr it res)"
    and ev: "ev = (if r = 0 then [PostSignal sig] else [])"
    using assms set by (auto simp: tick_timer_def split: prod.splits)
  have "usecs (it_value it') = usecs (it_value it) + int (length ev) * usecs (it_interval it) - res
    \<and> 0 < usecs (it_value it') \<and> it_interval it' = it_interval it
    \<and> usecs (it_value it') \<le> max (usecs (it_value it)) (usecs (it_interval it))"
  proof (cases "res < usecs (it_value it)")
    case True
    then show ?thesis using itimerdecr_running [OF v, of res] assms it' r ev by simp
  next
    case False
    then show ?thesis using itimerdecr_reload [of res it] itimerdecr_expiring(1) [OF v, of res] assms ge it' r ev
      by simp
  qed
  then show "usecs (it_value it') = usecs (it_value it) + int (length ev) * usecs (it_interval it) - res"
    "0 < usecs (it_value it')" "it_interval it' = it_interval it"
    "usecs (it_value it') \<le> max (usecs (it_value it)) (usecs (it_interval it))" by auto
  show "itimer_ok res it'" using itimerdecr_itimer_ok assms set it' by simp
qed

text \<open>
  C39. A periodic timer does not drift: over any number \<open>n\<close> of clock interrupts the time
  charged is exactly \<open>n\<close> ticks.  The remaining time after \<open>n\<close> ticks is the initial value plus one
  interval for each \<open>SIGALRM\<close> posted, minus \<open>n * res\<close>, and it always lies strictly above zero
  and at most the larger of the initial value and the interval, so the number of signals is
  the one the interval prescribes, whatever the overshoot of the individual ticks.
\<close>

theorem periodic_timer_no_drift:
  assumes "itimer_ok res it" and "0 < res" and "res < 1000000"
    and "0 < usecs (it_value it)" and "0 < usecs (it_interval it)"
    and "run_ticks res n it = (k, it')"
  shows "usecs (it_value it') = usecs (it_value it) + int k * usecs (it_interval it) - int n * res
     \<and> 0 < usecs (it_value it') \<and> it_interval it' = it_interval it
     \<and> usecs (it_value it') \<le> max (usecs (it_value it)) (usecs (it_interval it))"
  using assms
proof (induction n arbitrary: it k)
  case 0
  then show ?case by simp
next
  case (Suc n)
  obtain ev it1 where t: "tick_timer res 14 it = (ev, it1)" by fastforce
  obtain j where run: "run_ticks res n it1 = (j, it')" and k: "k = length ev + j"
    using Suc.prems(6) t by (auto split: prod.splits)
  note step = tick_timer_periodic [OF Suc.prems(1-5) t]
  have iv: "0 < usecs (it_interval it1)" using step(3) Suc.prems(5) by simp
  have ih: "usecs (it_value it') = usecs (it_value it1) + int j * usecs (it_interval it1) - int n * res
     \<and> 0 < usecs (it_value it') \<and> it_interval it' = it_interval it1
     \<and> usecs (it_value it') \<le> max (usecs (it_value it1)) (usecs (it_interval it1))"
    by (rule Suc.IH [OF step(4) Suc.prems(2,3) step(2) iv run])
  have "usecs (it_value it') = usecs (it_value it) + int k * usecs (it_interval it) - int (Suc n) * res"
    using ih step(1,3) k by (simp add: algebra_simps)
  moreover have "usecs (it_value it') \<le> max (usecs (it_value it)) (usecs (it_interval it))"
    using ih step(3,5) by auto
  ultimately show ?case using ih step(3) by simp
qed

definition itimer_sample :: itimerval where
  "itimer_sample = \<lparr>it_interval = \<lparr>tv_sec = 0, tv_usec = 50000\<rparr>, it_value = \<lparr>tv_sec = 0, tv_usec = 30000\<rparr>\<rparr>"

theorem periodic_timer_no_drift_witness:
  "run_ticks 20000 7 itimer_sample =
     (3, \<lparr>it_interval = \<lparr>tv_sec = 0, tv_usec = 50000\<rparr>, it_value = \<lparr>tv_sec = 0, tv_usec = 40000\<rparr>\<rparr>)
   \<and> (40000::int) = 30000 + 3 * 50000 - 7 * 20000"
proof -
  have run: "run_ticks 20000 7 itimer_sample =
     (3, \<lparr>it_interval = \<lparr>tv_sec = 0, tv_usec = 50000\<rparr>, it_value = \<lparr>tv_sec = 0, tv_usec = 40000\<rparr>\<rparr>)"
    by code_simp
  have "itimer_ok 20000 itimer_sample"
    by (simp add: itimer_ok_def tv_ok_def usecs_def itimer_sample_def)
  from periodic_timer_no_drift [OF this _ _ _ _ run] run show ?thesis
    by (simp add: usecs_def itimer_sample_def)
qed

text \<open>
  Timers stay normalised: \<open>setitimer\<close> only loads normalised values whose reload part is
  zero or at least one tick, and no clock interrupt breaks this, so the subtraction in
  \<open>itimerdecr\<close> never leaves a timer with a negative field.
\<close>

theorem timers_ok_preserved:
  assumes "timers_ok res u" and "0 < res" and "res < 1000000"
  shows "timers_ok res (snd (snd (snd (setitimer res which itv oitv u))))
     \<and> timers_ok res (snd (ix_timer res pm running pc u))"
  using assms by (simp add: setitimer_timers_ok ix_timer_timers_ok)

definition timer_user_sample :: timer_user where
  "timer_user_sample = \<lparr>u_timer = [itimer_sample, itimer_sample, itimer_sample],
     u_utime = \<lparr>tv_sec = 0, tv_usec = 0\<rparr>, u_stime = \<lparr>tv_sec = 0, tv_usec = 0\<rparr>,
     u_start_pc = 100, u_end_pc = 200, u_prof_scale = 0, u_prof_last_pc = 0, t_errno = 0\<rparr>"

theorem timers_ok_preserved_witness:
  "timers_ok 20000 timer_user_sample
     \<and> timers_ok 20000 (snd (ix_timer 20000 IX_PROFILE_TASK True 150 timer_user_sample))"
proof -
  have "timers_ok 20000 timer_user_sample"
    by (simp add: timer_list_ok_def itimer_ok_def tv_ok_def usecs_def timer_user_sample_def itimer_sample_def)
  with timers_ok_preserved [OF this, where running = True and pc = 150 and pm = IX_PROFILE_TASK] show ?thesis
    by simp
qed

text \<open>
  What a tick does to a loaded, running timer: with more than one tick left it reports
  "still running" and loses exactly \<open>res\<close> microseconds; otherwise it reports expiry, and the
  next period starts with the overshoot already deducted (a one-shot timer stops at zero).
\<close>

theorem itimerdecr_spec:
  assumes "itimer_ok res it" and "0 < res" and "res < 1000000" and "0 < usecs (it_value it)"
  shows "fst (itimerdecr it res) = (if res < usecs (it_value it) then 1 else 0)
     \<and> usecs (it_value (snd (itimerdecr it res))) =
         (if res < usecs (it_value it) then usecs (it_value it) - res
          else if usecs (it_interval it) = 0 then 0
          else usecs (it_interval it) - (res - usecs (it_value it)))"
proof -
  have v: "tv_ok (it_value it)" and iv: "0 \<le> usecs (it_interval it)"
    using assms usecs_nonneg by (auto simp: itimer_ok_def)
  consider "res < usecs (it_value it)" | "usecs (it_value it) \<le> res" "0 < usecs (it_interval it)"
    | "usecs (it_value it) \<le> res" "usecs (it_interval it) = 0"
    using iv by linarith
  then show ?thesis
  proof cases
    case 1
    then show ?thesis using itimerdecr_running(1,2) [OF v, of res] assms by simp
  next
    case 2
    then show ?thesis
      using itimerdecr_expiring(1) [OF v, of res] itimerdecr_reload(1) [of res it] assms by simp
  next
    case 3
    then show ?thesis
      using itimerdecr_expiring(1) [OF v, of res] itimerdecr_oneshot(1) [of res it] assms by simp
  qed
qed

theorem itimerdecr_spec_witness:
  "0 < usecs (it_value itimer_sample)
   \<and> fst (itimerdecr itimer_sample 40000) = 0
   \<and> usecs (it_value (snd (itimerdecr itimer_sample 40000))) = 50000 - (40000 - 30000)"
proof -
  have "itimer_ok 40000 itimer_sample"
    by (simp add: itimer_ok_def tv_ok_def usecs_def itimer_sample_def)
  from itimerdecr_spec [OF this] show ?thesis
    by (simp add: usecs_def itimer_sample_def)
qed

lemma timevalfix_usecs:
  assumes "- 1000000 \<le> tv_usec t" and "tv_usec t < 2000000" and "\<bar>tv_sec t\<bar> < 2 ^ 31 - 1"
  shows "usecs (timevalfix t) = usecs t \<and> 0 \<le> tv_usec (timevalfix t) \<and> tv_usec (timevalfix t) < 1000000"
  using assms by (auto simp: timevalfix_def Let_def usecs_def s32_id abs_if split: if_splits)

text \<open>
  \<open>timevaladd\<close> and \<open>timevalsub\<close> compute the sum and the difference of the durations and
  leave a normalised microsecond field, for normalised arguments of up to 100 million seconds
  (the range \<open>itimerfix\<close> admits), where no 32-bit field overflows.
\<close>

theorem timeval_arith:
  assumes "tv_ok t1" and "tv_ok t2"
  shows "usecs (timevaladd t1 t2) = usecs t1 + usecs t2
     \<and> usecs (timevalsub t1 t2) = usecs t1 - usecs t2
     \<and> 0 \<le> tv_usec (timevaladd t1 t2) \<and> tv_usec (timevaladd t1 t2) < 1000000
     \<and> 0 \<le> tv_usec (timevalsub t1 t2) \<and> tv_usec (timevalsub t1 t2) < 1000000"
proof -
  have s: "s32 (tv_sec t1 + tv_sec t2) = tv_sec t1 + tv_sec t2" "s32 (tv_usec t1 + tv_usec t2) = tv_usec t1 + tv_usec t2"
    "s32 (tv_sec t1 - tv_sec t2) = tv_sec t1 - tv_sec t2" "s32 (tv_usec t1 - tv_usec t2) = tv_usec t1 - tv_usec t2"
    using assms by (auto simp: tv_ok_def s32_id)
  have "\<bar>tv_sec t1 - tv_sec t2\<bar> < 2 ^ 31 - 1" "\<bar>tv_sec t1 + tv_sec t2\<bar> < 2 ^ 31 - 1"
    using assms by (auto simp: tv_ok_def abs_if)
  then show ?thesis
    using assms timevalfix_usecs [of "\<lparr>tv_sec = tv_sec t1 + tv_sec t2, tv_usec = tv_usec t1 + tv_usec t2\<rparr>"]
      timevalfix_usecs [of "\<lparr>tv_sec = tv_sec t1 - tv_sec t2, tv_usec = tv_usec t1 - tv_usec t2\<rparr>"]
    by (simp add: timevaladd_def timevalsub_def s tv_ok_def usecs_def)
qed

theorem timeval_arith_witness:
  "usecs (timevalsub \<lparr>tv_sec = 5, tv_usec = 100\<rparr> \<lparr>tv_sec = 2, tv_usec = 900000\<rparr>) = 5000100 - 2900000"
  using timeval_arith [of "\<lparr>tv_sec = 5, tv_usec = 100\<rparr>" "\<lparr>tv_sec = 2, tv_usec = 900000\<rparr>"]
  by (simp add: tv_ok_def usecs_def)

end
