(* ===== verification/Ix_Lists.thy ===== *)
theory Ix_Lists
  imports Ix_Prelude
begin

text \<open>
  The doubly linked lists of \<open>library/list.c\<close>, which hold the free blocks of the allocator
  and the sleep queues.  Nodes live in a memory \<open>addr \<Rightarrow> ixnode\<close>; a null pointer is \<open>None\<close>.
  Each routine is the sequence of pointer assignments of the source, and refines the
  corresponding operation on the HOL list of node addresses (\<open>dll\<close>).  The locale \<open>node_list\<close>
  is the contract clients rely on; it is interpreted on the pointer code.
\<close>

type_synonym addr = nat

record ixnode =
  n_next :: "addr option"
  n_prev :: "addr option"

record ixlist =
  l_head :: "addr option"
  l_tail :: "addr option"

type_synonym nodes = "addr \<Rightarrow> ixnode"

section \<open>The routines of list.c\<close>

definition ixnewlist :: "ixlist \<Rightarrow> ixlist" where
  "ixnewlist l = l\<lparr>l_head := None, l_tail := None\<rparr>"

definition ixinsert :: "nodes \<times> ixlist \<Rightarrow> addr option \<Rightarrow> addr option \<Rightarrow> nodes \<times> ixlist" where
  "ixinsert hl node after =
     (case node of None \<Rightarrow> hl
      | Some n \<Rightarrow>
          let (h, l) = hl;
              (h2, l2) =
                (case after of
                   Some a \<Rightarrow>
                     let h1 = h(n := (h n)\<lparr>n_prev := Some a\<rparr>);
                         h2 = h1(n := (h1 n)\<lparr>n_next := n_next (h1 a)\<rparr>)
                     in (h2(a := (h2 a)\<lparr>n_next := Some n\<rparr>), l)
                 | None \<Rightarrow>
                     (h(n := (h n)\<lparr>n_next := l_head l, n_prev := None\<rparr>), l\<lparr>l_head := Some n\<rparr>))
          in (case n_next (h2 n) of
                Some m \<Rightarrow> (h2(m := (h2 m)\<lparr>n_prev := Some n\<rparr>), l2)
              | None \<Rightarrow> (h2, l2\<lparr>l_tail := Some n\<rparr>)))"

definition ixaddtail :: "nodes \<times> ixlist \<Rightarrow> addr option \<Rightarrow> nodes \<times> ixlist" where
  "ixaddtail hl node = ixinsert hl node (l_tail (snd hl))"

definition ixaddhead :: "nodes \<times> ixlist \<Rightarrow> addr option \<Rightarrow> nodes \<times> ixlist" where
  "ixaddhead hl node = ixinsert hl node None"

definition ixremove :: "nodes \<times> ixlist \<Rightarrow> addr option \<Rightarrow> nodes \<times> ixlist" where
  "ixremove hl node =
     (case node of None \<Rightarrow> hl
      | Some n \<Rightarrow>
          let (h, l) = hl;
              (h1, l1) =
                (case n_prev (h n) of
                   Some p \<Rightarrow> (h(p := (h p)\<lparr>n_next := n_next (h n)\<rparr>), l)
                 | None \<Rightarrow> (h, l\<lparr>l_head := n_next (h n)\<rparr>))
          in (case n_next (h1 n) of
                Some m \<Rightarrow> (h1(m := (h1 m)\<lparr>n_prev := n_prev (h1 n)\<rparr>), l1)
              | None \<Rightarrow> (h1, l1\<lparr>l_tail := n_prev (h1 n)\<rparr>)))"

definition ixremhead :: "nodes \<times> ixlist \<Rightarrow> addr option \<times> nodes \<times> ixlist" where
  "ixremhead hl = (l_head (snd hl), ixremove hl (l_head (snd hl)))"

section \<open>Abstraction to lists of addresses\<close>

text \<open>
  \<open>dpath h p s xs q e\<close>: the nodes \<open>xs\<close> are linked from pointer \<open>s\<close> on, the first one points
  back to \<open>p\<close>; the chain leaves with next pointer \<open>e\<close>, and \<open>q\<close> is its last node.
\<close>

fun dpath :: "nodes \<Rightarrow> addr option \<Rightarrow> addr option \<Rightarrow> addr list \<Rightarrow> addr option \<Rightarrow> addr option \<Rightarrow> bool" where
  "dpath h p s [] q e \<longleftrightarrow> s = e \<and> p = q"
| "dpath h p s (x # xs) q e \<longleftrightarrow> s = Some x \<and> n_prev (h x) = p \<and> dpath h (Some x) (n_next (h x)) xs q e"

definition dll :: "nodes \<times> ixlist \<Rightarrow> addr list \<Rightarrow> bool" where
  "dll hl xs \<longleftrightarrow> distinct xs \<and> dpath (fst hl) None (l_head (snd hl)) xs (l_tail (snd hl)) None"

lemma dpath_append:
  "dpath h p s (xs @ ys) q e \<longleftrightarrow> (\<exists>q' e'. dpath h p s xs q' e' \<and> dpath h q' e' ys q e)"
  by (induction xs arbitrary: p s) auto

lemma dpath_frame [simp]: "x \<notin> set xs \<Longrightarrow> dpath (h(x := v)) p s xs q e = dpath h p s xs q e"
  by (induction xs arbitrary: p s) auto

lemma dpath_next_last:
  "dpath h p s (xs @ [a]) q e \<Longrightarrow> a \<notin> set xs \<Longrightarrow>
     q = Some a \<and> n_next (h a) = e \<and> dpath (h(a := (h a)\<lparr>n_next := e'\<rparr>)) p s (xs @ [a]) (Some a) e'"
  by (auto simp: dpath_append)

lemma dpath_prev_first:
  "dpath h p s (b # xs) q e \<Longrightarrow> b \<notin> set xs \<Longrightarrow>
     s = Some b \<and> n_prev (h b) = p \<and> dpath (h(b := (h b)\<lparr>n_prev := p'\<rparr>)) p' (Some b) (b # xs) q e"
  by auto

lemma dpath_last: "dpath h p s xs q e \<Longrightarrow> q = (if xs = [] then p else Some (last xs))"
  by (induction xs arbitrary: p s) auto

lemma dpath_first: "dpath h p s xs q e \<Longrightarrow> s = (if xs = [] then e else Some (hd xs))"
  by (cases xs) auto

lemma ixremove_Some:
  "ixremove (h, l) (Some n) =
     (let (h1, l1) = (case n_prev (h n) of
                        Some p \<Rightarrow> (h(p := (h p)\<lparr>n_next := n_next (h n)\<rparr>), l)
                      | None \<Rightarrow> (h, l\<lparr>l_head := n_next (h n)\<rparr>))
      in (case n_next (h1 n) of
            Some m \<Rightarrow> (h1(m := (h1 m)\<lparr>n_prev := n_prev (h1 n)\<rparr>), l1)
          | None \<Rightarrow> (h1, l1\<lparr>l_tail := n_prev (h1 n)\<rparr>)))"
  by (simp add: ixremove_def)

lemma ixinsert_head:
  "ixinsert (h, l) (Some n) None =
     (case l_head l of
        Some m \<Rightarrow> let h2 = h(n := (h n)\<lparr>n_next := l_head l, n_prev := None\<rparr>) in
                  (h2(m := (h2 m)\<lparr>n_prev := Some n\<rparr>), l\<lparr>l_head := Some n\<rparr>)
      | None \<Rightarrow> (h(n := (h n)\<lparr>n_next := l_head l, n_prev := None\<rparr>), l\<lparr>l_head := Some n, l_tail := Some n\<rparr>))"
  by (simp add: ixinsert_def Let_def split: option.split)

lemma ixinsert_after:
  "a \<noteq> n \<Longrightarrow> ixinsert (h, l) (Some n) (Some a) =
     (let h2 = h(n := (h n)\<lparr>n_prev := Some a, n_next := n_next (h a)\<rparr>, a := (h a)\<lparr>n_next := Some n\<rparr>) in
      case n_next (h a) of
        Some m \<Rightarrow> (h2(m := (h2 m)\<lparr>n_prev := Some n\<rparr>), l)
      | None \<Rightarrow> (h2, l\<lparr>l_tail := Some n\<rparr>))"
  by (simp add: ixinsert_def Let_def split: option.split)

lemma dll_newlist: "dll (h, ixnewlist l) []"
  by (simp add: dll_def ixnewlist_def)

lemma dll_addhead:
  assumes "dll (h, l) xs" and "n \<notin> set xs"
  shows "dll (ixaddhead (h, l) (Some n)) (n # xs)"
  using assms unfolding ixaddhead_def ixinsert_head
  by (cases xs) (auto simp: dll_def Let_def)

lemma dll_insert_after:
  assumes "dll (h, l) (xs @ a # ys)" and "n \<notin> set (xs @ a # ys)"
  shows "dll (ixinsert (h, l) (Some n) (Some a)) (xs @ a # n # ys)"
proof -
  from assms(2) have "a \<noteq> n" by auto
  with assms show ?thesis unfolding ixinsert_after [OF \<open>a \<noteq> n\<close>]
    by (cases ys) (auto simp: dll_def Let_def dpath_append)
qed

lemma dll_addtail:
  assumes "dll (h, l) xs" and "n \<notin> set xs"
  shows "dll (ixaddtail (h, l) (Some n)) (xs @ [n])"
proof (cases xs rule: rev_cases)
  case Nil
  with assms dll_addhead [of h l xs n] show ?thesis
    by (simp add: ixaddtail_def ixaddhead_def dll_def)
next
  case (snoc ys a)
  with assms have "l_tail l = Some a" by (auto simp: dll_def dpath_append)
  with dll_insert_after [of h l ys a "[]" n] snoc assms show ?thesis
    by (simp add: ixaddtail_def)
qed

lemma dll_remove_split:
  assumes "dll (h, l) (xs @ n # ys)"
  shows "dll (ixremove (h, l) (Some n)) (xs @ ys)"
proof (cases xs rule: rev_cases)
  case Nil
  with assms show ?thesis unfolding ixremove_Some
    by (cases ys) (auto simp: dll_def Let_def)
next
  case (snoc zs a)
  with assms show ?thesis unfolding ixremove_Some
    by (cases ys) (auto simp: dll_def Let_def dpath_append)
qed

lemma dll_remove:
  assumes "dll (h, l) xs" and "n \<in> set xs"
  shows "dll (ixremove (h, l) (Some n)) (remove1 n xs)"
proof -
  obtain ys zs where xs: "xs = ys @ n # zs" and "n \<notin> set ys"
    using assms(2) split_list_first by metis
  with assms dll_remove_split [of h l ys n zs] show ?thesis by (simp add: remove1_append)
qed

lemma dll_remhead:
  assumes "dll (h, l) xs"
  shows "fst (ixremhead (h, l)) = (if xs = [] then None else Some (hd xs))"
    and "dll (snd (ixremhead (h, l))) (tl xs)"
proof -
  have head: "l_head l = (if xs = [] then None else Some (hd xs))"
    using assms dpath_first by (fastforce simp: dll_def)
  then show "fst (ixremhead (h, l)) = (if xs = [] then None else Some (hd xs))"
    by (simp add: ixremhead_def)
  show "dll (snd (ixremhead (h, l))) (tl xs)"
    using assms head dll_remove_split [of h l "[]" "hd xs" "tl xs"]
    by (cases xs) (simp_all add: ixremhead_def ixremove_def)
qed

section \<open>Frame: other lists in the same memory\<close>






section \<open>The contract of a node list\<close>

fun pops :: "('s \<Rightarrow> 'a option \<times> 's) \<Rightarrow> nat \<Rightarrow> 's \<Rightarrow> 'a list \<times> 's" where
  "pops rh 0 s = ([], s)"
| "pops rh (Suc n) s =
     (case rh s of (None, s') \<Rightarrow> ([], s')
      | (Some x, s') \<Rightarrow> let (xs, s'') = pops rh n s' in (x # xs, s''))"

locale node_list =
  fixes absl :: "'s \<Rightarrow> 'a list \<Rightarrow> bool"
    and addhead :: "'s \<Rightarrow> 'a \<Rightarrow> 's"
    and addtail :: "'s \<Rightarrow> 'a \<Rightarrow> 's"
    and del :: "'s \<Rightarrow> 'a \<Rightarrow> 's"
    and remhead :: "'s \<Rightarrow> 'a option \<times> 's"
  assumes abs_distinct: "absl s xs \<Longrightarrow> distinct xs"
    and abs_addhead: "absl s xs \<Longrightarrow> x \<notin> set xs \<Longrightarrow> absl (addhead s x) (x # xs)"
    and abs_addtail: "absl s xs \<Longrightarrow> x \<notin> set xs \<Longrightarrow> absl (addtail s x) (xs @ [x])"
    and abs_del: "absl s xs \<Longrightarrow> x \<in> set xs \<Longrightarrow> absl (del s x) (remove1 x xs)"
    and remhead_fst: "absl s xs \<Longrightarrow> fst (remhead s) = (if xs = [] then None else Some (hd xs))"
    and abs_remhead: "absl s xs \<Longrightarrow> absl (snd (remhead s)) (tl xs)"
begin

lemma abs_addtails:
  "absl s ys \<Longrightarrow> distinct (ys @ xs) \<Longrightarrow> absl (fold (\<lambda>x s. addtail s x) xs s) (ys @ xs)"
proof (induction xs arbitrary: s ys)
  case Nil
  then show ?case by simp
next
  case (Cons x xs)
  then have "absl (addtail s x) (ys @ [x])" by (intro abs_addtail) auto
  from Cons.IH [OF this] Cons.prems show ?case by simp
qed

lemma pops_abs:
  "absl s xs \<Longrightarrow> fst (pops remhead n s) = take n xs \<and> absl (snd (pops remhead n s)) (drop n xs)"
proof (induction n arbitrary: s xs)
  case 0
  then show ?case by simp
next
  case (Suc n)
  note h = remhead_fst [OF Suc.prems] abs_remhead [OF Suc.prems]
  show ?case
  proof (cases xs)
    case Nil
    with h show ?thesis by (cases "remhead s") auto
  next
    case (Cons x ys)
    with h obtain s' where r: "remhead s = (Some x, s')" and "absl s' ys"
      by (cases "remhead s") auto
    with Suc.IH [of s' ys] Cons show ?thesis by (cases "pops remhead n s'") simp
  qed
qed

lemma queue_fifo:
  assumes "absl s []" and "distinct xs"
  shows "fst (pops remhead (length xs) (fold (\<lambda>x s. addtail s x) xs s)) = xs"
  using pops_abs abs_addtails [OF assms(1), of xs] assms by fastforce

lemma stack_lifo:
  assumes "absl s xs" and "x \<notin> set xs"
  shows "fst (remhead (addhead s x)) = Some x \<and> absl (snd (remhead (addhead s x))) xs"
  using remhead_fst [OF abs_addhead [OF assms]] abs_remhead [OF abs_addhead [OF assms]] by simp

lemma del_keeps_order:
  assumes "absl s (xs @ x # ys)"
  shows "absl (del s x) (xs @ ys)"
proof -
  from abs_distinct [OF assms] have "x \<notin> set xs" by simp
  with abs_del [OF assms, of x] show ?thesis by (simp add: remove1_append)
qed

end

interpretation ixl: node_list dll "\<lambda>s x. ixaddhead s (Some x)" "\<lambda>s x. ixaddtail s (Some x)"
  "\<lambda>s x. ixremove s (Some x)" ixremhead
proof (unfold_locales, goal_cases)
  case (1 s xs)
  then show ?case by (simp add: dll_def)
next
  case (2 s xs x)
  then show ?case by (cases s) (simp add: dll_addhead)
next
  case (3 s xs x)
  then show ?case by (cases s) (simp add: dll_addtail)
next
  case (4 s xs x)
  then show ?case by (cases s) (simp add: dll_remove)
next
  case (5 s xs)
  then show ?case by (cases s) (simp add: dll_remhead)
next
  case (6 s xs)
  then show ?case by (cases s) (simp add: dll_remhead)
qed

section \<open>Properties\<close>





text \<open>
  First in, first out: nodes appended with \<open>ixaddtail\<close> to an empty list come back from
  repeated \<open>ixremhead\<close> in the order they were appended.
\<close>

theorem ixlist_fifo:
  assumes "distinct xs"
  shows "fst (pops ixremhead (length xs) (fold (\<lambda>x s. ixaddtail s (Some x)) xs (h, ixnewlist l))) = xs"
  by (rule ixl.queue_fifo [OF dll_newlist assms])

theorem ixlist_fifo_witness:
  "fst (pops ixremhead (length [24, 8, 16 :: nat]) (fold (\<lambda>x s. ixaddtail s (Some x)) [24, 8, 16]
      (\<lambda>_. \<lparr>n_next = None, n_prev = None\<rparr>, ixnewlist \<lparr>l_head = Some 1, l_tail = None\<rparr>))) = [24, 8, 16]"
  by (rule ixlist_fifo) simp

end
