(* ===== verification/Ix_Stream.thy ===== *)
theory Ix_Stream
  imports Ix_Prelude
begin

text \<open>
  The byte streams of \<open>library/unp.c\<close> behind pipes and local sockets: a ring buffer with a
  read and a write offset, a lock in its flag word, and the blocking read and write loops.
  \<open>read_chunk\<close> and \<open>write_chunk\<close> are the copy sections of the loops (two \<open>bcopy\<close>s, one on each
  side of the wrap-around).  The loops are \<open>partial_function\<close>s whose value \<open>None\<close> would mean
  that they spin; a call that has to wait returns \<open>Sleeping\<close> together with its loop state and
  is resumed from there.  \<open>contents\<close> is the abstraction: the bytes in transit, oldest first.
\<close>

section \<open>Data\<close>

definition UNIX_SOCKET_SIZE :: nat where
  "UNIX_SOCKET_SIZE = 5120"

record sock_stream =
  s_buffer :: "u8 list"
  s_reader :: nat
  s_writer :: nat
  s_flags :: u16
  s_task :: "nat option"

abbreviation (input) UNF_NO_READER :: u16 where "UNF_NO_READER \<equiv> 1"
abbreviation (input) UNF_NO_WRITER :: u16 where "UNF_NO_WRITER \<equiv> 2"
abbreviation (input) UNF_LOCKED :: u16 where "UNF_LOCKED \<equiv> 4"
abbreviation (input) UNF_WANT_LOCK :: u16 where "UNF_WANT_LOCK \<equiv> 8"

definition stream_flag :: "sock_stream \<Rightarrow> u16 \<Rightarrow> bool" where
  "stream_flag ss m \<longleftrightarrow> s_flags ss AND m \<noteq> 0"

datatype stream_event = SignalTask nat | WakeupStream | WakeupLock | PostSigpipe

section \<open>Single operations\<close>

definition can_read :: "sock_stream \<Rightarrow> bool" where
  "can_read ss \<longleftrightarrow> s_reader ss \<noteq> s_writer ss"

definition can_write :: "sock_stream \<Rightarrow> bool" where
  "can_write ss \<longleftrightarrow>
     \<not> (s_reader ss = s_writer ss + 1 \<or> (s_reader ss = 0 \<and> s_writer ss = UNIX_SOCKET_SIZE - 1))"

text \<open>\<open>kmalloc\<close> returns uninitialised memory: the buffer's initial bytes are an argument.\<close>

definition init_stream :: "u8 list \<Rightarrow> sock_stream" where
  "init_stream mem = \<lparr>s_buffer = mem, s_reader = 0, s_writer = 0, s_flags = 0, s_task = None\<rparr>"

definition get_stream_try :: "sock_stream \<Rightarrow> bool \<times> sock_stream" where
  "get_stream_try ss =
     (if \<not> stream_flag ss UNF_LOCKED
      then (True, ss\<lparr>s_flags := (s_flags ss AND NOT UNF_WANT_LOCK) OR UNF_LOCKED\<rparr>)
      else (False, ss\<lparr>s_flags := s_flags ss OR UNF_WANT_LOCK\<rparr>))"

definition release_stream :: "sock_stream \<Rightarrow> stream_event list \<times> sock_stream" where
  "release_stream ss =
     (if stream_flag ss UNF_WANT_LOCK then [WakeupLock] else [],
      ss\<lparr>s_flags := s_flags ss AND NOT (UNF_WANT_LOCK OR UNF_LOCKED)\<rparr>)"

definition stream_is_closed :: "sock_stream option \<Rightarrow> bool" where
  "stream_is_closed ss =
     (case ss of None \<Rightarrow> True
      | Some s \<Rightarrow> s_flags s AND (UNF_NO_READER OR UNF_NO_WRITER) = UNF_NO_READER OR UNF_NO_WRITER)"

definition stream_notify :: "sock_stream \<Rightarrow> stream_event list" where
  "stream_notify ss = (case s_task ss of Some t \<Rightarrow> [SignalTask t] | None \<Rightarrow> []) @ [WakeupStream]"

text \<open>Closing one end of a pipe: the last close of an end marks it, and the second one frees
  the stream (\<open>None\<close>).\<close>

definition pclose_stream :: "bool \<Rightarrow> sock_stream \<Rightarrow> stream_event list \<times> sock_stream option" where
  "pclose_stream is_reader ss =
     (let ss1 = ss\<lparr>s_flags := s_flags ss OR (if is_reader then UNF_NO_READER else UNF_NO_WRITER)\<rparr> in
      if stream_is_closed (Some ss1) then ([], None) else (stream_notify ss1, Some ss1))"

text \<open>The two copies of a read: up to the end of the buffer, then from the read offset up to
  the write offset.  Each returns the bytes copied out.\<close>

definition read_hi :: "sock_stream \<Rightarrow> nat \<Rightarrow> u8 list \<times> sock_stream" where
  "read_hi ss len =
     (if s_reader ss > s_writer ss then
        let avail = UNIX_SOCKET_SIZE - s_reader ss;
            do_read = min len avail;
            r = s_reader ss + do_read
        in (take do_read (drop (s_reader ss) (s_buffer ss)),
            ss\<lparr>s_reader := if r = UNIX_SOCKET_SIZE then 0 else r\<rparr>)
      else ([], ss))"

definition read_lo :: "sock_stream \<Rightarrow> nat \<Rightarrow> u8 list \<times> sock_stream" where
  "read_lo ss len =
     (if len \<noteq> 0 \<and> s_reader ss < s_writer ss then
        let avail = s_writer ss - s_reader ss;
            do_read = min len avail
        in (take do_read (drop (s_reader ss) (s_buffer ss)), ss\<lparr>s_reader := s_reader ss + do_read\<rparr>)
      else ([], ss))"

definition read_chunk :: "sock_stream \<Rightarrow> nat \<Rightarrow> u8 list \<times> sock_stream" where
  "read_chunk ss len =
     (let (d1, s1) = read_hi ss len; (d2, s2) = read_lo s1 (len - length d1) in (d1 @ d2, s2))"

definition bcopy_into :: "u8 list \<Rightarrow> nat \<Rightarrow> u8 list \<Rightarrow> u8 list" where
  "bcopy_into buf off data = take off buf @ data @ drop (off + length data) buf"

text \<open>The two copies of a write; each returns how many of the offered bytes it stored.\<close>

definition write_hi :: "sock_stream \<Rightarrow> u8 list \<Rightarrow> nat \<times> sock_stream" where
  "write_hi ss data =
     (if s_writer ss \<ge> s_reader ss then
        let avail = UNIX_SOCKET_SIZE - 1 - s_writer ss;
            avail1 = (if s_reader ss > 0 then avail + 1 else avail);
            do_write = min (length data) avail1;
            w = s_writer ss + do_write
        in (do_write,
            ss\<lparr>s_buffer := bcopy_into (s_buffer ss) (s_writer ss) (take do_write data),
               s_writer := if w = UNIX_SOCKET_SIZE then 0 else w\<rparr>)
      else (0, ss))"

definition write_lo :: "sock_stream \<Rightarrow> u8 list \<Rightarrow> nat \<times> sock_stream" where
  "write_lo ss data =
     (if s_writer ss + 1 < s_reader ss then
        let avail = s_reader ss - s_writer ss - 1;
            do_write = min (length data) avail
        in (do_write,
            ss\<lparr>s_buffer := bcopy_into (s_buffer ss) (s_writer ss) (take do_write data),
               s_writer := s_writer ss + do_write\<rparr>)
      else (0, ss))"

definition write_chunk :: "sock_stream \<Rightarrow> u8 list \<Rightarrow> nat \<times> sock_stream" where
  "write_chunk ss data =
     (let (n1, s1) = write_hi ss data; (n2, s2) = write_lo s1 (drop n1 data) in (n1 + n2, s2))"

section \<open>The read and write loops\<close>

datatype loop_end = Finished | Sleeping

record rd_state =
  rd_len :: nat
  rd_data :: "u8 list"
  rd_ret :: int
  rd_err :: int
  rd_events :: "stream_event list"

record wr_state =
  wr_data :: "u8 list"
  wr_ret :: int
  wr_err :: int
  wr_events :: "stream_event list"

text \<open>One pass through the body of each \<open>while (len)\<close> loop; the first component is \<open>None\<close> when
  the loop goes round again.\<close>

definition read_iter ::
    "bool \<Rightarrow> sock_stream option \<Rightarrow> rd_state \<Rightarrow> loop_end option \<times> sock_stream option \<times> rd_state" where
  "read_iter ndelay ss r =
     (if rd_len r = 0 then (Some Finished, ss, r)
      else case ss of
        None \<Rightarrow> (Some Finished, None, r\<lparr>rd_err := 0\<rparr>)
      | Some s \<Rightarrow>
          if \<not> can_read s then
            if rd_ret r \<noteq> 0 \<or> stream_flag s UNF_NO_WRITER then (Some Finished, ss, r\<lparr>rd_err := 0\<rparr>)
            else if ndelay then (Some Finished, ss, r\<lparr>rd_ret := -1, rd_err := EAGAIN\<rparr>)
            else (Some Sleeping, ss, r)
          else
            (None, Some (snd (read_chunk s (rd_len r))),
              r\<lparr>rd_len := rd_len r - length (fst (read_chunk s (rd_len r))),
                rd_data := rd_data r @ fst (read_chunk s (rd_len r)),
                rd_ret := rd_ret r + int (length (fst (read_chunk s (rd_len r)))),
                rd_events := rd_events r @ stream_notify s\<rparr>))"

definition write_iter ::
    "bool \<Rightarrow> sock_stream option \<Rightarrow> wr_state \<Rightarrow> loop_end option \<times> sock_stream option \<times> wr_state" where
  "write_iter ndelay ss w =
     (if wr_data w = [] then (Some Finished, ss, w)
      else case ss of
        None \<Rightarrow> (Some Finished, None, w\<lparr>wr_ret := -1, wr_err := EPIPE, wr_events := wr_events w @ [PostSigpipe]\<rparr>)
      | Some s \<Rightarrow>
          if stream_flag s UNF_NO_READER
          then (Some Finished, ss, w\<lparr>wr_ret := -1, wr_err := EPIPE, wr_events := wr_events w @ [PostSigpipe]\<rparr>)
          else if \<not> can_write s then
            if ndelay then
              (Some Finished, ss, if wr_ret w = 0 then w\<lparr>wr_ret := -1, wr_err := EAGAIN\<rparr> else w)
            else (Some Sleeping, ss, w)
          else
            (None, Some (snd (write_chunk s (wr_data w))),
              w\<lparr>wr_data := drop (fst (write_chunk s (wr_data w))) (wr_data w),
                wr_ret := wr_ret w + int (fst (write_chunk s (wr_data w))),
                wr_events := wr_events w @ stream_notify s\<rparr>))"

partial_function (option) stream_read_loop ::
    "bool \<Rightarrow> sock_stream option \<Rightarrow> rd_state \<Rightarrow> (loop_end \<times> sock_stream option \<times> rd_state) option" where
  "stream_read_loop ndelay ss r =
     (case read_iter ndelay ss r of
        (Some e, ss', r') \<Rightarrow> Some (e, ss', r')
      | (None, ss', r') \<Rightarrow> stream_read_loop ndelay ss' r')"

partial_function (option) stream_write_loop ::
    "bool \<Rightarrow> sock_stream option \<Rightarrow> wr_state \<Rightarrow> (loop_end \<times> sock_stream option \<times> wr_state) option" where
  "stream_write_loop ndelay ss w =
     (case write_iter ndelay ss w of
        (Some e, ss', w') \<Rightarrow> Some (e, ss', w')
      | (None, ss', w') \<Rightarrow> stream_write_loop ndelay ss' w')"

text \<open>
  A whole call: the stream is locked on entry (\<open>get_stream\<close>) and released at the end or before
  sleeping; \<open>errno\<close> starts from the caller's value and is stored back on return.
\<close>

definition stream_read ::
    "bool \<Rightarrow> sock_stream option \<Rightarrow> int \<Rightarrow> nat \<Rightarrow> (loop_end \<times> sock_stream option \<times> rd_state) option" where
  "stream_read ndelay ss errno len =
     (case stream_read_loop ndelay ss
             \<lparr>rd_len = len, rd_data = [], rd_ret = 0, rd_err = errno, rd_events = []\<rparr> of
        None \<Rightarrow> None
      | Some (e, ss', r) \<Rightarrow>
          (case ss' of None \<Rightarrow> Some (e, None, r)
           | Some s \<Rightarrow> Some (e, Some (snd (release_stream s)),
                              r\<lparr>rd_events := rd_events r @ fst (release_stream s)\<rparr>)))"

definition stream_write ::
    "bool \<Rightarrow> sock_stream option \<Rightarrow> int \<Rightarrow> u8 list \<Rightarrow> (loop_end \<times> sock_stream option \<times> wr_state) option" where
  "stream_write ndelay ss errno data =
     (case stream_write_loop ndelay ss
             \<lparr>wr_data = data, wr_ret = 0, wr_err = errno, wr_events = []\<rparr> of
        None \<Rightarrow> None
      | Some (e, ss', w) \<Rightarrow>
          (case ss' of None \<Rightarrow> Some (e, None, w)
           | Some s \<Rightarrow> Some (e, Some (snd (release_stream s)),
                              w\<lparr>wr_events := wr_events w @ fst (release_stream s)\<rparr>)))"

text \<open>\<open>FIONREAD\<close> of \<open>unp_ioctl\<close>.\<close>

definition fionread :: "sock_stream option \<Rightarrow> nat" where
  "fionread ss =
     (case ss of None \<Rightarrow> 0
      | Some s \<Rightarrow>
          if s_reader s < s_writer s then s_writer s - s_reader s
          else if s_reader s > s_writer s then UNIX_SOCKET_SIZE - (s_reader s - s_writer s)
          else 0)"

section \<open>Abstraction\<close>

definition stream_ok :: "sock_stream \<Rightarrow> bool" where
  "stream_ok ss \<longleftrightarrow> length (s_buffer ss) = UNIX_SOCKET_SIZE
     \<and> s_reader ss < UNIX_SOCKET_SIZE \<and> s_writer ss < UNIX_SOCKET_SIZE"

definition contents :: "sock_stream \<Rightarrow> u8 list" where
  "contents ss =
     (if s_reader ss \<le> s_writer ss
      then take (s_writer ss - s_reader ss) (drop (s_reader ss) (s_buffer ss))
      else drop (s_reader ss) (s_buffer ss) @ take (s_writer ss) (s_buffer ss))"

definition room :: "sock_stream \<Rightarrow> nat" where
  "room ss = UNIX_SOCKET_SIZE - 1 - length (contents ss)"

lemma length_contents:
  "stream_ok ss \<Longrightarrow> length (contents ss) =
     (if s_reader ss \<le> s_writer ss then s_writer ss - s_reader ss
      else UNIX_SOCKET_SIZE - s_reader ss + s_writer ss)"
  by (auto simp: stream_ok_def contents_def)

lemma can_read_contents: "stream_ok ss \<Longrightarrow> can_read ss \<longleftrightarrow> contents ss \<noteq> []"
  by (auto simp: can_read_def stream_ok_def contents_def)

lemma can_write_room: "stream_ok ss \<Longrightarrow> can_write ss \<longleftrightarrow> 0 < room ss"
  by (auto simp: can_write_def room_def length_contents) (auto simp: stream_ok_def)

lemma length_contents_less: "stream_ok ss \<Longrightarrow> length (contents ss) < UNIX_SOCKET_SIZE"
  by (auto simp: length_contents) (auto simp: stream_ok_def)

lemma init_stream_ok: "length mem = UNIX_SOCKET_SIZE \<Longrightarrow> stream_ok (init_stream mem) \<and> contents (init_stream mem) = []"
  by (simp add: stream_ok_def init_stream_def contents_def UNIX_SOCKET_SIZE_def)

lemma read_hi_spec:
  assumes ok: "stream_ok ss" and r: "read_hi ss len = (d, s')"
  shows "d = take (length d) (contents ss)" and "contents s' = drop (length d) (contents ss)"
    and "stream_ok s'" and "length d = len \<or> s_reader s' \<le> s_writer s'" and "length d \<le> len"
proof -
  note ok' = ok [unfolded stream_ok_def]
  have "d = take (length d) (contents ss) \<and> contents s' = drop (length d) (contents ss) \<and> stream_ok s'
    \<and> (length d = len \<or> s_reader s' \<le> s_writer s') \<and> length d \<le> len"
  proof (cases "s_writer ss < s_reader ss")
    case False
    then show ?thesis using r ok by (auto simp: read_hi_def)
  next
    case hi: True
    show ?thesis
    proof (cases "len < UNIX_SOCKET_SIZE - s_reader ss")
      case True
      then show ?thesis using r hi ok' by (auto simp: read_hi_def Let_def contents_def stream_ok_def add.commute)
    next
      case False
      then show ?thesis using r hi ok' by (auto simp: read_hi_def Let_def contents_def stream_ok_def)
    qed
  qed
  then show "d = take (length d) (contents ss)" "contents s' = drop (length d) (contents ss)"
    "stream_ok s'" "length d = len \<or> s_reader s' \<le> s_writer s'" "length d \<le> len" by auto
qed

lemma read_lo_spec:
  assumes ok: "stream_ok ss" and r: "read_lo ss len = (d, s')" and "len = 0 \<or> s_reader ss \<le> s_writer ss"
  shows "d = take len (contents ss)" and "contents s' = drop len (contents ss)" and "stream_ok s'"
  using assms by (auto simp: read_lo_def contents_def stream_ok_def Let_def min_def drop_take add.commute split: if_splits)

lemma read_chunk_contents:
  assumes ok: "stream_ok ss"
  shows "fst (read_chunk ss len) = take len (contents ss)"
    and "contents (snd (read_chunk ss len)) = drop len (contents ss)"
    and "stream_ok (snd (read_chunk ss len))"
proof -
  obtain d1 s1 where r1: "read_hi ss len = (d1, s1)" by fastforce
  note hi = read_hi_spec [OF ok r1]
  obtain d2 s2 where r2: "read_lo s1 (len - length d1) = (d2, s2)" by fastforce
  have "len - length d1 = 0 \<or> s_reader s1 \<le> s_writer s1" using hi(4) by auto
  note lo = read_lo_spec [OF hi(3) r2 this]
  have eq: "read_chunk ss len = (d1 @ d2, s2)" by (simp add: read_chunk_def r1 r2)
  have "d1 @ d2 = take (length d1 + (len - length d1)) (contents ss)"
    using hi(1) lo(1) hi(2) by (metis take_add)
  then show "fst (read_chunk ss len) = take len (contents ss)" using eq hi(5) by simp
  show "contents (snd (read_chunk ss len)) = drop len (contents ss)"
    using eq lo(2) hi(2,5) by simp
  show "stream_ok (snd (read_chunk ss len))" using eq lo(3) by simp
qed

lemma length_bcopy_into [simp]:
  "off + length data \<le> length buf \<Longrightarrow> length (bcopy_into buf off data) = length buf"
  by (simp add: bcopy_into_def)

lemma take_min_length [simp]: "take (min (length xs) n) xs = take n xs"
  by (simp add: min_def)

lemma bcopy_extends:
  assumes "r \<le> w" and "w + length d \<le> length buf"
  shows "take (w + length d - r) (drop r (bcopy_into buf w d)) = take (w - r) (drop r buf) @ d"
proof -
  have "drop r (bcopy_into buf w d) = (drop r (take w buf) @ d) @ drop (w + length d) buf"
    using assms by (simp add: bcopy_into_def)
  moreover have "length (drop r (take w buf) @ d) = w + length d - r"
    using assms by simp
  ultimately show ?thesis by (metis append_eq_conv_conj drop_take)
qed

lemma bcopy_below: "w + length d \<le> r \<Longrightarrow> w \<le> length buf \<Longrightarrow>
    drop r (bcopy_into buf w d) = drop r buf \<and> take (w + length d) (bcopy_into buf w d) = take w buf @ d"
  by (simp add: bcopy_into_def)

text \<open>Storing bytes at the write offset without reaching the reader or the end of the buffer.\<close>

lemma contents_store_flat:
  assumes "stream_ok ss" and "s_reader ss \<le> s_writer ss" and "s_writer ss + length d < UNIX_SOCKET_SIZE"
  shows "contents (ss\<lparr>s_buffer := bcopy_into (s_buffer ss) (s_writer ss) d, s_writer := s_writer ss + length d\<rparr>)
      = contents ss @ d"
    and "stream_ok (ss\<lparr>s_buffer := bcopy_into (s_buffer ss) (s_writer ss) d, s_writer := s_writer ss + length d\<rparr>)"
  using assms by (simp_all add: contents_def stream_ok_def bcopy_extends trans_le_add1)

lemma contents_store_wrap:
  assumes "stream_ok ss" and "s_reader ss \<le> s_writer ss" and "s_writer ss + length d = UNIX_SOCKET_SIZE"
    and "0 < s_reader ss"
  shows "contents (ss\<lparr>s_buffer := bcopy_into (s_buffer ss) (s_writer ss) d, s_writer := 0\<rparr>) = contents ss @ d"
    and "stream_ok (ss\<lparr>s_buffer := bcopy_into (s_buffer ss) (s_writer ss) d, s_writer := 0\<rparr>)"
proof -
  have "drop (s_reader ss) (bcopy_into (s_buffer ss) (s_writer ss) d)
      = take (s_writer ss - s_reader ss) (drop (s_reader ss) (s_buffer ss)) @ d"
    using bcopy_extends [of "s_reader ss" "s_writer ss" d "s_buffer ss"] assms by (simp add: stream_ok_def)
  then show "contents (ss\<lparr>s_buffer := bcopy_into (s_buffer ss) (s_writer ss) d, s_writer := 0\<rparr>) = contents ss @ d"
    using assms by (simp add: contents_def stream_ok_def)
  show "stream_ok (ss\<lparr>s_buffer := bcopy_into (s_buffer ss) (s_writer ss) d, s_writer := 0\<rparr>)"
    using assms by (simp add: stream_ok_def)
qed

lemma contents_store_low:
  assumes "stream_ok ss" and "s_writer ss + length d < s_reader ss"
  shows "contents (ss\<lparr>s_buffer := bcopy_into (s_buffer ss) (s_writer ss) d, s_writer := s_writer ss + length d\<rparr>)
      = contents ss @ d"
    and "stream_ok (ss\<lparr>s_buffer := bcopy_into (s_buffer ss) (s_writer ss) d, s_writer := s_writer ss + length d\<rparr>)"
  using assms bcopy_below [of "s_writer ss" d "s_reader ss" "s_buffer ss"]
  by (simp_all add: contents_def stream_ok_def)

lemma write_hi_spec:
  assumes ok: "stream_ok ss" and w: "write_hi ss data = (n, s')"
  shows "contents s' = contents ss @ take n data \<and> stream_ok s' \<and> n \<le> length data
    \<and> (n = length data \<or> room s' = 0 \<or> s_writer s' < s_reader s')"
proof -
  note ok' = ok [unfolded stream_ok_def]
  consider (below) "s_writer ss < s_reader ss"
    | (zero) "s_reader ss = 0"
    | (fits) "0 < s_reader ss" "s_reader ss \<le> s_writer ss" "s_writer ss + length data < UNIX_SOCKET_SIZE"
    | (wraps) "0 < s_reader ss" "s_reader ss \<le> s_writer ss" "UNIX_SOCKET_SIZE \<le> s_writer ss + length data"
    by linarith
  then show ?thesis
  proof cases
    case below
    then show ?thesis using w ok by (auto simp: write_hi_def)
  next
    case zero
    define d where "d = take (UNIX_SOCKET_SIZE - 1 - s_writer ss) data"
    have len: "min (length data) (UNIX_SOCKET_SIZE - 1 - s_writer ss) = length d"
      "take (length d) data = d" "s_writer ss + length d < UNIX_SOCKET_SIZE"
      using ok' by (auto simp: d_def)
    have "write_hi ss data = (length d,
        ss\<lparr>s_buffer := bcopy_into (s_buffer ss) (s_writer ss) d, s_writer := s_writer ss + length d\<rparr>)"
      using zero len by (simp add: write_hi_def Let_def d_def)
    with w have n: "n = length d" and s': "s' = ss\<lparr>s_buffer := bcopy_into (s_buffer ss) (s_writer ss) d,
        s_writer := s_writer ss + length d\<rparr>" by auto
    have "s_reader ss \<le> s_writer ss" using zero by simp
    note store = contents_store_flat [OF ok this len(3), folded s']
    have "length d = length data \<or> s_writer ss + length d = UNIX_SOCKET_SIZE - 1"
      using ok' by (auto simp: d_def)
    then have "n = length data \<or> room s' = 0"
      unfolding room_def length_contents [OF store(2)] n by (auto simp: s' zero)
    then show ?thesis using store len(2) n by (auto simp: d_def)
  next
    case fits
    then have "write_hi ss data = (length data,
        ss\<lparr>s_buffer := bcopy_into (s_buffer ss) (s_writer ss) data, s_writer := s_writer ss + length data\<rparr>)"
      by (simp add: write_hi_def Let_def)
    with w have n: "n = length data" and s': "s' = ss\<lparr>s_buffer := bcopy_into (s_buffer ss) (s_writer ss) data,
        s_writer := s_writer ss + length data\<rparr>" by auto
    show ?thesis using contents_store_flat [OF ok fits(2,3), folded s'] n by simp
  next
    case wraps
    define d where "d = take (UNIX_SOCKET_SIZE - s_writer ss) data"
    have len: "length d = UNIX_SOCKET_SIZE - s_writer ss" "s_writer ss + length d = UNIX_SOCKET_SIZE"
      "min (length data) (Suc (UNIX_SOCKET_SIZE - Suc (s_writer ss))) = length d" "take (length d) data = d"
      using ok' wraps by (auto simp: d_def)
    have "write_hi ss data = (length d, ss\<lparr>s_buffer := bcopy_into (s_buffer ss) (s_writer ss) d, s_writer := 0\<rparr>)"
      using wraps len(2,3,4) by (simp add: write_hi_def Let_def del: take_min_length)
    with w have n: "n = length d" and s': "s' = ss\<lparr>s_buffer := bcopy_into (s_buffer ss) (s_writer ss) d,
        s_writer := 0\<rparr>" by simp_all
    note store = contents_store_wrap [OF ok wraps(2) len(2) wraps(1), folded s']
    have "s_writer s' < s_reader s'" using wraps by (simp add: s')
    then show ?thesis using store len(4) n by (auto simp: d_def)
  qed
qed

lemma write_lo_spec:
  assumes ok: "stream_ok ss" and w: "write_lo ss data = (n, s')"
    and side: "data = [] \<or> room ss = 0 \<or> s_writer ss < s_reader ss"
  shows "contents s' = contents ss @ take n data \<and> stream_ok s' \<and> n = min (length data) (room ss)"
proof (cases "s_writer ss + 1 < s_reader ss")
  case True
  then have room: "room ss = s_reader ss - s_writer ss - 1"
    using ok by (auto simp: room_def length_contents stream_ok_def)
  define d where "d = take (s_reader ss - s_writer ss - 1) data"
  have len: "min (length data) (s_reader ss - s_writer ss - 1) = length d" "take (length d) data = d"
    "s_writer ss + length d < s_reader ss"
    using True by (auto simp: d_def)
  have "write_lo ss data = (length d,
        ss\<lparr>s_buffer := bcopy_into (s_buffer ss) (s_writer ss) d, s_writer := s_writer ss + length d\<rparr>)"
    using True len by (simp add: write_lo_def Let_def d_def)
  with w have n: "n = length d" and s': "s' = ss\<lparr>s_buffer := bcopy_into (s_buffer ss) (s_writer ss) d,
      s_writer := s_writer ss + length d\<rparr>" by auto
  show ?thesis using contents_store_low [OF ok len(3), folded s'] n len(1,2) room by simp
next
  case False
  then have "room ss = 0 \<or> data = []"
    using side ok by (auto simp: room_def length_contents stream_ok_def)
  with False show ?thesis using w ok by (auto simp: write_lo_def)
qed

lemma write_chunk_contents:
  assumes ok: "stream_ok ss"
  shows "fst (write_chunk ss data) = min (length data) (room ss)"
    and "contents (snd (write_chunk ss data)) = contents ss @ take (room ss) data"
    and "stream_ok (snd (write_chunk ss data))"
proof -
  obtain n1 s1 where w1: "write_hi ss data = (n1, s1)" by fastforce
  note hi = write_hi_spec [OF ok w1]
  obtain n2 s2 where w2: "write_lo s1 (drop n1 data) = (n2, s2)" by fastforce
  have side: "drop n1 data = [] \<or> room s1 = 0 \<or> s_writer s1 < s_reader s1" using hi by auto
  have s1: "stream_ok s1" using hi by simp
  note lo = write_lo_spec [OF s1 w2 side]
  have eq: "write_chunk ss data = (n1 + n2, s2)" by (simp add: write_chunk_def w1 w2)
  have room: "room s1 = room ss - n1" and n1: "n1 \<le> room ss"
    using hi length_contents_less [OF s1] by (auto simp: room_def)
  show n: "fst (write_chunk ss data) = min (length data) (room ss)"
    using eq lo room n1 hi by auto
  have "contents s2 = contents ss @ take (n1 + n2) data"
    using lo hi by (simp add: take_add)
  also have "take (n1 + n2) data = take (room ss) data"
    using n eq by (auto simp: min_def split: if_splits)
  finally show "contents (snd (write_chunk ss data)) = contents ss @ take (room ss) data"
    using eq by simp
  show "stream_ok (snd (write_chunk ss data))" using eq lo by simp
qed

section \<open>Bounded FIFO specification of the calls\<close>

text \<open>
  What a read and a write promise, over the queue of bytes in transit alone: result of the call,
  queue afterwards, bytes delivered (respectively not accepted), return value and \<open>errno\<close>.
  A short read clears \<open>errno\<close>.
\<close>

definition fifo_read ::
    "bool \<Rightarrow> bool \<Rightarrow> u8 list \<Rightarrow> int \<Rightarrow> nat \<Rightarrow> loop_end \<times> u8 list \<times> u8 list \<times> int \<times> int" where
  "fifo_read ndelay eof q err len =
     (if len = 0 then (Finished, q, [], 0, err)
      else if q = [] then
        if eof then (Finished, [], [], 0, 0)
        else if ndelay then (Finished, [], [], -1, EAGAIN)
        else (Sleeping, [], [], 0, err)
      else (Finished, drop len q, take len q, int (min len (length q)), if len \<le> length q then err else 0))"

definition fifo_write ::
    "bool \<Rightarrow> bool \<Rightarrow> u8 list \<Rightarrow> int \<Rightarrow> u8 list \<Rightarrow> loop_end \<times> u8 list \<times> u8 list \<times> int \<times> int" where
  "fifo_write ndelay broken q err data =
     (let free = UNIX_SOCKET_SIZE - 1 - length q in
      if data = [] then (Finished, q, [], 0, err)
      else if broken then (Finished, q, data, -1, EPIPE)
      else if length data \<le> free then (Finished, q @ data, [], int (length data), err)
      else if \<not> ndelay then (Sleeping, q @ take free data, drop free data, int free, err)
      else if free = 0 then (Finished, q, data, -1, EAGAIN)
      else (Finished, q @ take free data, drop free data, int free, err))"

lemma chunk_flags:
  "s_flags (snd (read_chunk ss len)) = s_flags ss" "s_task (snd (read_chunk ss len)) = s_task ss"
  "s_flags (snd (write_chunk ss data)) = s_flags ss" "s_task (snd (write_chunk ss data)) = s_task ss"
  by (auto simp: read_chunk_def read_hi_def read_lo_def write_chunk_def write_hi_def write_lo_def Let_def
      split: prod.splits if_splits)

lemma read_loop_stop:
  "read_iter nd ss r = (Some e, ss', r') \<Longrightarrow> stream_read_loop nd ss r = Some (e, ss', r')"
  by (subst stream_read_loop.simps) simp

lemma read_loop_again:
  "read_iter nd ss r = (None, ss', r') \<Longrightarrow> stream_read_loop nd ss r = stream_read_loop nd ss' r'"
  by (subst stream_read_loop.simps) simp

lemma write_loop_stop:
  "write_iter nd ss w = (Some e, ss', w') \<Longrightarrow> stream_write_loop nd ss w = Some (e, ss', w')"
  by (subst stream_write_loop.simps) simp

lemma write_loop_again:
  "write_iter nd ss w = (None, ss', w') \<Longrightarrow> stream_write_loop nd ss w = stream_write_loop nd ss' w'"
  by (subst stream_write_loop.simps) simp

lemma read_loop_fifo:
  assumes ok: "stream_ok s" and ret: "rd_ret r = 0"
  shows "\<exists>e s' r'. stream_read_loop nd (Some s) r = Some (e, Some s', r')
    \<and> (e, contents s', rd_data r', rd_ret r', rd_err r')
        = (case fifo_read nd (stream_flag s UNF_NO_WRITER) (contents s) (rd_err r) (rd_len r) of
             (e, q, d, n, err) \<Rightarrow> (e, q, rd_data r @ d, n, err))
    \<and> stream_ok s' \<and> s_flags s' = s_flags s"
proof (cases "rd_len r = 0 \<or> contents s = []")
  case True
  then show ?thesis
    using ok ret can_read_contents [OF ok] by (cases "rd_len r = 0")
      (auto intro!: read_loop_stop exI simp: read_iter_def fifo_read_def)
next
  case False
  define s1 where "s1 = snd (read_chunk s (rd_len r))"
  define r1 where "r1 = r\<lparr>rd_len := rd_len r - length (take (rd_len r) (contents s)),
      rd_data := rd_data r @ take (rd_len r) (contents s),
      rd_ret := int (length (take (rd_len r) (contents s))),
      rd_events := rd_events r @ stream_notify s\<rparr>"
  note chunk = read_chunk_contents [OF ok, of "rd_len r", folded s1_def]
  have "read_iter nd (Some s) r = (None, Some s1, r1)"
    using False can_read_contents [OF ok] chunk(1) ret by (simp add: read_iter_def r1_def s1_def)
  then have loop: "stream_read_loop nd (Some s) r = stream_read_loop nd (Some s1) r1"
    by (rule read_loop_again)
  have flags: "s_flags s1 = s_flags s" by (simp add: s1_def chunk_flags)
  show ?thesis
  proof (cases "rd_len r \<le> length (contents s)")
    case True
    then have "stream_read_loop nd (Some s1) r1 = Some (Finished, Some s1, r1)"
      by (intro read_loop_stop) (simp add: read_iter_def r1_def)
    then show ?thesis using False True chunk flags loop by (auto simp: fifo_read_def r1_def)
  next
    case short: False
    then have "stream_read_loop nd (Some s1) r1 = Some (Finished, Some s1, r1\<lparr>rd_err := 0\<rparr>)"
      using False can_read_contents [OF chunk(3)] chunk(2)
      by (intro read_loop_stop) (simp add: read_iter_def r1_def)
    then show ?thesis using False short chunk flags loop by (auto simp: fifo_read_def r1_def)
  qed
qed

lemma write_loop_fifo:
  assumes ok: "stream_ok s" and ret: "wr_ret w = 0"
  shows "\<exists>e s' w'. stream_write_loop nd (Some s) w = Some (e, Some s', w')
    \<and> (e, contents s', wr_data w', wr_ret w', wr_err w')
        = fifo_write nd (stream_flag s UNF_NO_READER) (contents s) (wr_err w) (wr_data w)
    \<and> stream_ok s' \<and> s_flags s' = s_flags s"
proof (cases "wr_data w = [] \<or> stream_flag s UNF_NO_READER \<or> room s = 0")
  case True
  then consider "wr_data w = []" | "wr_data w \<noteq> []" "stream_flag s UNF_NO_READER"
    | "wr_data w \<noteq> []" "\<not> stream_flag s UNF_NO_READER" "room s = 0" by metis
  then show ?thesis
    using ok ret can_write_room [OF ok] by cases
      (auto intro!: write_loop_stop exI simp: write_iter_def fifo_write_def room_def Let_def)
next
  case False
  define s1 where "s1 = snd (write_chunk s (wr_data w))"
  define w1 where "w1 = w\<lparr>wr_data := drop (room s) (wr_data w),
      wr_ret := int (min (length (wr_data w)) (room s)), wr_events := wr_events w @ stream_notify s\<rparr>"
  note chunk = write_chunk_contents [OF ok, of "wr_data w", folded s1_def]
  have drop: "drop (min (length (wr_data w)) (room s)) (wr_data w) = drop (room s) (wr_data w)"
    by (simp add: min_def)
  have "write_iter nd (Some s) w = (None, Some s1, w1)"
    using False can_write_room [OF ok] chunk(1) ret drop by (simp add: write_iter_def w1_def s1_def)
  then have loop: "stream_write_loop nd (Some s) w = stream_write_loop nd (Some s1) w1"
    by (rule write_loop_again)
  have flags: "s_flags s1 = s_flags s" by (simp add: s1_def chunk_flags)
  show ?thesis
  proof (cases "length (wr_data w) \<le> room s")
    case True
    then have "stream_write_loop nd (Some s1) w1 = Some (Finished, Some s1, w1)"
      by (intro write_loop_stop) (simp add: write_iter_def w1_def)
    then show ?thesis using False True chunk flags loop by (auto simp: fifo_write_def w1_def room_def Let_def)
  next
    case part: False
    have full: "\<not> can_write s1"
      using can_write_room [OF chunk(3)] chunk(2) part by (simp add: room_def)
    have "stream_flag s1 UNF_NO_READER = stream_flag s UNF_NO_READER"
      using flags by (simp add: stream_flag_def)
    then have "stream_write_loop nd (Some s1) w1 = Some (if nd then Finished else Sleeping, Some s1, w1)"
      using False part full by (intro write_loop_stop) (simp add: write_iter_def w1_def)
    then show ?thesis using False part chunk flags loop by (auto simp: fifo_write_def w1_def room_def Let_def)
  qed
qed

lemma and_or_flag: "(f OR a) AND m = 0 \<longleftrightarrow> f AND m = 0 \<and> a AND m = (0 :: u16)"
  by (auto simp: bit_eq_iff bit_simps)

lemma stream_flag_or:
  "stream_flag (ss\<lparr>s_flags := s_flags ss OR a\<rparr>) m \<longleftrightarrow> stream_flag ss m \<or> a AND m \<noteq> 0"
  by (auto simp: stream_flag_def and_or_flag)

lemma closed_flags:
  assumes "stream_is_closed (Some ss)"
  shows "stream_flag ss UNF_NO_READER" and "stream_flag ss UNF_NO_WRITER"
proof -
  have eq: "s_flags ss AND 3 = 3" using assms by (simp add: stream_is_closed_def)
  have "s_flags ss AND 1 = (s_flags ss AND 3) AND 1" "s_flags ss AND 2 = (s_flags ss AND 3) AND 2"
    by (simp_all add: and.assoc)
  then show "stream_flag ss UNF_NO_READER" "stream_flag ss UNF_NO_WRITER"
    unfolding eq stream_flag_def by simp_all
qed

lemma release_stream_keeps:
  "contents (snd (release_stream s)) = contents s" "stream_ok (snd (release_stream s)) = stream_ok s"
  "\<not> stream_flag (snd (release_stream s)) UNF_LOCKED"
  by (simp_all add: release_stream_def contents_def stream_ok_def stream_flag_def and.assoc)

section \<open>Whole calls\<close>

lemma stream_read_spec:
  assumes "stream_ok s"
  shows "\<exists>e s' r. stream_read nd (Some s) err len = Some (e, Some s', r)
    \<and> (e, contents s', rd_data r, rd_ret r, rd_err r)
        = fifo_read nd (stream_flag s UNF_NO_WRITER) (contents s) err len
    \<and> stream_ok s' \<and> s_flags s' = s_flags s AND NOT (UNF_WANT_LOCK OR UNF_LOCKED)"
proof -
  define r0 where "r0 = \<lparr>rd_len = len, rd_data = [], rd_ret = 0, rd_err = err, rd_events = []\<rparr>"
  obtain e s' r' where loop: "stream_read_loop nd (Some s) r0 = Some (e, Some s', r')"
    and res: "(e, contents s', rd_data r', rd_ret r', rd_err r')
        = (case fifo_read nd (stream_flag s UNF_NO_WRITER) (contents s) (rd_err r0) (rd_len r0) of
             (e, q, d, n, err) \<Rightarrow> (e, q, rd_data r0 @ d, n, err))"
    and ok: "stream_ok s'" "s_flags s' = s_flags s"
    using read_loop_fifo [OF assms, of r0 nd] by (auto simp: r0_def)
  have "stream_read nd (Some s) err len = Some (e, Some (snd (release_stream s')),
      r'\<lparr>rd_events := rd_events r' @ fst (release_stream s')\<rparr>)"
    using loop by (simp add: stream_read_def r0_def)
  then show ?thesis using res ok
    by (auto simp: release_stream_keeps r0_def split: prod.splits) (simp add: release_stream_def)
qed

lemma stream_write_spec:
  assumes "stream_ok s"
  shows "\<exists>e s' w. stream_write nd (Some s) err data = Some (e, Some s', w)
    \<and> (e, contents s', wr_data w, wr_ret w, wr_err w)
        = fifo_write nd (stream_flag s UNF_NO_READER) (contents s) err data
    \<and> stream_ok s' \<and> s_flags s' = s_flags s AND NOT (UNF_WANT_LOCK OR UNF_LOCKED)"
proof -
  define w0 where "w0 = \<lparr>wr_data = data, wr_ret = 0, wr_err = err, wr_events = []\<rparr>"
  obtain e s' w' where loop: "stream_write_loop nd (Some s) w0 = Some (e, Some s', w')"
    and res: "(e, contents s', wr_data w', wr_ret w', wr_err w')
        = fifo_write nd (stream_flag s UNF_NO_READER) (contents s) (wr_err w0) (wr_data w0)"
    and ok: "stream_ok s'" "s_flags s' = s_flags s"
    using write_loop_fifo [OF assms, of w0 nd] by (auto simp: w0_def)
  have "stream_write nd (Some s) err data = Some (e, Some (snd (release_stream s')),
      w'\<lparr>wr_events := wr_events w' @ fst (release_stream s')\<rparr>)"
    using loop by (simp add: stream_write_def w0_def)
  then show ?thesis using res ok
    by (auto simp: release_stream_keeps w0_def split: prod.splits) (simp add: release_stream_def)
qed

lemma unlocked: "s_flags s' = f AND NOT (UNF_WANT_LOCK OR UNF_LOCKED) \<Longrightarrow> \<not> stream_flag s' UNF_LOCKED"
  by (simp add: stream_flag_def and.assoc)

section \<open>Properties\<close>

text \<open>C15. A read on a stream always returns or goes to sleep, and in both cases does what the bounded
  FIFO promises: it delivers the oldest bytes in order, at most as many as asked for, leaves the
  rest queued, reports end of file once the writer has gone and \<open>EAGAIN\<close> on a non-blocking
  empty stream, sleeps only on an empty stream whose writer is still there, and always gives the
  lock back.\<close>

theorem stream_read_fifo:
  assumes "stream_ok s"
  shows "\<exists>e s' r. stream_read nd (Some s) err len = Some (e, Some s', r)
    \<and> (e, contents s', rd_data r, rd_ret r, rd_err r)
        = fifo_read nd (stream_flag s UNF_NO_WRITER) (contents s) err len
    \<and> stream_ok s' \<and> \<not> stream_flag s' UNF_LOCKED"
  using stream_read_spec [OF assms, of nd err len] unlocked by blast

definition sample_stream :: "u8 list \<Rightarrow> sock_stream" where
  "sample_stream d = \<lparr>s_buffer = d @ replicate (UNIX_SOCKET_SIZE - length d) 0, s_reader = 0,
     s_writer = length d, s_flags = UNF_LOCKED, s_task = None\<rparr>"

lemma sample_stream_ok:
  "length d < UNIX_SOCKET_SIZE \<Longrightarrow> stream_ok (sample_stream d) \<and> contents (sample_stream d) = d"
  by (simp add: sample_stream_def stream_ok_def contents_def)

theorem stream_read_fifo_witness:
  "stream_ok (sample_stream [104, 105, 33])
   \<and> (\<exists>e s' r. stream_read True (Some (sample_stream [104, 105, 33])) 0 2 = Some (e, Some s', r)
        \<and> contents s' = [33] \<and> rd_data r = [104, 105] \<and> rd_ret r = 2)"
proof -
  have ok: "stream_ok (sample_stream [104, 105, 33])" "contents (sample_stream [104, 105, 33]) = [104, 105, 33]"
    using sample_stream_ok [of "[104, 105, 33]"] by (simp_all add: UNIX_SOCKET_SIZE_def)
  show ?thesis using stream_read_fifo [OF ok(1), of True 0 2] ok by (auto simp: fifo_read_def)
qed

text \<open>C14. A write on a stream always returns or goes to sleep, and in both cases does what the
  bounded FIFO promises: it appends the bytes that fit in order behind those already queued,
  never more than the buffer takes, reports \<open>EPIPE\<close> when the reader has gone and
  \<open>EAGAIN\<close> on a full non-blocking stream, and sleeps with exactly the bytes left that did
  not fit; the lock is given back.\<close>

theorem stream_write_fifo:
  assumes "stream_ok s"
  shows "\<exists>e s' w. stream_write nd (Some s) err data = Some (e, Some s', w)
    \<and> (e, contents s', wr_data w, wr_ret w, wr_err w)
        = fifo_write nd (stream_flag s UNF_NO_READER) (contents s) err data
    \<and> stream_ok s' \<and> \<not> stream_flag s' UNF_LOCKED"
  using stream_write_spec [OF assms, of nd err data] unlocked by blast

theorem stream_write_fifo_witness:
  "stream_ok (sample_stream [104])
   \<and> (\<exists>e s' w. stream_write True (Some (sample_stream [104])) 0 [105, 33] = Some (e, Some s', w)
        \<and> contents s' = [104, 105, 33] \<and> wr_ret w = 2)"
proof -
  have ok: "stream_ok (sample_stream [104])" "contents (sample_stream [104]) = [104]"
    using sample_stream_ok [of "[104]"] by (simp_all add: UNIX_SOCKET_SIZE_def)
  have "\<not> stream_flag (sample_stream [104]) UNF_NO_READER"
    by (simp add: sample_stream_def stream_flag_def)
  then show ?thesis using stream_write_fifo [OF ok(1), of True 0 "[105, 33]"] ok
    by (auto simp: fifo_write_def UNIX_SOCKET_SIZE_def)
qed

text \<open>\<open>FIONREAD\<close> reports exactly the number of bytes in transit.\<close>

theorem fionread_exact:
  assumes "stream_ok s"
  shows "fionread (Some s) = length (contents s)"
  using assms by (auto simp: fionread_def length_contents) (auto simp: stream_ok_def)

theorem fionread_exact_witness:
  "stream_ok (sample_stream [1, 2, 3]) \<and> fionread (Some (sample_stream [1, 2, 3])) = 3"
proof -
  have ok: "stream_ok (sample_stream [1, 2, 3])" "contents (sample_stream [1, 2, 3]) = [1, 2, 3]"
    using sample_stream_ok [of "[1, 2, 3]"] by (simp_all add: UNIX_SOCKET_SIZE_def)
  show ?thesis using fionread_exact [OF ok(1)] ok by simp
qed

end
