(* ===== verification/Ix_Pipe.thy ===== *)
theory Ix_Pipe
  imports Ix_Stream
begin

text \<open>
  Many processes on one stream: the reads and writes of \<open>library/unp.c\<close> and the close of
  \<open>library/pipe.c\<close> as a step relation.  A step is one test of the stream lock, one pass of a
  read or write loop under the lock, going to sleep, being woken, or the close of an end.  Every
  access to the ring buffer happens under the stream lock, and \<open>Forbid\<close> makes the lock test and
  "release, then sleep" indivisible; the decision to sleep and the sleep itself are two steps,
  because the code disables task switching only after it has looked at the stream.
\<close>

section \<open>States and steps\<close>

datatype call = Rd bool rd_state | Wr bool wr_state

datatype pc = Idle | LockWant call | LockSleep call | Holding call | Decided call | StreamSleep call

record pipe_sys =
  p_ss :: sock_stream
  p_pc :: "nat \<Rightarrow> pc"
  p_sent :: "u8 list"
  p_rcvd :: "u8 list"

text \<open>\<open>ix_wakeup\<close> makes every process that sleeps on the address runnable.\<close>

definition wake_stream :: "(nat \<Rightarrow> pc) \<Rightarrow> nat \<Rightarrow> pc" where
  "wake_stream f i = (case f i of StreamSleep c \<Rightarrow> LockWant c | p \<Rightarrow> p)"

definition wake_lock :: "(nat \<Rightarrow> pc) \<Rightarrow> nat \<Rightarrow> pc" where
  "wake_lock f i = (case f i of LockSleep c \<Rightarrow> LockWant c | p \<Rightarrow> p)"

definition release_procs :: "sock_stream \<Rightarrow> (nat \<Rightarrow> pc) \<Rightarrow> nat \<Rightarrow> pc" where
  "release_procs ss f = (if WakeupLock \<in> set (fst (release_stream ss)) then wake_lock f else f)"

definition end_flag :: "bool \<Rightarrow> u16" where
  "end_flag is_reader = (if is_reader then UNF_NO_READER else UNF_NO_WRITER)"

fun uses_end :: "bool \<Rightarrow> pc \<Rightarrow> bool" where
  "uses_end _ Idle = False"
| "uses_end rd (LockWant c) = (rd = (case c of Rd _ _ \<Rightarrow> True | Wr _ _ \<Rightarrow> False))"
| "uses_end rd (LockSleep c) = (rd = (case c of Rd _ _ \<Rightarrow> True | Wr _ _ \<Rightarrow> False))"
| "uses_end rd (Holding c) = (rd = (case c of Rd _ _ \<Rightarrow> True | Wr _ _ \<Rightarrow> False))"
| "uses_end rd (Decided c) = (rd = (case c of Rd _ _ \<Rightarrow> True | Wr _ _ \<Rightarrow> False))"
| "uses_end rd (StreamSleep c) = (rd = (case c of Rd _ _ \<Rightarrow> True | Wr _ _ \<Rightarrow> False))"

text \<open>A call needs an open descriptor for its end, and the last close of an end finds no call
  on it.\<close>

inductive pipe_step :: "pipe_sys \<Rightarrow> pipe_sys \<Rightarrow> bool" where
  begin_read: "p_pc s i = Idle \<Longrightarrow> \<not> stream_flag (p_ss s) (end_flag True) \<Longrightarrow>
    pipe_step s (s\<lparr>p_pc := (p_pc s)(i := LockWant (Rd nd
      \<lparr>rd_len = len, rd_data = [], rd_ret = 0, rd_err = err, rd_events = []\<rparr>))\<rparr>)"
| begin_write: "p_pc s i = Idle \<Longrightarrow> \<not> stream_flag (p_ss s) (end_flag False) \<Longrightarrow>
    pipe_step s (s\<lparr>p_pc := (p_pc s)(i := LockWant (Wr nd
      \<lparr>wr_data = data, wr_ret = 0, wr_err = err, wr_events = []\<rparr>))\<rparr>)"
| lock_ok: "p_pc s i = LockWant c \<Longrightarrow> get_stream_try (p_ss s) = (True, ss') \<Longrightarrow>
    pipe_step s (s\<lparr>p_ss := ss', p_pc := (p_pc s)(i := Holding c)\<rparr>)"
| lock_wait: "p_pc s i = LockWant c \<Longrightarrow> get_stream_try (p_ss s) = (False, ss') \<Longrightarrow>
    pipe_step s (s\<lparr>p_ss := ss', p_pc := (p_pc s)(i := LockSleep c)\<rparr>)"
| read_some: "p_pc s i = Holding (Rd nd r) \<Longrightarrow> read_iter nd (Some (p_ss s)) r = (None, Some ss', r') \<Longrightarrow>
    pipe_step s (s\<lparr>p_ss := ss', p_pc := (wake_stream (p_pc s))(i := Holding (Rd nd r')),
      p_rcvd := p_rcvd s @ drop (length (rd_data r)) (rd_data r')\<rparr>)"
| read_done: "p_pc s i = Holding (Rd nd r) \<Longrightarrow> read_iter nd (Some (p_ss s)) r = (Some Finished, ss', r') \<Longrightarrow>
    pipe_step s (s\<lparr>p_ss := snd (release_stream (p_ss s)),
      p_pc := (release_procs (p_ss s) (p_pc s))(i := Idle)\<rparr>)"
| read_decide: "p_pc s i = Holding (Rd nd r) \<Longrightarrow> read_iter nd (Some (p_ss s)) r = (Some Sleeping, ss', r') \<Longrightarrow>
    pipe_step s (s\<lparr>p_pc := (p_pc s)(i := Decided (Rd nd r))\<rparr>)"
| write_some: "p_pc s i = Holding (Wr nd w) \<Longrightarrow> write_iter nd (Some (p_ss s)) w = (None, Some ss', w') \<Longrightarrow>
    pipe_step s (s\<lparr>p_ss := ss', p_pc := (wake_stream (p_pc s))(i := Holding (Wr nd w')),
      p_sent := p_sent s @ take (length (wr_data w) - length (wr_data w')) (wr_data w)\<rparr>)"
| write_done: "p_pc s i = Holding (Wr nd w) \<Longrightarrow> write_iter nd (Some (p_ss s)) w = (Some Finished, ss', w') \<Longrightarrow>
    pipe_step s (s\<lparr>p_ss := snd (release_stream (p_ss s)),
      p_pc := (release_procs (p_ss s) (p_pc s))(i := Idle)\<rparr>)"
| write_decide: "p_pc s i = Holding (Wr nd w) \<Longrightarrow> write_iter nd (Some (p_ss s)) w = (Some Sleeping, ss', w') \<Longrightarrow>
    pipe_step s (s\<lparr>p_pc := (p_pc s)(i := Decided (Wr nd w))\<rparr>)"
| sleep: "p_pc s i = Decided c \<Longrightarrow>
    pipe_step s (s\<lparr>p_ss := snd (release_stream (p_ss s)),
      p_pc := (release_procs (p_ss s) (p_pc s))(i := StreamSleep c)\<rparr>)"
| interrupted: "p_pc s i = StreamSleep c \<or> p_pc s i = LockSleep c \<Longrightarrow>
    pipe_step s (s\<lparr>p_pc := (p_pc s)(i := LockWant c)\<rparr>)"
| close_end: "(\<forall>i. \<not> uses_end rd (p_pc s i)) \<Longrightarrow> \<not> stream_flag (p_ss s) (end_flag rd) \<Longrightarrow>
    pclose_stream rd (p_ss s) = (ev, Some ss') \<Longrightarrow>
    pipe_step s (s\<lparr>p_ss := ss', p_pc := wake_stream (p_pc s)\<rparr>)"

definition pipe_init :: "u8 list \<Rightarrow> pipe_sys" where
  "pipe_init mem = \<lparr>p_ss = init_stream mem, p_pc = (\<lambda>_. Idle), p_sent = [], p_rcvd = []\<rparr>"

inductive pipe_reach :: "u8 list \<Rightarrow> pipe_sys \<Rightarrow> bool" for mem where
  pipe_start: "pipe_reach mem (pipe_init mem)"
| pipe_more: "pipe_reach mem s \<Longrightarrow> pipe_step s s' \<Longrightarrow> pipe_reach mem s'"

section \<open>Invariant\<close>

fun holds :: "pc \<Rightarrow> bool" where
  "holds (Holding _) = True" | "holds (Decided _) = True" | "holds _ = False"

text \<open>What a process's position says about the stream: one that sleeps for the lock sees it
  taken and asked for, one that has decided to sleep, or sleeps, sees an empty stream (a
  reader) or a full one (a writer).\<close>

fun pc_ok :: "sock_stream \<Rightarrow> pc \<Rightarrow> bool" where
  "pc_ok ss (LockSleep _) = (stream_flag ss UNF_LOCKED \<and> stream_flag ss UNF_WANT_LOCK)"
| "pc_ok ss (Decided (Rd _ _)) = (contents ss = [])"
| "pc_ok ss (Decided (Wr _ _)) = (room ss = 0)"
| "pc_ok ss (StreamSleep (Rd _ _)) = (contents ss = [])"
| "pc_ok ss (StreamSleep (Wr _ _)) = (room ss = 0)"
| "pc_ok ss _ = True"

definition pipe_inv :: "pipe_sys \<Rightarrow> bool" where
  "pipe_inv s \<longleftrightarrow> stream_ok (p_ss s) \<and> p_sent s = p_rcvd s @ contents (p_ss s)
     \<and> (\<forall>i j. holds (p_pc s i) \<longrightarrow> holds (p_pc s j) \<longrightarrow> i = j)
     \<and> (stream_flag (p_ss s) UNF_LOCKED \<longleftrightarrow> (\<exists>i. holds (p_pc s i)))
     \<and> (\<forall>i. pc_ok (p_ss s) (p_pc s i))"

lemma pipe_inv_init: "length mem = UNIX_SOCKET_SIZE \<Longrightarrow> pipe_inv (pipe_init mem)"
  using init_stream_ok [of mem]
  by (simp add: pipe_inv_def pipe_init_def) (simp add: init_stream_def stream_flag_def)

lemma same_buffer:
  "contents (ss\<lparr>s_flags := f\<rparr>) = contents ss" "room (ss\<lparr>s_flags := f\<rparr>) = room ss"
  "stream_ok (ss\<lparr>s_flags := f\<rparr>) = stream_ok ss"
  by (simp_all add: contents_def room_def stream_ok_def)

lemma get_stream_try_True:
  assumes "get_stream_try ss = (True, ss')"
  shows "\<not> stream_flag ss UNF_LOCKED" and "stream_flag ss' UNF_LOCKED" and "contents ss' = contents ss"
    and "room ss' = room ss" and "stream_ok ss' = stream_ok ss"
  using assms by (auto simp: get_stream_try_def same_buffer stream_flag_def and_or_flag split: if_splits)

lemma get_stream_try_False:
  assumes "get_stream_try ss = (False, ss')"
  shows "stream_flag ss UNF_LOCKED" and "stream_flag ss' UNF_LOCKED" and "stream_flag ss' UNF_WANT_LOCK"
    and "contents ss' = contents ss" and "room ss' = room ss" and "stream_ok ss' = stream_ok ss"
  using assms by (auto simp: get_stream_try_def same_buffer stream_flag_def and_or_flag split: if_splits)

lemma holds_wake [simp]:
  "holds (wake_stream f i) = holds (f i)" "holds (wake_lock f i) = holds (f i)"
  "holds (release_procs ss f i) = holds (f i)"
  by (auto simp: wake_stream_def wake_lock_def release_procs_def split: pc.splits)

text \<open>A process that only moves, without touching the stream.\<close>

lemma pipe_inv_move:
  assumes "pipe_inv s" and "holds q = holds (p_pc s i)" and "pc_ok (p_ss s) q"
  shows "pipe_inv (s\<lparr>p_pc := (p_pc s)(i := q)\<rparr>)"
  using assms unfolding pipe_inv_def by auto

text \<open>Taking the lock, and finding it taken.\<close>

lemma pc_ok_flags:
  assumes "contents ss' = contents ss" and "room ss' = room ss"
    and "stream_flag ss UNF_LOCKED \<Longrightarrow> stream_flag ss UNF_WANT_LOCK \<Longrightarrow>
      stream_flag ss' UNF_LOCKED \<and> stream_flag ss' UNF_WANT_LOCK"
    and "pc_ok ss q"
  shows "pc_ok ss' q"
  using assms by (cases "(ss, q)" rule: pc_ok.cases) auto

lemma pipe_inv_lock_ok:
  assumes inv: "pipe_inv s" and pc: "p_pc s i = LockWant c" and t: "get_stream_try (p_ss s) = (True, ss')"
  shows "pipe_inv (s\<lparr>p_ss := ss', p_pc := (p_pc s)(i := Holding c)\<rparr>)"
proof -
  note g = get_stream_try_True [OF t]
  have none: "\<not> holds (p_pc s j)" for j using inv g(1) by (auto simp: pipe_inv_def)
  have "pc_ok ss' (p_pc s j)" for j
    using inv g by (intro pc_ok_flags [of ss' "p_ss s"]) (auto simp: pipe_inv_def)
  then show ?thesis using inv g none by (auto simp: pipe_inv_def)
qed

lemma pipe_inv_lock_wait:
  assumes inv: "pipe_inv s" and pc: "p_pc s i = LockWant c" and t: "get_stream_try (p_ss s) = (False, ss')"
  shows "pipe_inv (s\<lparr>p_ss := ss', p_pc := (p_pc s)(i := LockSleep c)\<rparr>)"
proof -
  note g = get_stream_try_False [OF t]
  have "pc_ok ss' (p_pc s j)" for j
    using inv g by (intro pc_ok_flags [of ss' "p_ss s"]) (auto simp: pipe_inv_def)
  then have "pc_ok ss' (((p_pc s)(i := LockSleep c)) j)" for j using g by simp
  moreover have "holds (((p_pc s)(i := LockSleep c)) j) = holds (p_pc s j)" for j using pc by simp
  ultimately show ?thesis using inv g by (simp add: pipe_inv_def del: fun_upd_apply)
qed

text \<open>Giving the lock back, at the end of a call or to sleep.\<close>

lemma release_procs_ok:
  assumes "pc_ok ss (p j)"
  shows "pc_ok (snd (release_stream ss)) (release_procs ss p j)"
proof -
  have keep: "contents (snd (release_stream ss)) = contents ss" "room (snd (release_stream ss)) = room ss"
    by (simp_all add: release_stream_def same_buffer)
  have wake: "release_procs ss p j = (if stream_flag ss UNF_WANT_LOCK then wake_lock p j else p j)"
    by (simp add: release_procs_def release_stream_def)
  show ?thesis
  proof (cases "p j")
    case (Decided c)
    then show ?thesis using assms keep wake by (cases c) (auto simp: wake_lock_def)
  next
    case (StreamSleep c)
    then show ?thesis using assms keep wake by (cases c) (auto simp: wake_lock_def)
  qed (use assms wake in \<open>auto simp: wake_lock_def\<close>)
qed

lemma pipe_inv_release:
  assumes inv: "pipe_inv s" and h: "holds (p_pc s i)" and q: "\<not> holds q" "pc_ok (snd (release_stream (p_ss s))) q"
  shows "pipe_inv (s\<lparr>p_ss := snd (release_stream (p_ss s)), p_pc := (release_procs (p_ss s) (p_pc s))(i := q)\<rparr>)"
proof -
  have "\<not> holds (p_pc s j)" if "j \<noteq> i" for j using inv h that by (auto simp: pipe_inv_def)
  moreover have "pc_ok (snd (release_stream (p_ss s))) (release_procs (p_ss s) (p_pc s) j)" for j
    using inv by (intro release_procs_ok) (simp add: pipe_inv_def)
  ultimately show ?thesis using inv q by (auto simp: pipe_inv_def release_stream_keeps)
qed

text \<open>A pass of a loop that moves bytes: it changes the buffer under the lock and wakes all sleepers.\<close>

lemma pipe_inv_iterate:
  assumes inv: "pipe_inv s" and h: "p_pc s i = Holding c"
    and ok: "stream_ok ss'" "s_flags ss' = s_flags (p_ss s)"
    and s': "p_ss s' = ss'" "p_pc s' = (wake_stream (p_pc s))(i := Holding c')"
      "p_sent s' = p_rcvd s' @ contents ss'"
  shows "pipe_inv s'"
proof -
  have flags: "stream_flag ss' m = stream_flag (p_ss s) m" for m using ok by (simp add: stream_flag_def)
  have hi: "holds (p_pc s i)" using h by simp
  have "pc_ok ss' (wake_stream (p_pc s) j)" if "j \<noteq> i" for j
  proof -
    have "pc_ok (p_ss s) (p_pc s j)" "\<not> holds (p_pc s j)" using inv hi that by (auto simp: pipe_inv_def)
    then show ?thesis using flags by (cases "p_pc s j") (auto simp: wake_stream_def)
  qed
  then show ?thesis using inv ok s' hi flags by (auto simp: pipe_inv_def)
qed

lemma read_iter_some:
  assumes "read_iter nd (Some s) r = (None, Some s', r')" and ok: "stream_ok s"
  shows "contents s = drop (length (rd_data r)) (rd_data r') @ contents s'"
    and "stream_ok s'" and "s_flags s' = s_flags s"
  using assms read_chunk_contents [OF ok, of "rd_len r"]
  by (auto simp: read_iter_def chunk_flags split: if_splits)

lemma write_iter_some:
  assumes "write_iter nd (Some s) w = (None, Some s', w')" and ok: "stream_ok s"
  shows "contents s' = contents s @ take (length (wr_data w) - length (wr_data w')) (wr_data w)"
    and "stream_ok s'" and "s_flags s' = s_flags s"
  using assms write_chunk_contents [OF ok, of "wr_data w"]
  by (auto simp: write_iter_def chunk_flags min_def split: if_splits)

lemma read_iter_sleep:
  "read_iter nd (Some s) r = (Some Sleeping, s', r') \<Longrightarrow> stream_ok s \<Longrightarrow> contents s = []"
  by (auto simp: read_iter_def can_read_contents split: if_splits)

lemma write_iter_sleep:
  "write_iter nd (Some s) w = (Some Sleeping, s', w') \<Longrightarrow> stream_ok s \<Longrightarrow> room s = 0"
  by (auto simp: write_iter_def can_write_room split: if_splits)

lemma pclose_some:
  assumes "pclose_stream rd ss = (ev, Some ss')"
  shows "contents ss' = contents ss" "room ss' = room ss" "stream_ok ss' = stream_ok ss"
    and "stream_flag ss' UNF_LOCKED = stream_flag ss UNF_LOCKED"
    and "stream_flag ss' UNF_WANT_LOCK = stream_flag ss UNF_WANT_LOCK"
  using assms by (auto simp: pclose_stream_def Let_def same_buffer stream_flag_def and_or_flag split: if_splits)

lemma wake_stream_ok: "pc_ok ss (p j) \<Longrightarrow> pc_ok ss (wake_stream p j)"
  by (cases "p j") (auto simp: wake_stream_def)

lemma pipe_inv_close:
  assumes inv: "pipe_inv s" and c: "pclose_stream rd (p_ss s) = (ev, Some ss')"
  shows "pipe_inv (s\<lparr>p_ss := ss', p_pc := wake_stream (p_pc s)\<rparr>)"
proof -
  note k = pclose_some [OF c]
  have "pc_ok ss' (wake_stream (p_pc s) j)" for j
    using inv k by (intro wake_stream_ok pc_ok_flags [of ss' "p_ss s"]) (auto simp: pipe_inv_def)
  then show ?thesis using inv k by (simp add: pipe_inv_def)
qed

lemma pipe_inv_step: "pipe_step s s' \<Longrightarrow> pipe_inv s \<Longrightarrow> pipe_inv s'"
proof (induction rule: pipe_step.induct)
  case (read_some s i nd r ss' r')
  have ok: "stream_ok (p_ss s)" and bytes: "p_sent s = p_rcvd s @ contents (p_ss s)"
    using read_some by (simp_all add: pipe_inv_def)
  note it = read_iter_some [OF read_some.hyps(2) ok]
  show ?case
    by (rule pipe_inv_iterate [OF read_some.prems read_some.hyps(1) it(2,3)]) (use it(1) bytes in simp_all)
next
  case (write_some s i nd w ss' w')
  have ok: "stream_ok (p_ss s)" and bytes: "p_sent s = p_rcvd s @ contents (p_ss s)"
    using write_some by (simp_all add: pipe_inv_def)
  note it = write_iter_some [OF write_some.hyps(2) ok]
  show ?case
    by (rule pipe_inv_iterate [OF write_some.prems write_some.hyps(1) it(2,3)]) (use it(1) bytes in simp_all)
next
  case (read_decide s i nd r ss' r')
  then have "contents (p_ss s) = []" by (auto simp: pipe_inv_def intro: read_iter_sleep)
  then show ?case using read_decide by (intro pipe_inv_move) auto
next
  case (write_decide s i nd w ss' w')
  then have "room (p_ss s) = 0" by (auto simp: pipe_inv_def intro: write_iter_sleep)
  then show ?case using write_decide by (intro pipe_inv_move) auto
next
  case (sleep s i c)
  then have "pc_ok (p_ss s) (Decided c)" by (metis pipe_inv_def)
  then have "pc_ok (snd (release_stream (p_ss s))) (StreamSleep c)"
    by (cases c) (simp_all add: release_stream_def same_buffer)
  then show ?case using sleep by (intro pipe_inv_release) auto
qed (auto intro!: pipe_inv_move pipe_inv_lock_ok pipe_inv_lock_wait pipe_inv_release pipe_inv_close)

lemma pipe_reach_inv: "pipe_reach mem s \<Longrightarrow> length mem = UNIX_SOCKET_SIZE \<Longrightarrow> pipe_inv s"
  by (induction rule: pipe_reach.induct) (auto intro: pipe_inv_init pipe_inv_step)

fun runnable :: "pc \<Rightarrow> bool" where
  "runnable (LockWant _) = True" | "runnable (Holding _) = True" | "runnable (Decided _) = True"
| "runnable _ = False"

lemma sleepers:
  assumes "pipe_inv s" and "\<forall>i. \<not> runnable (p_pc s i)"
  shows "p_pc s i = Idle \<or> (\<exists>nd r. p_pc s i = StreamSleep (Rd nd r)) \<and> contents (p_ss s) = []
    \<or> (\<exists>nd w. p_pc s i = StreamSleep (Wr nd w)) \<and> room (p_ss s) = 0"
proof -
  have pc: "pc_ok (p_ss s) (p_pc s i)" and nr: "\<not> runnable (p_pc s i)"
    using assms by (simp_all add: pipe_inv_def)
  have "\<not> holds (p_pc s j)" for j using assms(2) by (metis holds.elims(2) runnable.simps(2,3))
  then have "\<not> stream_flag (p_ss s) UNF_LOCKED" using assms(1) by (simp add: pipe_inv_def)
  then show ?thesis
    using pc nr by (cases "(p_ss s, p_pc s i)" rule: pc_ok.cases) (auto elim: runnable.elims)
qed

lemma not_empty_and_full: "stream_ok ss \<Longrightarrow> contents ss = [] \<Longrightarrow> room ss \<noteq> 0"
  by (simp add: room_def UNIX_SOCKET_SIZE_def)

section \<open>Properties\<close>

text \<open>C1. However the reads, writes, waits and closes of any number of processes on one pipe are
  interleaved: the bytes delivered so far followed by the bytes in transit are exactly the bytes
  accepted so far, in order; at most one process works on the buffer at a time; and the buffer
  never holds more than it can.\<close>

theorem pipe_fifo:
  assumes "pipe_reach mem s" and "length mem = UNIX_SOCKET_SIZE"
  shows "p_sent s = p_rcvd s @ contents (p_ss s)
    \<and> length (contents (p_ss s)) < UNIX_SOCKET_SIZE
    \<and> (\<forall>i j. holds (p_pc s i) \<and> holds (p_pc s j) \<longrightarrow> i = j)"
  using pipe_reach_inv [OF assms] by (auto simp: pipe_inv_def length_contents_less)

text \<open>C13. No wake-up of the data path is lost and the pipe does not deadlock: a process asleep in
  a read sees an empty pipe and one asleep in a write a full one, so a reader and a writer are
  never both asleep; a process asleep for the lock can rely on a holder that will wake it; and if
  no process can run, then all waiting processes read from an empty pipe, or all write to a full one.\<close>

theorem pipe_no_deadlock:
  assumes "pipe_reach mem s" and "length mem = UNIX_SOCKET_SIZE"
  shows "(p_pc s i = StreamSleep (Rd nd r) \<longrightarrow> contents (p_ss s) = [])
    \<and> (p_pc s i = StreamSleep (Wr nd' w) \<longrightarrow> room (p_ss s) = 0)
    \<and> (p_pc s i = LockSleep c \<longrightarrow> stream_flag (p_ss s) UNF_WANT_LOCK \<and> (\<exists>j. holds (p_pc s j)))
    \<and> ((\<forall>j. \<not> runnable (p_pc s j)) \<longrightarrow>
         (\<forall>j. p_pc s j = Idle \<or> (\<exists>nd r. p_pc s j = StreamSleep (Rd nd r)))
         \<or> (\<forall>j. p_pc s j = Idle \<or> (\<exists>nd w. p_pc s j = StreamSleep (Wr nd w))))"
proof -
  have inv: "pipe_inv s" by (rule pipe_reach_inv [OF assms])
  then have pc: "pc_ok (p_ss s) (p_pc s i)" and ok: "stream_ok (p_ss s)"
    and lock: "stream_flag (p_ss s) UNF_LOCKED \<longleftrightarrow> (\<exists>j. holds (p_pc s j))"
    by (simp_all add: pipe_inv_def)
  have "(\<forall>j. p_pc s j = Idle \<or> (\<exists>nd r. p_pc s j = StreamSleep (Rd nd r)))
         \<or> (\<forall>j. p_pc s j = Idle \<or> (\<exists>nd w. p_pc s j = StreamSleep (Wr nd w)))"
    if "\<forall>j. \<not> runnable (p_pc s j)"
    using sleepers [OF inv that] not_empty_and_full [OF ok] by metis
  then show ?thesis using pc lock by auto
qed

section \<open>Sample runs\<close>

definition zeros :: "u8 list" where
  "zeros = replicate UNIX_SOCKET_SIZE 0"

definition one_byte :: rd_state where
  "one_byte = \<lparr>rd_len = 1, rd_data = [], rd_ret = 0, rd_err = 0, rd_events = []\<rparr>"

text \<open>A reader takes the lock of an empty pipe and decides to sleep.\<close>

definition waiting_reader :: pipe_sys where
  "waiting_reader = \<lparr>p_ss = (init_stream zeros)\<lparr>s_flags := UNF_LOCKED\<rparr>,
     p_pc = (\<lambda>_. Idle)(0 := Decided (Rd False one_byte)), p_sent = [], p_rcvd = []\<rparr>"

lemma waiting_reader_reach: "pipe_reach zeros waiting_reader"
proof -
  define s1 where "s1 = (pipe_init zeros)\<lparr>p_pc := (p_pc (pipe_init zeros))(0 := LockWant (Rd False one_byte))\<rparr>"
  define s2 where "s2 = s1\<lparr>p_ss := (init_stream zeros)\<lparr>s_flags := UNF_LOCKED\<rparr>,
      p_pc := (p_pc s1)(0 := Holding (Rd False one_byte))\<rparr>"
  have "pipe_step (pipe_init zeros) s1"
    unfolding s1_def one_byte_def
    by (rule begin_read) (simp_all add: pipe_init_def init_stream_def stream_flag_def end_flag_def)
  moreover have "pipe_step s1 s2"
    unfolding s2_def
    by (rule lock_ok) (simp_all add: s1_def pipe_init_def init_stream_def get_stream_try_def stream_flag_def)
  moreover have "pipe_step s2 (s2\<lparr>p_pc := (p_pc s2)(0 := Decided (Rd False one_byte))\<rparr>)"
    by (rule read_decide [of _ _ _ _ "Some (p_ss s2)" one_byte])
      (simp_all add: s2_def read_iter_def one_byte_def can_read_def init_stream_def stream_flag_def)
  moreover have "s2\<lparr>p_pc := (p_pc s2)(0 := Decided (Rd False one_byte))\<rparr> = waiting_reader"
    by (simp add: s2_def s1_def waiting_reader_def pipe_init_def)
  ultimately show ?thesis by (metis pipe_start pipe_more)
qed

theorem pipe_fifo_witness:
  "pipe_reach zeros waiting_reader \<and> length zeros = UNIX_SOCKET_SIZE \<and> holds (p_pc waiting_reader 0)
   \<and> \<not> holds (p_pc waiting_reader 1) \<and> length (contents (p_ss waiting_reader)) < UNIX_SOCKET_SIZE"
proof -
  have len: "length zeros = UNIX_SOCKET_SIZE" by (simp add: zeros_def)
  have "holds (p_pc waiting_reader 0)" by (simp add: waiting_reader_def)
  then show ?thesis using pipe_fifo [OF waiting_reader_reach len] waiting_reader_reach len zero_neq_one by blast
qed

text \<open>The reader then sleeps.\<close>

lemma sleeping_reader_reach:
  "pipe_reach zeros (waiting_reader\<lparr>p_ss := snd (release_stream (p_ss waiting_reader)),
     p_pc := (release_procs (p_ss waiting_reader) (p_pc waiting_reader))(0 := StreamSleep (Rd False one_byte))\<rparr>)"
  by (rule pipe_more [OF waiting_reader_reach], rule sleep) (simp add: waiting_reader_def)

theorem pipe_no_deadlock_witness:
  "\<exists>s. pipe_reach zeros s \<and> length zeros = UNIX_SOCKET_SIZE
     \<and> p_pc s 0 = StreamSleep (Rd False one_byte) \<and> contents (p_ss s) = []"
proof -
  have len: "length zeros = UNIX_SOCKET_SIZE" by (simp add: zeros_def)
  show ?thesis
    using pipe_no_deadlock [OF sleeping_reader_reach len, of 0 False one_byte] sleeping_reader_reach len by auto
qed

text \<open>C37. The close of the last writer can slip between a reader's look at the pipe and its sleep:
  the close finds nobody to wake, and the reader then sleeps on an empty pipe whose writing end
  is closed and unused, where it should return end of file.  (\<open>stream_read\<close> tests
  \<open>UNF_NO_WRITER\<close> before its \<open>Forbid\<close>, and \<open>__pclose\<close> does not take the stream lock.)\<close>

theorem pipe_close_race:
  "\<exists>s r. pipe_reach zeros s \<and> p_pc s 0 = StreamSleep (Rd False r) \<and> rd_len r \<noteq> 0
     \<and> stream_flag (p_ss s) UNF_NO_WRITER \<and> (\<forall>i. \<not> uses_end False (p_pc s i))
     \<and> fst (read_iter False (Some (p_ss s)) r) = Some Finished"
proof -
  define ss where "ss = (init_stream zeros)\<lparr>s_flags := UNF_LOCKED OR UNF_NO_WRITER\<rparr>"
  define s1 where "s1 = waiting_reader\<lparr>p_ss := ss, p_pc := wake_stream (p_pc waiting_reader)\<rparr>"
  define s2 where "s2 = s1\<lparr>p_ss := snd (release_stream (p_ss s1)),
      p_pc := (release_procs (p_ss s1) (p_pc s1))(0 := StreamSleep (Rd False one_byte))\<rparr>"
  have "pipe_step waiting_reader s1"
    unfolding s1_def
    by (rule close_end [of False _ "stream_notify ss"])
      (simp_all add: waiting_reader_def init_stream_def stream_flag_def end_flag_def pclose_stream_def
        stream_is_closed_def ss_def Let_def)
  moreover have "pipe_step s1 s2"
    unfolding s2_def by (rule sleep) (simp add: s1_def waiting_reader_def wake_stream_def)
  ultimately have "pipe_reach zeros s2" using waiting_reader_reach by (metis pipe_more)
  moreover have "p_ss s2 = (init_stream zeros)\<lparr>s_flags := UNF_NO_WRITER\<rparr>"
    by (simp add: s2_def s1_def ss_def release_stream_def)
  moreover have "p_pc s2 i = (if i = 0 then StreamSleep (Rd False one_byte) else Idle)" for i
    by (simp add: s2_def s1_def waiting_reader_def wake_stream_def release_procs_def wake_lock_def)
  ultimately show ?thesis
    by (intro exI [of _ s2] exI [of _ one_byte])
      (simp add: one_byte_def stream_flag_def read_iter_def can_read_def init_stream_def)
qed

end
