(* ===== verification/Ix_File.thy ===== *)
theory Ix_File
  imports Ix_Stream
begin

text \<open>
  Open files and descriptor tables: the state shared by \<open>library/kern_descrip.c\<close>,
  \<open>library/close.c\<close>, \<open>library/pipe.c\<close> and \<open>library/unp.c\<close>, and the allocation of descriptors
  and file structures.  Structures live in stores indexed by their address; the lists
  \<open>ix_used_file_list\<close> and \<open>ix_free_file_list\<close> are lists of addresses.  The result of \<open>kmalloc\<close>
  (a fresh address, or none) is an argument.  \<open>u_target\<close> is the redirection to
  \<open>u_parent_userdata\<close> most of these functions start with.
\<close>

section \<open>State\<close>

type_synonym addr = nat
type_synonym pid = nat

definition NOFILE :: nat where
  "NOFILE = 512"

text \<open>The functions that \<open>f_close\<close> can point to, and the union \<open>f__fh\<close>.\<close>

datatype fclose = FC_close | FC_mclose | FC_pclose | FC_soo_close | FC_unp_close

datatype fobj = FH_none | FH_fh | FH_mf | FH_ss addr | FH_sock addr | FH_inet int

record filerec =
  f_name :: "string option"
  f_stb_dirty :: u32
  f_type :: int
  f_flags :: u32
  f_count :: int
  f_write :: bool
  f_read :: bool
  f_close :: "fclose option"
  f_fh :: fobj
  f_select_pkt :: bool

definition zero_file :: filerec where
  "zero_file = \<lparr>f_name = None, f_stb_dirty = 0, f_type = 0, f_flags = 0, f_count = 0, f_write = False,
     f_read = False, f_close = None, f_fh = FH_none, f_select_pkt = False\<rparr>"

abbreviation (input) DTYPE_FILE :: int where "DTYPE_FILE \<equiv> 1"
abbreviation (input) DTYPE_PIPE :: int where "DTYPE_PIPE \<equiv> 2"
abbreviation (input) DTYPE_SOCKET :: int where "DTYPE_SOCKET \<equiv> 5"
abbreviation (input) DTYPE_USOCKET :: int where "DTYPE_USOCKET \<equiv> 6"
abbreviation (input) FREAD :: u32 where "FREAD \<equiv> 1"
abbreviation (input) FWRITE :: u32 where "FWRITE \<equiv> 2"
abbreviation (input) FNDELAY :: u32 where "FNDELAY \<equiv> 4"
abbreviation (input) FEXTOPEN :: u32 where "FEXTOPEN \<equiv> 0x10"
abbreviation (input) FEXTNAME :: u32 where "FEXTNAME \<equiv> 0x20"
abbreviation (input) FASYNC :: u32 where "FASYNC \<equiv> 0x40"
abbreviation (input) FUNLINK :: u32 where "FUNLINK \<equiv> 0x80"
abbreviation (input) FAPPEND :: u32 where "FAPPEND \<equiv> 0x100"
abbreviation (input) FFSYNC :: u32 where "FFSYNC \<equiv> 0x2000"

record unix_socket =
  us_path :: string
  us_state :: int
  us_from_server :: "addr option"
  us_to_server :: "addr option"
  us_unix_name :: "addr option"
  us_server :: "addr option"

record ix_unix_name =
  un_path :: string
  un_queue_size :: int
  un_queue :: "addr list"
  un_task :: "nat option"

record user =
  u_ofile :: "addr option list"
  u_pofile :: "u8 list"
  u_lastfile :: int
  u_parent_userdata :: "pid option"
  u_execveclose :: bool
  u_errno :: int

text \<open>What the code asks of the rest of the system.\<close>

datatype fevent = EvFlushPty addr | EvWaitSelect addr | EvDosClose addr | EvUnlink string | EvChmod string
  | EvChown string | EvUtimes string | EvKfree | EvSignalTask nat | EvWakeup addr | EvTcpClose addr
  | EvWakeupLock addr | EvSigpipe | EvIoctlAsync bool | EvIoctlNbio bool | EvRefreshStat addr

record fsys =
  files :: "addr \<Rightarrow> filerec"
  ix_used_file_list :: "addr list"
  ix_free_file_list :: "addr list"
  streams :: "addr \<Rightarrow> sock_stream option"
  socks :: "addr \<Rightarrow> unix_socket option"
  ix_unix_names :: "(addr \<times> ix_unix_name) list"
  ix_ptys :: "u8 list"
  procs :: "user list"
  trace :: "fevent list"

definition u_target :: "fsys \<Rightarrow> pid \<Rightarrow> pid" where
  "u_target st p = (case u_parent_userdata (procs st ! p) of None \<Rightarrow> p | Some q \<Rightarrow> q)"

definition upd_proc :: "pid \<Rightarrow> (user \<Rightarrow> user) \<Rightarrow> fsys \<Rightarrow> fsys" where
  "upd_proc p g st = st\<lparr>procs := (procs st)[p := g (procs st ! p)]\<rparr>"

definition upd_file :: "addr \<Rightarrow> (filerec \<Rightarrow> filerec) \<Rightarrow> fsys \<Rightarrow> fsys" where
  "upd_file a g st = st\<lparr>files := (files st)(a := g (files st a))\<rparr>"

definition set_slot :: "pid \<Rightarrow> nat \<Rightarrow> addr option \<Rightarrow> fsys \<Rightarrow> fsys" where
  "set_slot p i y st = upd_proc p (\<lambda>u. u\<lparr>u_ofile := (u_ofile u)[i := y]\<rparr>) st"

definition log_ev :: "fevent \<Rightarrow> fsys \<Rightarrow> fsys" where
  "log_ev e st = st\<lparr>trace := trace st @ [e]\<rparr>"

definition set_errno :: "pid \<Rightarrow> int \<Rightarrow> fsys \<Rightarrow> fsys" where
  "set_errno p e st = upd_proc p (\<lambda>u. u\<lparr>u_errno := e\<rparr>) st"

section \<open>Allocation of descriptors and file structures\<close>

text \<open>The common body of \<open>ufalloc\<close> and \<open>ufalloc2\<close>, on the table of process \<open>q\<close>.\<close>

definition ufalloc_at :: "pid \<Rightarrow> nat \<Rightarrow> fsys \<Rightarrow> int + nat \<times> fsys" where
  "ufalloc_at q want st =
     (case scan (\<lambda>x. x = None) want (u_ofile (procs st ! q)) of
        None \<Rightarrow> Inl EMFILE
      | Some i \<Rightarrow> Inr (i, upd_proc q (\<lambda>u. u\<lparr>u_pofile := (u_pofile u)[i := 0],
                      u_lastfile := if int i > u_lastfile u then int i else u_lastfile u\<rparr>) st))"

definition ufalloc :: "pid \<Rightarrow> nat \<Rightarrow> fsys \<Rightarrow> int + nat \<times> fsys" where
  "ufalloc p want st = ufalloc_at (u_target st p) want st"

definition ufalloc2 :: "pid \<Rightarrow> nat \<Rightarrow> fsys \<Rightarrow> int + nat \<times> fsys" where
  "ufalloc2 p want st = ufalloc_at p want st"

definition take_file :: "addr option \<Rightarrow> fsys \<Rightarrow> (addr \<times> fsys) option" where
  "take_file km st =
     (case ix_free_file_list st of
        a # rest \<Rightarrow> Some (a, st\<lparr>ix_free_file_list := rest, ix_used_file_list := a # ix_used_file_list st\<rparr>)
      | [] \<Rightarrow> (case km of
                Some a \<Rightarrow> Some (a, upd_file a (\<lambda>_. zero_file) (st\<lparr>ix_used_file_list := a # ix_used_file_list st\<rparr>))
              | None \<Rightarrow> None))"

definition falloc_at :: "pid \<Rightarrow> pid \<Rightarrow> addr option \<Rightarrow> fsys \<Rightarrow> (int + addr \<times> nat) \<times> fsys" where
  "falloc_at p q km st =
     (case ufalloc p 0 st of
        Inl e \<Rightarrow> (Inl e, st)
      | Inr (i, st1) \<Rightarrow>
          (case take_file km st1 of
             None \<Rightarrow> (Inl ENOMEM, st1)
           | Some (a, st2) \<Rightarrow>
               (Inr (a, i), upd_file a (\<lambda>f. f\<lparr>f_stb_dirty := 0, f_name := None, f_count := 1, f_type := 0,
                                              f_fh := FH_none\<rparr>)
                              (set_slot q i (Some a) st2))))"

definition falloc :: "pid \<Rightarrow> addr option \<Rightarrow> fsys \<Rightarrow> (int + addr \<times> nat) \<times> fsys" where
  "falloc p km st = falloc_at p (u_target st p) km st"

definition falloc2 :: "pid \<Rightarrow> addr option \<Rightarrow> fsys \<Rightarrow> (int + addr \<times> nat) \<times> fsys" where
  "falloc2 p km st = falloc_at p p km st"

definition ffree :: "addr \<Rightarrow> fsys \<Rightarrow> fsys" where
  "ffree a st = st\<lparr>ix_used_file_list := remove1 a (ix_used_file_list st),
                   ix_free_file_list := a # ix_free_file_list st\<rparr>"

section \<open>References to files\<close>

definition refs :: "fsys \<Rightarrow> addr \<Rightarrow> nat" where
  "refs st a = sum_list (map (\<lambda>u. count_list (u_ofile u) (Some a)) (procs st))"

definition user_ok :: "nat \<Rightarrow> user \<Rightarrow> bool" where
  "user_ok n u \<longleftrightarrow> length (u_ofile u) = NOFILE \<and> length (u_pofile u) = NOFILE
     \<and> (\<forall>i < NOFILE. u_ofile u ! i \<noteq> None \<longrightarrow> int i \<le> u_lastfile u)
     \<and> (\<forall>q. u_parent_userdata u = Some q \<longrightarrow> q < n)"

definition tables_ok :: "fsys \<Rightarrow> bool" where
  "tables_ok st \<longleftrightarrow> (\<forall>u \<in> set (procs st). user_ok (length (procs st)) u)"

text \<open>The counts agree with the descriptors, except that file \<open>a\<close> is counted \<open>d a\<close> more often
  than it is referenced: the state between the steps of an operation.\<close>

definition counts_ok :: "(addr \<Rightarrow> int) \<Rightarrow> fsys \<Rightarrow> bool" where
  "counts_ok d st \<longleftrightarrow> distinct (ix_used_file_list st @ ix_free_file_list st)
     \<and> (\<forall>a. if a \<in> set (ix_used_file_list st)
            then f_count (files st a) = int (refs st a) + d a \<and> 0 < f_count (files st a)
            else refs st a = 0 \<and> d a = 0)"

lemma count_list_update:
  "i < length xs \<Longrightarrow>
   int (count_list (xs[i := y]) z) = int (count_list xs z) + of_bool (y = z) - of_bool (xs ! i = z)"
proof (induction xs arbitrary: i)
  case (Cons x xs)
  then show ?case by (cases i) auto
qed simp

lemma refs_set_slot:
  assumes "p < length (procs st)" and "i < length (u_ofile (procs st ! p))"
  shows "int (refs (set_slot p i y st) a)
    = int (refs st a) + of_bool (y = Some a) - of_bool (u_ofile (procs st ! p) ! i = Some a)"
proof -
  let ?c = "\<lambda>u. count_list (u_ofile u) (Some a)"
  let ?u = "(procs st ! p)\<lparr>u_ofile := (u_ofile (procs st ! p))[i := y]\<rparr>"
  have "refs (set_slot p i y st) a + ?c (procs st ! p) = refs st a + ?c ?u"
    using assms(1) elem_le_sum_list [of p "map ?c (procs st)"]
    by (simp add: refs_def set_slot_def upd_proc_def map_update sum_list_update)
  then show ?thesis
    using count_list_update [OF assms(2), of y "Some a"] by simp
qed

text \<open>Fields that an update leaves alone.\<close>

lemma state_frames [simp]:
  "procs (upd_file a g st) = procs st" "procs (log_ev e st) = procs st" "procs (ffree a st) = procs st"
  "files (upd_proc p h st) = files st" "files (log_ev e st) = files st" "files (ffree a st) = files st"
  "files (set_slot p i y st) = files st" "files (set_errno p x st) = files st"
  "ix_used_file_list (upd_proc p h st) = ix_used_file_list st"
  "ix_used_file_list (upd_file a g st) = ix_used_file_list st"
  "ix_used_file_list (log_ev e st) = ix_used_file_list st"
  "ix_used_file_list (set_slot p i y st) = ix_used_file_list st"
  "ix_used_file_list (set_errno p x st) = ix_used_file_list st"
  "ix_free_file_list (upd_proc p h st) = ix_free_file_list st"
  "ix_free_file_list (upd_file a g st) = ix_free_file_list st"
  "ix_free_file_list (log_ev e st) = ix_free_file_list st"
  "ix_free_file_list (set_slot p i y st) = ix_free_file_list st"
  "ix_free_file_list (set_errno p x st) = ix_free_file_list st"
  "length (procs (upd_proc p h st)) = length (procs st)" "length (procs (set_slot p i y st)) = length (procs st)"
  "length (procs (set_errno p x st)) = length (procs st)"
  by (simp_all add: upd_file_def upd_proc_def log_ev_def set_slot_def ffree_def set_errno_def)

lemma stream_frames [simp]:
  "streams (upd_proc p h st) = streams st" "streams (upd_file a g st) = streams st"
  "streams (log_ev e st) = streams st" "streams (set_slot p i y st) = streams st"
  "streams (ffree a st) = streams st" "streams (set_errno p x st) = streams st"
  "socks (upd_proc p h st) = socks st" "socks (upd_file a g st) = socks st"
  "socks (log_ev e st) = socks st" "socks (set_slot p i y st) = socks st"
  "socks (ffree a st) = socks st" "socks (set_errno p x st) = socks st"
  by (simp_all add: upd_file_def upd_proc_def log_ev_def set_slot_def ffree_def set_errno_def)

lemma files_upd_file [simp]: "files (upd_file a g st) b = (if b = a then g (files st a) else files st b)"
  by (simp add: upd_file_def)

lemma refs_cong: "procs st' = procs st \<Longrightarrow> refs st' a = refs st a"
  by (simp add: refs_def)

lemma refs_upd_proc:
  assumes "\<And>u. u_ofile (h u) = u_ofile u"
  shows "refs (upd_proc p h st) a = refs st a"
proof -
  have "map (\<lambda>u. count_list (u_ofile u) (Some a)) (procs (upd_proc p h st))
      = map (\<lambda>u. count_list (u_ofile u) (Some a)) (procs st)"
    using assms by (cases "p < length (procs st)") (auto simp: upd_proc_def map_update list_update_beyond intro: list_update_id
        nth_equalityI simp: nth_list_update)
  then show ?thesis by (simp add: refs_def)
qed

lemma tables_okD:
  assumes "tables_ok st" and "p < length (procs st)"
  shows "length (u_ofile (procs st ! p)) = NOFILE" "length (u_pofile (procs st ! p)) = NOFILE"
    and "i < NOFILE \<Longrightarrow> u_ofile (procs st ! p) ! i \<noteq> None \<Longrightarrow> int i \<le> u_lastfile (procs st ! p)"
    and "u_target st p < length (procs st)"
  using assms nth_mem [of p "procs st"] by (auto simp: tables_ok_def user_ok_def u_target_def split: option.splits)

lemma tables_ok_upd_proc:
  assumes "tables_ok st"
    and "p < length (procs st) \<Longrightarrow> user_ok (length (procs st)) (procs st ! p) \<Longrightarrow>
      user_ok (length (procs st)) (h (procs st ! p))"
  shows "tables_ok (upd_proc p h st)"
proof (cases "p < length (procs st)")
  case True
  have "user_ok (length (procs st)) u" if "u \<in> set ((procs st)[p := h (procs st ! p)])" for u
    using that assms True nth_mem [OF True] set_update_subset_insert [of "procs st" p "h (procs st ! p)"]
    by (auto simp: tables_ok_def)
  then show ?thesis by (simp add: tables_ok_def upd_proc_def)
next
  case False
  then show ?thesis using assms(1) by (simp add: upd_proc_def list_update_beyond)
qed

lemma tables_ok_set_slot:
  assumes "tables_ok st" and "p < length (procs st)" and "i < NOFILE"
    and "y \<noteq> None \<Longrightarrow> int i \<le> u_lastfile (procs st ! p)"
  shows "tables_ok (set_slot p i y st)"
  unfolding set_slot_def
  by (rule tables_ok_upd_proc)
    (use assms in \<open>auto simp: user_ok_def nth_list_update split: if_splits\<close>)

lemma tables_ok_cong: "procs st' = procs st \<Longrightarrow> tables_ok st' = tables_ok st"
  by (simp add: tables_ok_def)

lemma counts_okD:
  assumes "counts_ok d st"
  shows "b \<in> set (ix_used_file_list st) \<Longrightarrow> f_count (files st b) = int (refs st b) + d b"
    and "b \<in> set (ix_used_file_list st) \<Longrightarrow> 0 < f_count (files st b)"
    and "b \<notin> set (ix_used_file_list st) \<Longrightarrow> refs st b = 0" "b \<notin> set (ix_used_file_list st) \<Longrightarrow> d b = 0"
    and "distinct (ix_used_file_list st)"
    and "b \<in> set (ix_used_file_list st) \<Longrightarrow> b \<notin> set (ix_free_file_list st)"
proof -
  have "if b \<in> set (ix_used_file_list st)
      then f_count (files st b) = int (refs st b) + d b \<and> 0 < f_count (files st b)
      else refs st b = 0 \<and> d b = 0" using assms unfolding counts_ok_def by blast
  then show "b \<in> set (ix_used_file_list st) \<Longrightarrow> f_count (files st b) = int (refs st b) + d b"
    "b \<in> set (ix_used_file_list st) \<Longrightarrow> 0 < f_count (files st b)"
    "b \<notin> set (ix_used_file_list st) \<Longrightarrow> refs st b = 0" "b \<notin> set (ix_used_file_list st) \<Longrightarrow> d b = 0"
    by (simp_all split: if_splits)
  show "distinct (ix_used_file_list st)" using assms by (simp add: counts_ok_def)
  show "b \<in> set (ix_used_file_list st) \<Longrightarrow> b \<notin> set (ix_free_file_list st)"
    using assms by (auto simp: counts_ok_def)
qed

lemma counts_okI:
  assumes "distinct (ix_used_file_list st @ ix_free_file_list st)"
    and "\<And>b. b \<in> set (ix_used_file_list st) \<Longrightarrow> f_count (files st b) = int (refs st b) + d b"
    and "\<And>b. b \<in> set (ix_used_file_list st) \<Longrightarrow> 0 < f_count (files st b)"
    and "\<And>b. b \<notin> set (ix_used_file_list st) \<Longrightarrow> refs st b = 0"
    and "\<And>b. b \<notin> set (ix_used_file_list st) \<Longrightarrow> d b = 0"
  shows "counts_ok d st"
  using assms unfolding counts_ok_def by presburger

lemma counts_ok_distinct: "counts_ok d st \<Longrightarrow> distinct (ix_used_file_list st @ ix_free_file_list st)"
  by (simp add: counts_ok_def)

lemma counts_ok_set_slot:
  assumes c: "counts_ok d st" and t: "tables_ok st" and p: "p < length (procs st)" and i: "i < NOFILE"
    and y: "\<And>a. y = Some a \<Longrightarrow> a \<in> set (ix_used_file_list st)"
  shows "counts_ok (\<lambda>b. d b - of_bool (y = Some b) + of_bool (u_ofile (procs st ! p) ! i = Some b))
      (set_slot p i y st)"
proof -
  have i': "i < length (u_ofile (procs st ! p))" using tables_okD [OF t p] i by simp
  note r = refs_set_slot [OF p i', of y]
  have old: "refs st b \<noteq> 0" if "u_ofile (procs st ! p) ! i = Some b" for b
  proof -
    have "count_list (u_ofile (procs st ! p)) (Some b) \<noteq> 0"
      using that i' nth_mem [OF i'] by (auto simp: count_list_0_iff)
    then show ?thesis
      using elem_le_sum_list [of p "map (\<lambda>u. count_list (u_ofile u) (Some b)) (procs st)"] p
      by (auto simp: refs_def)
  qed
  show ?thesis
  proof (rule counts_okI)
    fix b
    show "b \<in> set (ix_used_file_list (set_slot p i y st)) \<Longrightarrow> f_count (files (set_slot p i y st) b)
        = int (refs (set_slot p i y st) b) + (d b - of_bool (y = Some b) + of_bool (u_ofile (procs st ! p) ! i = Some b))"
      using counts_okD(1) [OF c, of b] r [of b] by simp
    show "b \<notin> set (ix_used_file_list (set_slot p i y st)) \<Longrightarrow> refs (set_slot p i y st) b = 0"
      "b \<notin> set (ix_used_file_list (set_slot p i y st)) \<Longrightarrow>
        d b - of_bool (y = Some b) + of_bool (u_ofile (procs st ! p) ! i = Some b) = 0"
      using counts_okD(3,4) [OF c, of b] r [of b] y [of b] old [of b] by (auto simp: of_bool_def split: if_splits)
  qed (use counts_ok_distinct [OF c] counts_okD(2) [OF c] in simp_all)
qed

lemma counts_ok_upd_count:
  assumes "counts_ok d st" and "a \<in> set (ix_used_file_list st)" and "0 < f_count (files st a) + k"
    and "f_count (g (files st a)) = f_count (files st a) + k"
  shows "counts_ok (d(a := d a + k)) (upd_file a g st)"
  by (rule counts_okI)
    (use assms counts_okD(1-4) [OF assms(1)] counts_ok_distinct [OF assms(1)] in
      \<open>auto simp: refs_cong [of "upd_file a g st" st] split: if_splits\<close>)

lemma counts_ok_cong:
  assumes "counts_ok d st" and "ix_used_file_list st' = ix_used_file_list st"
    and "ix_free_file_list st' = ix_free_file_list st"
    and "\<And>a. refs st' a = refs st a" and "\<And>a. f_count (files st' a) = f_count (files st a)"
  shows "counts_ok d st'"
  by (rule counts_okI) (use assms(2-) counts_okD(1-4) [OF assms(1)] counts_ok_distinct [OF assms(1)] in auto)

lemma counts_ok_ext: "counts_ok d st \<Longrightarrow> (\<And>a. d a = d' a) \<Longrightarrow> counts_ok d' st"
  by (subgoal_tac "d = d'") auto

text \<open>What every \<open>f_close\<close> function does to the file structures: it gives up one reference, and the
  last one moves the structure to the free list.\<close>

definition drops_ref :: "addr \<Rightarrow> fsys \<Rightarrow> fsys \<Rightarrow> bool" where
  "drops_ref a st st' \<longleftrightarrow> procs st' = procs st \<and> (\<forall>b. b \<noteq> a \<longrightarrow> files st' b = files st b)
     \<and> f_count (files st' a) = f_count (files st a) - 1
     \<and> (if f_count (files st a) = 1
        then ix_used_file_list st' = remove1 a (ix_used_file_list st) \<and> ix_free_file_list st' = a # ix_free_file_list st
        else ix_used_file_list st' = ix_used_file_list st \<and> ix_free_file_list st' = ix_free_file_list st)"

lemma counts_ok_drops_ref:
  assumes c: "counts_ok d st" and a: "a \<in> set (ix_used_file_list st)" and d: "d a = 1" and s: "drops_ref a st st'"
  shows "counts_ok (d(a := 0)) st'"
proof -
  have refs: "refs st' b = refs st b" for b using s by (auto simp: drops_ref_def intro: refs_cong)
  have cnt: "f_count (files st a) = int (refs st a) + 1" using counts_okD(1) [OF c a] d by simp
  have fb: "f_count (files st' b) = (if b = a then int (refs st a) else f_count (files st b))" for b
    using s cnt by (simp add: drops_ref_def)
  show ?thesis
  proof (cases "refs st a = 0")
    case True
    then have "ix_used_file_list st' = remove1 a (ix_used_file_list st)" "ix_free_file_list st' = a # ix_free_file_list st"
      using s cnt by (auto simp: drops_ref_def)
    then show ?thesis
      by (intro counts_okI)
        (use counts_okD(1-4) [OF c] counts_ok_distinct [OF c] a refs fb True in \<open>auto split: if_splits\<close>)
  next
    case False
    then have "ix_used_file_list st' = ix_used_file_list st" "ix_free_file_list st' = ix_free_file_list st"
      using s cnt by (auto simp: drops_ref_def)
    then show ?thesis
      by (intro counts_okI)
        (use counts_okD(1-4) [OF c] counts_ok_distinct [OF c] a refs fb False in \<open>auto split: if_splits\<close>)
  qed
qed

text \<open>\<open>ufalloc\<close> hands out the lowest free descriptor from \<open>want\<close> on.\<close>

lemma ufalloc_at_spec:
  assumes t: "tables_ok st" and q: "q < length (procs st)" and u: "ufalloc_at q want st = Inr (i, st')"
  shows "want \<le> i" "i < NOFILE" "u_ofile (procs st ! q) ! i = None"
    and "\<And>j. want \<le> j \<Longrightarrow> j < i \<Longrightarrow> u_ofile (procs st ! q) ! j \<noteq> None"
    and "u_ofile (procs st' ! r) = u_ofile (procs st ! r)" "u_parent_userdata (procs st' ! r) = u_parent_userdata (procs st ! r)"
    and "int i \<le> u_lastfile (procs st' ! q)" "length (procs st') = length (procs st)"
    and "tables_ok st'" "refs st' a = refs st a" "files st' = files st" "streams st' = streams st"
    and "ix_used_file_list st' = ix_used_file_list st" "ix_free_file_list st' = ix_free_file_list st"
    and "socks st' = socks st"
proof -
  obtain k where k: "scan (\<lambda>x. x = None) want (u_ofile (procs st ! q)) = Some k"
    and "i = k" and st': "st' = upd_proc q (\<lambda>u. u\<lparr>u_pofile := (u_pofile u)[k := 0],
        u_lastfile := if int k > u_lastfile u then int k else u_lastfile u\<rparr>) st"
    using u by (auto simp: ufalloc_at_def split: option.splits)
  note tab = tables_okD [OF t q]
  show i: "want \<le> i" "i < NOFILE" "u_ofile (procs st ! q) ! i = None"
    and "\<And>j. want \<le> j \<Longrightarrow> j < i \<Longrightarrow> u_ofile (procs st ! q) ! j \<noteq> None"
    using k \<open>i = k\<close> tab by (auto simp: scan_Some)
  show "tables_ok st'" unfolding st'
    by (rule tables_ok_upd_proc [OF t]) (fastforce simp: user_ok_def)
  show "refs st' a = refs st a" unfolding st' by (rule refs_upd_proc) simp
  show "u_ofile (procs st' ! r) = u_ofile (procs st ! r)"
    "u_parent_userdata (procs st' ! r) = u_parent_userdata (procs st ! r)"
    using q by (cases "r = q"; simp add: st' upd_proc_def)+
  show "int i \<le> u_lastfile (procs st' ! q)" using q by (simp add: st' upd_proc_def \<open>i = k\<close>)
  show "length (procs st') = length (procs st)" "files st' = files st" "streams st' = streams st"
    "ix_used_file_list st' = ix_used_file_list st" "ix_free_file_list st' = ix_free_file_list st" "socks st' = socks st"
    by (simp_all add: st')
qed

lemma ufalloc_at_full:
  assumes "tables_ok st" and "q < length (procs st)"
  shows "ufalloc_at q want st = Inl e \<longleftrightarrow>
    e = EMFILE \<and> (\<forall>j. want \<le> j \<and> j < NOFILE \<longrightarrow> u_ofile (procs st ! q) ! j \<noteq> None)"
  using tables_okD [OF assms] by (auto simp: ufalloc_at_def scan_None split: option.splits simp: scan_Some)

lemma upd_file_set_slot: "upd_file a g (set_slot p i y st) = set_slot p i y (upd_file a g st)"
  by (simp add: upd_file_def set_slot_def upd_proc_def)

lemma take_file_spec:
  assumes t: "take_file km st = Some (a, st')"
    and km: "\<And>a. km = Some a \<Longrightarrow> a \<notin> set (ix_used_file_list st @ ix_free_file_list st)"
    and c: "counts_ok (\<lambda>_. 0) st"
  shows "procs st' = procs st" "streams st' = streams st" "socks st' = socks st"
    and "b \<noteq> a \<Longrightarrow> files st' b = files st b" and "a \<notin> set (ix_used_file_list st)"
    and "ix_used_file_list st' = a # ix_used_file_list st"
    and "distinct (ix_used_file_list st' @ ix_free_file_list st')"
  using assms counts_ok_distinct [OF c]
  by (auto simp: take_file_def upd_file_def split: list.splits option.splits)

lemma falloc_slot_ok:
  assumes t: "take_file km st = Some (a, st2)" and c: "counts_ok (\<lambda>_. 0) st" and tab: "tables_ok st"
    and km: "\<And>a. km = Some a \<Longrightarrow> a \<notin> set (ix_used_file_list st @ ix_free_file_list st)"
    and q: "q < length (procs st)" and i: "i < NOFILE" "u_ofile (procs st ! q) ! i = None"
      "int i \<le> u_lastfile (procs st ! q)"
    and g: "f_count (g (files st2 a)) = 1"
  shows "counts_ok (\<lambda>_. 0) (upd_file a g (set_slot q i (Some a) st2))"
    and "tables_ok (upd_file a g (set_slot q i (Some a) st2))"
proof -
  note tf = take_file_spec [OF t km c]
  have tab2: "tables_ok st2" using tab tables_ok_cong [OF tf(1)] by simp
  have refs: "refs (upd_file a g st2) b = refs st b" for b by (rule refs_cong) (simp add: tf(1))
  have "counts_ok (\<lambda>b. of_bool (b = a)) (upd_file a g st2)"
    by (rule counts_okI) (use tf refs g counts_okD(1-3) [OF c] in \<open>auto split: if_splits\<close>)
  from counts_ok_set_slot [OF this, of q i "Some a"]
  have "counts_ok (\<lambda>b. of_bool (b = a) - of_bool (Some a = Some b) + of_bool (None = Some b))
      (set_slot q i (Some a) (upd_file a g st2))"
    using tab2 tf q i by (simp add: tables_ok_cong [of "upd_file a g st2" st2])
  then show "counts_ok (\<lambda>_. 0) (upd_file a g (set_slot q i (Some a) st2))"
    unfolding upd_file_set_slot by (rule counts_ok_ext) auto
  show "tables_ok (upd_file a g (set_slot q i (Some a) st2))"
    using tables_ok_set_slot [OF tab2, of q i "Some a"] tf(1) q i
      tables_ok_cong [of "upd_file a g (set_slot q i (Some a) st2)" "set_slot q i (Some a) st2"] by simp
qed

lemma set_slot_ofile:
  assumes "q < length (procs st)"
  shows "u_ofile (procs (set_slot q i y st) ! r) = (if r = q then (u_ofile (procs st ! q))[i := y] else u_ofile (procs st ! r))"
  using assms by (simp add: set_slot_def upd_proc_def nth_list_update)

text \<open>\<open>falloc\<close>: a fresh structure in the lowest free descriptor of the table it works on.\<close>

lemma falloc_ok:
  assumes t: "tables_ok st" and c: "counts_ok (\<lambda>_. 0) st" and p: "p < length (procs st)"
    and km: "\<And>a. km = Some a \<Longrightarrow> a \<notin> set (ix_used_file_list st @ ix_free_file_list st)"
    and f: "falloc p km st = (Inr (a, i), st')"
  shows "tables_ok st'" and "counts_ok (\<lambda>_. 0) st'" and "length (procs st') = length (procs st)"
    and "streams st' = streams st" and "socks st' = socks st"
    and "i < NOFILE" "u_ofile (procs st ! u_target st p) ! i = None"
    and "\<And>j. j < i \<Longrightarrow> u_ofile (procs st ! u_target st p) ! j \<noteq> None"
    and "u_ofile (procs st' ! r) = (if r = u_target st p then (u_ofile (procs st ! r))[i := Some a] else u_ofile (procs st ! r))"
    and "u_parent_userdata (procs st' ! r) = u_parent_userdata (procs st ! r)"
    and "a \<notin> set (ix_used_file_list st)" "ix_used_file_list st' = a # ix_used_file_list st"
    and "f_count (files st' a) = 1" "f_type (files st' a) = 0" "f_fh (files st' a) = FH_none"
    and "b \<noteq> a \<Longrightarrow> files st' b = files st b"
proof -
  define q where "q = u_target st p"
  have q: "q < length (procs st)" unfolding q_def by (rule tables_okD(4) [OF t p])
  let ?g = "\<lambda>f. f\<lparr>f_stb_dirty := 0, f_name := None, f_count := 1, f_type := 0, f_fh := FH_none\<rparr>"
  obtain st1 st2 where u: "ufalloc_at q 0 st = Inr (i, st1)" and tf: "take_file km st1 = Some (a, st2)"
    and st': "st' = upd_file a ?g (set_slot q i (Some a) st2)"
    using f by (auto simp: falloc_def falloc_at_def ufalloc_def q_def split: sum.splits option.splits)
  note uf = ufalloc_at_spec [OF t q u]
  have c1: "counts_ok (\<lambda>_. 0) st1" by (rule counts_ok_cong [OF c]) (simp_all add: uf)
  have km1: "\<And>a. km = Some a \<Longrightarrow> a \<notin> set (ix_used_file_list st1 @ ix_free_file_list st1)" using km uf by simp
  note ts = take_file_spec [OF tf km1 c1]
  show "counts_ok (\<lambda>_. 0) st'" "tables_ok st'"
    unfolding st' by (rule falloc_slot_ok [OF tf c1 _ km1]; use uf q in simp)+
  show "i < NOFILE" "u_ofile (procs st ! u_target st p) ! i = None"
    "\<And>j. j < i \<Longrightarrow> u_ofile (procs st ! u_target st p) ! j \<noteq> None"
    using uf(1-4) by (simp_all add: q_def)
  show "u_ofile (procs st' ! r) = (if r = u_target st p then (u_ofile (procs st ! r))[i := Some a] else u_ofile (procs st ! r))"
    using q ts uf by (simp add: st' set_slot_ofile q_def)
  show "u_parent_userdata (procs st' ! r) = u_parent_userdata (procs st ! r)"
    using q ts uf by (cases "r = q") (simp_all add: st' set_slot_def upd_proc_def)
  show "length (procs st') = length (procs st)" "streams st' = streams st" "socks st' = socks st"
    "a \<notin> set (ix_used_file_list st)" "ix_used_file_list st' = a # ix_used_file_list st"
    "f_count (files st' a) = 1" "f_type (files st' a) = 0" "f_fh (files st' a) = FH_none"
    "b \<noteq> a \<Longrightarrow> files st' b = files st b"
    using ts uf by (simp_all add: st')
qed

lemma falloc_fail:
  assumes t: "tables_ok st" and c: "counts_ok (\<lambda>_. 0) st" and p: "p < length (procs st)"
    and f: "falloc p km st = (Inl e, st')"
  shows "tables_ok st'" and "counts_ok (\<lambda>_. 0) st'" and "length (procs st') = length (procs st)"
    and "streams st' = streams st" "socks st' = socks st" "files st' = files st"
    and "ix_used_file_list st' = ix_used_file_list st"
    and "u_ofile (procs st' ! r) = u_ofile (procs st ! r)"
proof -
  define q where "q = u_target st p"
  have q: "q < length (procs st)" unfolding q_def by (rule tables_okD(4) [OF t p])
  consider "st' = st" | i where "ufalloc_at q 0 st = Inr (i, st')"
    using f by (auto simp: falloc_def falloc_at_def ufalloc_def q_def split: sum.splits option.splits)
  then have all: "tables_ok st' \<and> counts_ok (\<lambda>_. 0) st' \<and> length (procs st') = length (procs st)
    \<and> streams st' = streams st \<and> socks st' = socks st \<and> files st' = files st
    \<and> ix_used_file_list st' = ix_used_file_list st \<and> u_ofile (procs st' ! r) = u_ofile (procs st ! r)"
  proof cases
    case 2
    note uf = ufalloc_at_spec [OF t q 2]
    have "counts_ok (\<lambda>_. 0) st'" by (rule counts_ok_cong [OF c]) (simp_all add: uf)
    then show ?thesis using uf by simp
  qed (use t c in simp)
  then show "tables_ok st'" "counts_ok (\<lambda>_. 0) st'" "length (procs st') = length (procs st)"
    "streams st' = streams st" "socks st' = socks st" "files st' = files st"
    "ix_used_file_list st' = ix_used_file_list st" "u_ofile (procs st' ! r) = u_ofile (procs st ! r)" by simp_all
qed

end
