(* ===== verification/Ix_Unp.thy ===== *)
theory Ix_Unp
  imports Ix_File
begin

text \<open>
  Local (\<open>AF_UNIX\<close>) stream sockets of \<open>library/unp.c\<close>: naming, the connect queue, the hand-shake of
  \<open>unp_connect\<close> and \<open>unp_accept\<close>, reading and writing through the pair of streams of a
  connection, shutdown and close.  The list \<open>ix_unix_names\<close> holds the name records with their
  addresses, \<open>un_queue\<close> the part of the queue array below \<open>queue_index\<close>.  A call that has to wait
  ends with \<open>Blocked\<close>.  The saving and restoring of the signal mask around the calls is not part
  of this state.
\<close>

section \<open>Names and streams\<close>

abbreviation (input) EPROTONOSUPPORT :: int where "EPROTONOSUPPORT \<equiv> 43"
abbreviation (input) EOPNOTSUPP :: int where "EOPNOTSUPP \<equiv> 45"
abbreviation (input) EADDRINUSE :: int where "EADDRINUSE \<equiv> 48"
abbreviation (input) EADDRNOTAVAIL :: int where "EADDRNOTAVAIL \<equiv> 49"
abbreviation (input) EISCONN :: int where "EISCONN \<equiv> 56"
abbreviation (input) ENOTCONN :: int where "ENOTCONN \<equiv> 57"
abbreviation (input) ECONNREFUSED :: int where "ECONNREFUSED \<equiv> 61"
abbreviation (input) UNS_WAITING :: int where "UNS_WAITING \<equiv> 0"
abbreviation (input) UNS_ERROR :: int where "UNS_ERROR \<equiv> -1"
abbreviation (input) UNS_PROCESSING :: int where "UNS_PROCESSING \<equiv> 1"
abbreviation (input) UNS_ACCEPTED :: int where "UNS_ACCEPTED \<equiv> 2"
abbreviation (input) AF_UNIX :: int where "AF_UNIX \<equiv> 1"
abbreviation (input) AF_INET :: int where "AF_INET \<equiv> 2"
abbreviation (input) SOCK_STREAM :: int where "SOCK_STREAM \<equiv> 1"

datatype outcome = Returns int fsys | Blocked fsys

fun find_unix_name :: "(addr \<times> ix_unix_name) list \<Rightarrow> string \<Rightarrow> addr option" where
  "find_unix_name [] path = None"
| "find_unix_name ((n, un) # rest) path = (if un_path un = path then Some n else find_unix_name rest path)"

fun upd_name :: "addr \<Rightarrow> (ix_unix_name \<Rightarrow> ix_unix_name) \<Rightarrow> (addr \<times> ix_unix_name) list \<Rightarrow> (addr \<times> ix_unix_name) list" where
  "upd_name n g [] = []"
| "upd_name n g ((m, un) # rest) = (if m = n then (m, g un) # rest else (m, un) # upd_name n g rest)"

text \<open>Unlinking a name: the head of the list, or the successor of the node found by the loop.\<close>

fun unlink_after :: "addr \<Rightarrow> (addr \<times> ix_unix_name) list \<Rightarrow> (addr \<times> ix_unix_name) list" where
  "unlink_after n (x # y # rest) = (if fst y = n then x # rest else x # unlink_after n (y # rest))"
| "unlink_after n xs = xs"

definition unlink_name :: "addr \<Rightarrow> (addr \<times> ix_unix_name) list \<Rightarrow> (addr \<times> ix_unix_name) list" where
  "unlink_name n xs = (case xs of x # rest \<Rightarrow> if fst x = n then rest else unlink_after n xs | [] \<Rightarrow> [])"

text \<open>The two \<open>kmalloc\<close>s: the record at a fresh address, and the queue.\<close>

definition add_unix_name :: "pid \<Rightarrow> string \<Rightarrow> int \<Rightarrow> addr option \<Rightarrow> bool \<Rightarrow> fsys \<Rightarrow> addr option \<times> fsys" where
  "add_unix_name p path queue_size km km_queue st =
     (case km of
        None \<Rightarrow> (None, set_errno (u_target st p) ENOMEM st)
      | Some n \<Rightarrow>
          let size = (if queue_size = 0 then 1 else queue_size) in
          if \<not> km_queue then (None, set_errno (u_target st p) ENOMEM st)
          else (Some n, st\<lparr>ix_unix_names :=
                 (n, \<lparr>un_path = path, un_queue_size = size, un_queue = [], un_task = None\<rparr>) # ix_unix_names st\<rparr>))"

definition sock_of :: "fsys \<Rightarrow> addr \<Rightarrow> (addr \<times> unix_socket) option" where
  "sock_of st f = (case f_fh (files st f) of
      FH_sock u \<Rightarrow> (case socks st u of None \<Rightarrow> None | Some us \<Rightarrow> Some (u, us)) | _ \<Rightarrow> None)"

definition upd_sock :: "addr \<Rightarrow> (unix_socket \<Rightarrow> unix_socket) \<Rightarrow> fsys \<Rightarrow> fsys" where
  "upd_sock u g st = st\<lparr>socks := (socks st)(u := map_option g (socks st u))\<rparr>"

definition find_stream :: "fsys \<Rightarrow> addr \<Rightarrow> bool \<Rightarrow> addr option exec" where
  "find_stream st f read_stream =
     (if f_type (files st f) = DTYPE_PIPE
      then (case f_fh (files st f) of FH_ss s \<Rightarrow> Ok (Some s) | FH_none \<Rightarrow> Ok None | _ \<Rightarrow> Wild)
      else (case sock_of st f of
              None \<Rightarrow> Wild
            | Some (u, us) \<Rightarrow>
                let rd = (if us_server us \<noteq> Some f then \<not> read_stream else read_stream)
                in Ok (if rd then us_to_server us else us_from_server us)))"

section \<open>Closing\<close>

definition stream_of :: "unix_socket \<Rightarrow> bool \<Rightarrow> addr option" where
  "stream_of us to_server = (if to_server then us_to_server us else us_from_server us)"

definition closed_ptr :: "fsys \<Rightarrow> addr option \<Rightarrow> bool" where
  "closed_ptr st s = (case s of None \<Rightarrow> True | Some a \<Rightarrow> stream_is_closed (streams st a))"

text \<open>The first part of \<open>close_stream\<close>: mark one end of one stream, free the stream when both
  ends are marked, and otherwise tell the other side.\<close>

definition mark_stream :: "addr \<Rightarrow> unix_socket \<Rightarrow> bool \<Rightarrow> bool \<Rightarrow> fsys \<Rightarrow> fsys exec" where
  "mark_stream u us to_server read_stream st =
     (case stream_of us to_server of
        None \<Rightarrow> Ok st
      | Some s \<Rightarrow>
          (case streams st s of
             None \<Rightarrow> Wild
           | Some ss \<Rightarrow>
               let ss1 = ss\<lparr>s_flags := s_flags ss OR (if read_stream then UNF_NO_READER else UNF_NO_WRITER)\<rparr> in
               if stream_is_closed (Some ss1)
               then Ok (upd_sock u (\<lambda>us. if to_server then us\<lparr>us_to_server := None\<rparr> else us\<lparr>us_from_server := None\<rparr>)
                          (st\<lparr>streams := (streams st)(s := None)\<rparr>))
               else Ok (log_ev (EvWakeup s)
                          ((case s_task ss1 of Some t \<Rightarrow> log_ev (EvSignalTask t) | None \<Rightarrow> id)
                            (st\<lparr>streams := (streams st)(s := Some ss1)\<rparr>)))))"

text \<open>The second part: the last close of a listening socket removes its name.\<close>

definition drop_name :: "addr \<Rightarrow> addr \<Rightarrow> unix_socket \<Rightarrow> bool \<Rightarrow> fsys \<Rightarrow> fsys" where
  "drop_name f u us read_stream st =
     (case us_unix_name us of
        Some n \<Rightarrow> if read_stream \<and> f_count (files st f) = 0
                  then upd_sock u (\<lambda>us. us\<lparr>us_unix_name := None\<rparr>)
                         (st\<lparr>ix_unix_names := unlink_name n (ix_unix_names st)\<rparr>)
                  else st
      | None \<Rightarrow> st)"

text \<open>The third part: freeing the socket structure itself.\<close>

definition free_sock :: "addr \<Rightarrow> addr \<Rightarrow> bool \<Rightarrow> fsys \<Rightarrow> fsys exec" where
  "free_sock f u from_close st =
     (case socks st u of
        None \<Rightarrow> Wild
      | Some us \<Rightarrow>
          if closed_ptr st (us_to_server us) \<and> closed_ptr st (us_from_server us)
            \<and> us_unix_name us = None \<and> f_count (files st f) = 0 \<and> from_close
          then Ok (upd_file f (\<lambda>g. g\<lparr>f_fh := FH_none\<rparr>) (st\<lparr>socks := (socks st)(u := None)\<rparr>))
          else Ok st)"

definition close_stream :: "addr \<Rightarrow> bool \<Rightarrow> bool \<Rightarrow> fsys \<Rightarrow> fsys exec" where
  "close_stream f read_stream from_close st =
     (if f_fh (files st f) = FH_none then Ok st else
      case sock_of st f of
        None \<Rightarrow> Wild
      | Some (u, us) \<Rightarrow>
          exec_bind (mark_stream u us (if us_server us \<noteq> Some f then \<not> read_stream else read_stream) read_stream st)
            (\<lambda>st1. free_sock f u from_close (drop_name f u us read_stream st1)))"

definition unp_shutdown :: "addr \<Rightarrow> int \<Rightarrow> fsys \<Rightarrow> (int \<times> fsys) exec" where
  "unp_shutdown f how st =
     exec_bind (if how = 0 then close_stream f True False st
                else if how = 1 then close_stream f False False st
                else if how = 2 then exec_bind (close_stream f True False st) (close_stream f False False)
                else Ok st) (\<lambda>st'. Ok (0, st'))"

definition unp_close :: "addr \<Rightarrow> fsys \<Rightarrow> (int \<times> fsys) exec" where
  "unp_close f st =
     (let st1 = upd_file f (\<lambda>g. g\<lparr>f_count := f_count g - 1\<rparr>) st in
      exec_bind (if f_count (files st1 f) = 0 \<and> f_fh (files st1 f) \<noteq> FH_none
                 then exec_bind (close_stream f True False st1) (close_stream f False False)
                 else Ok st1) (\<lambda>st2.
        Ok (0, if f_count (files st2 f) = 0 then ffree f st2 else st2)))"

section \<open>Making sockets and connections\<close>

definition set_socket_params :: "int \<Rightarrow> filerec \<Rightarrow> filerec" where
  "set_socket_params domain f =
     f\<lparr>f_flags := FREAD OR FWRITE, f_type := if domain = AF_INET then DTYPE_SOCKET else DTYPE_USOCKET,
       f_read := True, f_write := True,
       f_close := Some (if domain = AF_INET then FC_soo_close else FC_unp_close)\<rparr>"

definition new_socket :: unix_socket where
  "new_socket = \<lparr>us_path = [], us_state = UNS_WAITING, us_from_server = None, us_to_server = None,
     us_unix_name = None, us_server = None\<rparr>"

text \<open>\<open>km_us\<close> and \<open>km_file\<close> are the results of the two allocations.\<close>

definition unp_socket ::
    "pid \<Rightarrow> int \<Rightarrow> int \<Rightarrow> int \<Rightarrow> addr option \<Rightarrow> addr option \<Rightarrow> addr option \<Rightarrow> fsys \<Rightarrow> int \<times> fsys" where
  "unp_socket p domain typ protocol sock km_us km_file st =
     (if typ \<noteq> SOCK_STREAM \<or> protocol \<noteq> 0 then (-1, set_errno (u_target st p) EPROTONOSUPPORT st)
      else case (case sock of Some u \<Rightarrow> Some (u, st)
                 | None \<Rightarrow> (case km_us of None \<Rightarrow> None
                            | Some u \<Rightarrow> Some (u, st\<lparr>socks := (socks st)(u := Some new_socket)\<rparr>))) of
        None \<Rightarrow> (-1, set_errno (u_target st p) ENOMEM st)
      | Some (u, st1) \<Rightarrow>
          (case falloc p km_file st1 of
             (Inl err, st2) \<Rightarrow>
               (-1, set_errno (u_target st p) err
                      (if sock = None then st2\<lparr>socks := (socks st2)(u := None)\<rparr> else st2))
           | (Inr (fp, fd), st2) \<Rightarrow>
               (int fd, upd_file fp (\<lambda>f. set_socket_params domain (f\<lparr>f_fh := FH_sock u\<rparr>)) st2)))"

text \<open>The operations below are called with a descriptor that \<open>getsock\<close> has checked; \<open>creat\<close> is
  the result of creating the file system entry.\<close>

definition unp_bind :: "pid \<Rightarrow> addr \<Rightarrow> string \<Rightarrow> bool \<Rightarrow> fsys \<Rightarrow> (int \<times> fsys) exec" where
  "unp_bind p fp path creat st =
     (case sock_of st fp of
        None \<Rightarrow> Wild
      | Some (u, us) \<Rightarrow>
          if us_path us \<noteq> [] then Ok (-1, set_errno (u_target st p) EINVAL st)
          else if find_unix_name (ix_unix_names st) path \<noteq> None
          then Ok (-1, set_errno (u_target st p) EADDRINUSE st)
          else if \<not> creat then Ok (-1, st)
          else Ok (0, upd_sock u (\<lambda>us. us\<lparr>us_path := path\<rparr>) st))"

definition unp_listen :: "pid \<Rightarrow> addr \<Rightarrow> int \<Rightarrow> addr option \<Rightarrow> bool \<Rightarrow> fsys \<Rightarrow> (int \<times> fsys) exec" where
  "unp_listen p fp backlog km km_queue st =
     (case sock_of st fp of
        None \<Rightarrow> Wild
      | Some (u, us) \<Rightarrow>
          if us_path us = [] \<or> us_unix_name us \<noteq> None \<or> us_to_server us \<noteq> None \<or> us_from_server us \<noteq> None
          then Ok (-1, set_errno (u_target st p) EOPNOTSUPP st)
          else (case add_unix_name p (us_path us) backlog km km_queue st of
                  (n, st1) \<Rightarrow> Ok (if n = None then -1 else 0, upd_sock u (\<lambda>us. us\<lparr>us_unix_name := n\<rparr>) st1)))"

text \<open>\<open>unp_accept\<close>: takes the oldest queued client and gives it a descriptor on this side.\<close>

definition unp_accept :: "pid \<Rightarrow> addr \<Rightarrow> addr option \<Rightarrow> fsys \<Rightarrow> outcome exec" where
  "unp_accept p f km_file st =
     (case sock_of st f of
        None \<Rightarrow> Wild
      | Some (u, us) \<Rightarrow>
          (case us_unix_name us of
             None \<Rightarrow> Ok (Returns (-1) (set_errno (u_target st p) EOPNOTSUPP st))
           | Some n \<Rightarrow>
               (case map_of (ix_unix_names st) n of
                  None \<Rightarrow> Wild
                | Some un \<Rightarrow>
                    (case un_queue un of
                       [] \<Rightarrow> if f_flags (files st f) AND FNDELAY \<noteq> 0
                             then Ok (Returns (-1) (set_errno (u_target st p) EAGAIN st))
                             else Ok (Blocked st)
                     | client # rest \<Rightarrow>
                         if socks st client = None then Wild else
                         let st1 = upd_sock client (\<lambda>c. c\<lparr>us_state := UNS_PROCESSING\<rparr>)
                               (st\<lparr>ix_unix_names := upd_name n (\<lambda>un. un\<lparr>un_queue := rest\<rparr>) (ix_unix_names st)\<rparr>);
                             (fd, st2) = unp_socket p AF_UNIX SOCK_STREAM 0 (Some client) None km_file st1
                         in if fd = -1
                            then Ok (Returns fd (log_ev (EvWakeup client)
                                   (upd_sock client (\<lambda>c. c\<lparr>us_state := UNS_ERROR\<rparr>) st2)))
                            else Ok (Returns fd (log_ev (EvWakeup client)
                                   (upd_sock client (\<lambda>c. c\<lparr>us_state := UNS_ACCEPTED,
                                      us_server := u_ofile (procs st2 ! u_target st2 p) ! nat fd\<rparr>) st2)))))))"

text \<open>\<open>unp_connect\<close> up to its wait, and what it does when it finds the state decided.  The two
  allocations are those of \<open>init_stream\<close>.\<close>

definition unp_connect_finish :: "pid \<Rightarrow> addr \<Rightarrow> fsys \<Rightarrow> outcome exec" where
  "unp_connect_finish p u st =
     (case socks st u of
        None \<Rightarrow> Wild
      | Some us \<Rightarrow>
          if us_state us = UNS_ERROR
          then Ok (Returns (-1) (set_errno (u_target st p) ECONNREFUSED
                 (upd_sock u (\<lambda>us. us\<lparr>us_to_server := None, us_from_server := None\<rparr>)
                   (st\<lparr>streams := (\<lambda>s. if Some s = us_to_server us \<or> Some s = us_from_server us then None else streams st s)\<rparr>))))
          else if us_state us = UNS_ACCEPTED then Ok (Returns 0 st)
          else Ok (Blocked st))"

definition unp_connect ::
    "pid \<Rightarrow> addr \<Rightarrow> string \<Rightarrow> addr option \<Rightarrow> addr option \<Rightarrow> u8 list \<Rightarrow> fsys \<Rightarrow> outcome exec" where
  "unp_connect p f path km1 km2 mem st =
     (case sock_of st f of
        None \<Rightarrow> Wild
      | Some (u, us) \<Rightarrow>
          let fail = (\<lambda>e st'. Ok (Returns (-1) (set_errno (u_target st p) e st'))) in
          if us_unix_name us \<noteq> None then fail EOPNOTSUPP st
          else if us_to_server us \<noteq> None \<or> us_from_server us \<noteq> None then fail EISCONN st
          else
            let st1 = upd_sock u (\<lambda>us. us\<lparr>us_path := path\<rparr>) st in
            (case find_unix_name (ix_unix_names st1) path of
               None \<Rightarrow> fail EADDRNOTAVAIL st1
             | Some n \<Rightarrow>
                 (case map_of (ix_unix_names st1) n of
                    None \<Rightarrow> Wild
                  | Some un \<Rightarrow>
                      if un_queue_size un = int (length (un_queue un)) then fail ECONNREFUSED st1
                      else (case (km1, km2) of
                              (Some s1, Some s2) \<Rightarrow>
                                let st2 = upd_sock u (\<lambda>us. us\<lparr>us_to_server := Some s1, us_from_server := Some s2\<rparr>)
                                      (st1\<lparr>streams := (streams st1)(s1 := Some (init_stream mem), s2 := Some (init_stream mem)),
                                           ix_unix_names := upd_name n (\<lambda>un. un\<lparr>un_queue := un_queue un @ [u]\<rparr>) (ix_unix_names st1)\<rparr>);
                                    st3 = log_ev (EvWakeup n) ((case un_task un of Some t \<Rightarrow> log_ev (EvSignalTask t) | None \<Rightarrow> id) st2)
                                in unp_connect_finish p u st3
                            | _ \<Rightarrow> fail ENOMEM st1))))"

section \<open>Transfer\<close>

fun stream_fevent :: "addr \<Rightarrow> stream_event \<Rightarrow> fevent" where
  "stream_fevent a (SignalTask t) = EvSignalTask t"
| "stream_fevent a WakeupStream = EvWakeup a"
| "stream_fevent a WakeupLock = EvWakeupLock a"
| "stream_fevent a PostSigpipe = EvSigpipe"

definition put_stream :: "addr \<Rightarrow> sock_stream option \<Rightarrow> stream_event list \<Rightarrow> fsys \<Rightarrow> fsys" where
  "put_stream a ss ev st = st\<lparr>streams := (streams st)(a := ss), trace := trace st @ map (stream_fevent a) ev\<rparr>"

text \<open>\<open>stream_read\<close> and \<open>stream_write\<close> on a file: find the stream, take its lock (or wait for
  it), run the loop, store \<open>errno\<close>.  The bytes delivered by a read are the first component.\<close>

definition file_read :: "pid \<Rightarrow> addr \<Rightarrow> nat \<Rightarrow> fsys \<Rightarrow> (u8 list \<times> outcome) exec" where
  "file_read p f len st =
     (let q = u_target st p; nd = (f_flags (files st f) AND FNDELAY \<noteq> 0); err = u_errno (procs st ! q) in
      exec_bind (find_stream st f True) (\<lambda>ptr.
        case ptr of
          None \<Rightarrow>
            (case stream_read nd None err len of
               Some (e, ss, r) \<Rightarrow> Ok (rd_data r, Returns (rd_ret r) (set_errno q (rd_err r) st))
             | None \<Rightarrow> Wild)
        | Some a \<Rightarrow>
            (case streams st a of
               None \<Rightarrow> Wild
             | Some ss \<Rightarrow>
                 (case get_stream_try ss of
                    (False, ss') \<Rightarrow> Ok ([], Blocked (put_stream a (Some ss') [] st))
                  | (True, ss') \<Rightarrow>
                      (case stream_read nd (Some ss') err len of
                         Some (Finished, ss'', r) \<Rightarrow>
                           Ok (rd_data r, Returns (rd_ret r) (set_errno q (rd_err r) (put_stream a ss'' (rd_events r) st)))
                       | Some (Sleeping, ss'', r) \<Rightarrow> Ok (rd_data r, Blocked (put_stream a ss'' (rd_events r) st))
                       | None \<Rightarrow> Wild)))))"

definition file_write :: "pid \<Rightarrow> addr \<Rightarrow> u8 list \<Rightarrow> fsys \<Rightarrow> outcome exec" where
  "file_write p f data st =
     (let q = u_target st p; nd = (f_flags (files st f) AND FNDELAY \<noteq> 0); err = u_errno (procs st ! q) in
      exec_bind (find_stream st f False) (\<lambda>ptr.
        case ptr of
          None \<Rightarrow>
            (case stream_write nd None err data of
               Some (e, ss, w) \<Rightarrow> Ok (Returns (wr_ret w) (set_errno q (wr_err w)
                                      (st\<lparr>trace := trace st @ map (stream_fevent 0) (wr_events w)\<rparr>)))
             | None \<Rightarrow> Wild)
        | Some a \<Rightarrow>
            (case streams st a of
               None \<Rightarrow> Wild
             | Some ss \<Rightarrow>
                 (case get_stream_try ss of
                    (False, ss') \<Rightarrow> Ok (Blocked (put_stream a (Some ss') [] st))
                  | (True, ss') \<Rightarrow>
                      (case stream_write nd (Some ss') err data of
                         Some (Finished, ss'', w) \<Rightarrow>
                           Ok (Returns (wr_ret w) (set_errno q (wr_err w) (put_stream a ss'' (wr_events w) st)))
                       | Some (Sleeping, ss'', w) \<Rightarrow> Ok (Blocked (put_stream a ss'' (wr_events w) st))
                       | None \<Rightarrow> Wild)))))"

definition unp_read :: "pid \<Rightarrow> addr \<Rightarrow> nat \<Rightarrow> fsys \<Rightarrow> (u8 list \<times> outcome) exec" where
  "unp_read p f len st =
     (case sock_of st f of
        None \<Rightarrow> Wild
      | Some (u, us) \<Rightarrow>
          if us_state us \<noteq> UNS_ACCEPTED then Ok ([], Returns (-1) (set_errno (u_target st p) ENOTCONN st))
          else file_read p f len st)"

definition unp_write :: "pid \<Rightarrow> addr \<Rightarrow> u8 list \<Rightarrow> fsys \<Rightarrow> outcome exec" where
  "unp_write p f data st =
     (case sock_of st f of
        None \<Rightarrow> Wild
      | Some (u, us) \<Rightarrow>
          if us_state us \<noteq> UNS_ACCEPTED then Ok (Returns (-1) (set_errno (u_target st p) ENOTCONN st))
          else file_write p f data st)"

definition unp_send :: "pid \<Rightarrow> addr \<Rightarrow> u8 list \<Rightarrow> int \<Rightarrow> fsys \<Rightarrow> outcome exec" where
  "unp_send p f data flags st =
     (if flags \<noteq> 0 then Ok (Returns (-1) (set_errno (u_target st p) EOPNOTSUPP st)) else unp_write p f data st)"

definition unp_recv :: "pid \<Rightarrow> addr \<Rightarrow> nat \<Rightarrow> int \<Rightarrow> fsys \<Rightarrow> (u8 list \<times> outcome) exec" where
  "unp_recv p f len flags st =
     (if flags \<noteq> 0 then Ok ([], Returns (-1) (set_errno (u_target st p) EOPNOTSUPP st)) else unp_read p f len st)"

definition unp_getsockname :: "addr \<Rightarrow> fsys \<Rightarrow> (int \<times> string \<times> nat) exec" where
  "unp_getsockname f st =
     (case sock_of st f of None \<Rightarrow> Wild | Some (u, us) \<Rightarrow> Ok (0, us_path us, 5 + length (us_path us)))"

datatype ioctl_cmd = FIONREAD | FIONBIO | FIOASYNC | FIO_other

text \<open>\<open>unp_ioctl\<close> on a stream whose lock is free, so that taking and releasing it changes nothing:
  the result value, the word stored through \<open>arg\<close> by \<open>FIONREAD\<close>, and the state.\<close>

definition unp_ioctl :: "addr \<Rightarrow> ioctl_cmd \<Rightarrow> bool \<Rightarrow> fsys \<Rightarrow> (int \<times> nat option \<times> fsys) exec" where
  "unp_ioctl f cmd arg st =
     exec_bind (find_stream st f True) (\<lambda>ptr.
       let flag = (\<lambda>m. upd_file f (\<lambda>g. g\<lparr>f_flags := if arg then f_flags g OR m else f_flags g AND NOT m\<rparr>) st) in
       case cmd of
         FIONREAD \<Rightarrow> (case ptr of
             None \<Rightarrow> Ok (0, Some (fionread None), st)
           | Some a \<Rightarrow> (case streams st a of None \<Rightarrow> Wild | Some ss \<Rightarrow> Ok (0, Some (fionread (Some ss)), st)))
       | FIONBIO \<Rightarrow> Ok (of_bool (f_flags (files st f) AND FNDELAY \<noteq> 0), None, flag FNDELAY)
       | FIOASYNC \<Rightarrow> Ok (of_bool (f_flags (files st f) AND FASYNC \<noteq> 0), None, flag FASYNC)
       | FIO_other \<Rightarrow> Ok (0, None, st))"

datatype select_cmd = SELCMD_PREPARE | SELCMD_CHECK | SELCMD_POLL
datatype select_mode = SELMODE_IN | SELMODE_OUT | SELMODE_EXC

definition stream_ready :: "sock_stream \<Rightarrow> select_mode \<Rightarrow> bool" where
  "stream_ready ss mode =
     (case mode of
        SELMODE_IN \<Rightarrow> can_read ss \<or> stream_flag ss UNF_NO_WRITER
      | SELMODE_OUT \<Rightarrow> can_write ss \<or> stream_flag ss UNF_NO_READER
      | SELMODE_EXC \<Rightarrow> False)"

text \<open>\<open>me\<close> is the calling task and \<open>sigbit\<close> its \<open>1 << u_pipe_sig\<close>.  The C value of a check is any
  non-zero number where the model says 1.\<close>

definition unp_select :: "nat \<Rightarrow> int \<Rightarrow> addr \<Rightarrow> select_cmd \<Rightarrow> select_mode \<Rightarrow> fsys \<Rightarrow> (int \<times> fsys) exec" where
  "unp_select me sigbit f cmd mode st =
     exec_bind (find_stream st f (mode = SELMODE_IN)) (\<lambda>ptr.
       case ptr of
         None \<Rightarrow>
           if f_type (files st f) = DTYPE_PIPE then Wild
           else (case sock_of st f of
                   None \<Rightarrow> Wild
                 | Some (u, us) \<Rightarrow>
                     (case us_unix_name us of
                        None \<Rightarrow> Ok (0, st)
                      | Some n \<Rightarrow>
                          (case map_of (ix_unix_names st) n of
                             None \<Rightarrow> Wild
                           | Some un \<Rightarrow>
                               if cmd = SELCMD_PREPARE
                               then Ok (sigbit, st\<lparr>ix_unix_names := upd_name n (\<lambda>un. un\<lparr>un_task := Some me\<rparr>) (ix_unix_names st)\<rparr>)
                               else Ok (of_bool (mode = SELMODE_IN \<and> un_queue un \<noteq> []),
                                        st\<lparr>ix_unix_names := upd_name n (\<lambda>un. un\<lparr>un_task := None\<rparr>) (ix_unix_names st)\<rparr>))))
       | Some a \<Rightarrow>
           (case streams st a of
              None \<Rightarrow> Wild
            | Some ss \<Rightarrow>
                if cmd \<noteq> SELCMD_PREPARE
                then Ok (of_bool (stream_ready ss mode),
                         if cmd = SELCMD_CHECK \<and> s_task ss = Some me
                         then put_stream a (Some (ss\<lparr>s_task := None\<rparr>)) [] st else st)
                else Ok (sigbit, put_stream a (Some (ss\<lparr>s_task := Some me\<rparr>))
                                 (if stream_ready ss mode then [SignalTask me] else []) st)))"

section \<open>What closing does\<close>

definition name_shrinks :: "addr option \<Rightarrow> addr option \<Rightarrow> (addr \<times> ix_unix_name) list \<Rightarrow> (addr \<times> ix_unix_name) list \<Rightarrow> bool" where
  "name_shrinks n n' xs xs' \<longleftrightarrow> n' = n \<and> xs' = xs
     \<or> n' = None \<and> (case n of None \<Rightarrow> False | Some m \<Rightarrow> xs' = unlink_name m xs)"

lemma name_shrinks_refl: "name_shrinks n n xs xs"
  by (simp add: name_shrinks_def)

lemma name_shrinks_trans: "name_shrinks n n' xs xs' \<Longrightarrow> name_shrinks n' n'' xs' xs'' \<Longrightarrow> name_shrinks n n'' xs xs''"
  by (auto simp: name_shrinks_def split: option.splits)

text \<open>The streams and the name of socket \<open>u\<close> may go; nothing else of the state changes, and no
  pointer of the socket is left dangling.\<close>

definition sock_shrinks :: "addr \<Rightarrow> fsys \<Rightarrow> fsys \<Rightarrow> bool" where
  "sock_shrinks u st st' \<longleftrightarrow>
     procs st' = procs st \<and> files st' = files st \<and> ix_ptys st' = ix_ptys st
     \<and> ix_used_file_list st' = ix_used_file_list st \<and> ix_free_file_list st' = ix_free_file_list st
     \<and> (\<forall>v. v \<noteq> u \<longrightarrow> socks st' v = socks st v)
     \<and> (\<exists>us us'. socks st u = Some us \<and> socks st' u = Some us'
          \<and> (\<forall>d. stream_of us' d \<in> {None, stream_of us d})
          \<and> (\<forall>s. (\<forall>d. stream_of us d \<noteq> Some s) \<longrightarrow> streams st' s = streams st s)
          \<and> (\<forall>d s. stream_of us' d = Some s \<longrightarrow> streams st' s \<noteq> None)
          \<and> name_shrinks (us_unix_name us) (us_unix_name us') (ix_unix_names st) (ix_unix_names st'))"

definition sock_live :: "addr \<Rightarrow> fsys \<Rightarrow> bool" where
  "sock_live u st \<longleftrightarrow> (\<exists>us. socks st u = Some us \<and> (\<forall>d s. stream_of us d = Some s \<longrightarrow> streams st s \<noteq> None)
     \<and> (\<forall>s. stream_of us True = Some s \<longrightarrow> stream_of us False \<noteq> Some s))"

lemma sock_liveD:
  assumes "sock_live u st" and "socks st u = Some us"
  shows "stream_of us d = Some s \<Longrightarrow> \<exists>ss. streams st s = Some ss"
    and "stream_of us d = Some s \<Longrightarrow> stream_of us (\<not> d) \<noteq> Some s"
proof -
  have live: "\<forall>d s. stream_of us d = Some s \<longrightarrow> streams st s \<noteq> None"
    and apart: "\<forall>s. stream_of us True = Some s \<longrightarrow> stream_of us False \<noteq> Some s"
    using assms by (auto simp: sock_live_def)
  show "stream_of us d = Some s \<Longrightarrow> \<exists>ss. streams st s = Some ss" using live by blast
  show "stream_of us d = Some s \<Longrightarrow> stream_of us (\<not> d) \<noteq> Some s" using apart by (cases d) auto
qed

lemma sock_shrinks_refl: "sock_live u st \<Longrightarrow> sock_shrinks u st st"
  by (auto simp: sock_live_def sock_shrinks_def name_shrinks_refl)

lemma upd_sock_frames [simp]:
  "procs (upd_sock u g st) = procs st" "files (upd_sock u g st) = files st" "streams (upd_sock u g st) = streams st"
  "ix_used_file_list (upd_sock u g st) = ix_used_file_list st" "ix_free_file_list (upd_sock u g st) = ix_free_file_list st"
  "ix_unix_names (upd_sock u g st) = ix_unix_names st" "ix_ptys (upd_sock u g st) = ix_ptys st"
  by (simp_all add: upd_sock_def)

lemma socks_upd_sock [simp]: "socks (upd_sock u g st) v = (if v = u then map_option g (socks st u) else socks st v)"
  by (simp add: upd_sock_def)

lemma log_ev_frames [simp]:
  "ix_unix_names (log_ev e st) = ix_unix_names st" "ix_ptys (log_ev e st) = ix_ptys st"
  by (simp_all add: log_ev_def)

lemma mark_stream_ok:
  assumes us: "socks st u = Some us" and live: "sock_live u st"
  shows "\<exists>st'. mark_stream u us to_server rd st = Ok st' \<and> sock_shrinks u st st'
    \<and> (\<forall>us'. socks st' u = Some us' \<longrightarrow> us_unix_name us' = us_unix_name us \<and> us_server us' = us_server us)
    \<and> ix_unix_names st' = ix_unix_names st \<and> sock_live u st'"
proof (cases "stream_of us to_server")
  case None
  then show ?thesis using us live sock_shrinks_refl by (auto simp: mark_stream_def)
next
  case (Some s)
  then obtain ss where ss: "streams st s = Some ss" using sock_liveD(1) [OF live us] by blast
  define ss1 where "ss1 = ss\<lparr>s_flags := s_flags ss OR (if rd then UNF_NO_READER else UNF_NO_WRITER)\<rparr>"
  have other: "stream_of us (\<not> to_server) \<noteq> Some s" using sock_liveD(2) [OF live us Some] .
  show ?thesis
  proof (cases "stream_is_closed (Some ss1)")
    case True
    then have "mark_stream u us to_server rd st =
        Ok (upd_sock u (\<lambda>us. if to_server then us\<lparr>us_to_server := None\<rparr> else us\<lparr>us_from_server := None\<rparr>)
              (st\<lparr>streams := (streams st)(s := None)\<rparr>))"
      using Some ss by (simp add: mark_stream_def ss1_def Let_def)
    then show ?thesis
      using us live Some other by (cases to_server) (auto simp: sock_shrinks_def sock_live_def stream_of_def name_shrinks_refl split: if_splits)
  next
    case False
    then have "mark_stream u us to_server rd st =
        Ok (log_ev (EvWakeup s) ((case s_task ss1 of Some t \<Rightarrow> log_ev (EvSignalTask t) | None \<Rightarrow> id)
              (st\<lparr>streams := (streams st)(s := Some ss1)\<rparr>)))"
      using Some ss by (simp add: mark_stream_def ss1_def Let_def)
    then show ?thesis
      using us live Some other by (cases "s_task ss1") (auto simp: sock_shrinks_def sock_live_def name_shrinks_refl)
  qed
qed

lemma sock_shrinks_trans:
  assumes "sock_shrinks u st st'" and "sock_shrinks u st' st''"
  shows "sock_shrinks u st st''"
proof -
  obtain us us' us'' where s: "socks st u = Some us" "socks st' u = Some us'" "socks st'' u = Some us''"
    and a: "\<forall>d. stream_of us' d \<in> {None, stream_of us d}" "\<forall>d. stream_of us'' d \<in> {None, stream_of us' d}"
    using assms by (auto simp: sock_shrinks_def)
  have "streams st'' s = streams st s" if "\<forall>d. stream_of us d \<noteq> Some s" for s
  proof -
    have "\<forall>d. stream_of us' d \<noteq> Some s" using a that by (metis empty_iff insert_iff option.distinct(1))
    then show ?thesis using assms s that by (auto simp: sock_shrinks_def)
  qed
  moreover have "\<forall>d. stream_of us'' d \<in> {None, stream_of us d}" using a by (metis empty_iff insert_iff)
  moreover have "name_shrinks (us_unix_name us) (us_unix_name us'') (ix_unix_names st) (ix_unix_names st'')"
    using assms s by (auto simp: sock_shrinks_def elim: name_shrinks_trans)
  ultimately show ?thesis using assms s unfolding sock_shrinks_def by auto
qed

lemma sock_shrinks_live:
  assumes "sock_live u st" and "sock_shrinks u st st'"
  shows "sock_live u st'"
proof -
  obtain us us' where s: "socks st u = Some us" "socks st' u = Some us'"
    and sub: "\<forall>d. stream_of us' d \<in> {None, stream_of us d}"
    and live: "\<forall>d s. stream_of us' d = Some s \<longrightarrow> streams st' s \<noteq> None"
    using assms by (auto simp: sock_shrinks_def)
  have "stream_of us' False \<noteq> Some x" if "stream_of us' True = Some x" for x
    using sub that sock_liveD(2) [OF assms(1) s(1), of True x] by (metis empty_iff insert_iff option.distinct(1))
  then show ?thesis using s live by (auto simp: sock_live_def)
qed

lemma close_stream_ok:
  assumes fh: "f_fh (files st f) = FH_sock u" and live: "sock_live u st"
  shows "\<exists>st'. close_stream f rd False st = Ok st' \<and> sock_shrinks u st st'"
proof -
  obtain us where us: "socks st u = Some us" using live by (auto simp: sock_live_def)
  define to_server where "to_server = (if us_server us \<noteq> Some f then \<not> rd else rd)"
  obtain st1 where m: "mark_stream u us to_server rd st = Ok st1" and s1: "sock_shrinks u st st1"
    and nm: "\<forall>us'. socks st1 u = Some us' \<longrightarrow> us_unix_name us' = us_unix_name us \<and> us_server us' = us_server us"
    using mark_stream_ok [OF us live] by blast
  obtain us1 where us1: "socks st1 u = Some us1" using s1 by (auto simp: sock_shrinks_def)
  have live1: "sock_live u st1" by (rule sock_shrinks_live [OF live s1])
  show ?thesis
  proof (cases "us_unix_name us = None \<or> \<not> rd \<or> f_count (files st1 f) \<noteq> 0")
    case True
    then have "close_stream f rd False st = Ok st1"
      using fh us m us1 by (auto simp: close_stream_def sock_of_def to_server_def free_sock_def drop_name_def split: option.splits)
    then show ?thesis using s1 by blast
  next
    case False
    then obtain n where n: "us_unix_name us = Some n" by auto
    define st2 where "st2 = upd_sock u (\<lambda>us. us\<lparr>us_unix_name := None\<rparr>)
        (st1\<lparr>ix_unix_names := unlink_name n (ix_unix_names st1)\<rparr>)"
    have "rd" "f_count (files st1 f) = 0" using False by auto
    then have "drop_name f u us rd st1 = st2" using n by (simp add: drop_name_def st2_def)
    moreover have "free_sock f u False st2 = Ok st2" using us1 by (simp add: free_sock_def st2_def)
    ultimately have "close_stream f rd False st = Ok st2"
      using fh us m unfolding to_server_def by (simp add: close_stream_def sock_of_def)
    moreover have "stream_of (us1\<lparr>us_unix_name := None\<rparr>) d = stream_of us1 d" for d by (simp add: stream_of_def)
    then have "sock_shrinks u st1 st2"
      using live1 us1 nm n by (auto simp: sock_shrinks_def sock_live_def st2_def name_shrinks_def)
    ultimately show ?thesis using sock_shrinks_trans [OF s1] by blast
  qed
qed

lemma unp_close_ok:
  assumes fh: "f_fh (files st f) = FH_sock u" and live: "sock_live u st" and cnt: "1 \<le> f_count (files st f)"
  shows "\<exists>st' st2. unp_close f st = Ok (0, st') \<and> drops_ref f st st'
    \<and> sock_shrinks u (upd_file f (\<lambda>g. g\<lparr>f_count := f_count g - 1\<rparr>) st) st2
    \<and> st' = (if f_count (files st f) = 1 then ffree f st2 else st2)
    \<and> (f_count (files st f) \<noteq> 1 \<longrightarrow> st2 = upd_file f (\<lambda>g. g\<lparr>f_count := f_count g - 1\<rparr>) st)"
proof -
  define st1 where "st1 = upd_file f (\<lambda>g. g\<lparr>f_count := f_count g - 1\<rparr>) st"
  have fh1: "f_fh (files st1 f) = FH_sock u" using fh by (simp add: st1_def)
  have live1: "sock_live u st1" using live by (simp add: sock_live_def st1_def)
  show ?thesis
  proof (cases "f_count (files st f) = 1")
    case True
    obtain st2 where c2: "close_stream f True False st1 = Ok st2" and s2: "sock_shrinks u st1 st2"
      using close_stream_ok [OF fh1 live1] by blast
    have fh2: "f_fh (files st2 f) = FH_sock u" using fh1 s2 by (simp add: sock_shrinks_def)
    obtain st3 where c3: "close_stream f False False st2 = Ok st3" and s3: "sock_shrinks u st2 st3"
      using close_stream_ok [OF fh2 sock_shrinks_live [OF live1 s2]] by blast
    have s13: "sock_shrinks u st1 st3" by (rule sock_shrinks_trans [OF s2 s3])
    have cnt3: "f_count (files st3 f) = 0" using s13 True by (simp add: sock_shrinks_def st1_def)
    have cnt1: "f_count (files st1 f) = 0" using True by (simp add: st1_def)
    have "unp_close f st = Ok (0, ffree f st3)"
      unfolding unp_close_def st1_def [symmetric] Let_def using c2 c3 cnt3 cnt1 fh1 by simp
    moreover have "drops_ref f st (ffree f st3)"
      using s13 True by (auto simp: drops_ref_def sock_shrinks_def st1_def ffree_def)
    ultimately show ?thesis using s13 True by (auto simp: st1_def)
  next
    case False
    then have "unp_close f st = Ok (0, st1)" using fh1 by (simp add: unp_close_def st1_def)
    moreover have "drops_ref f st st1" using False by (simp add: drops_ref_def st1_def)
    ultimately show ?thesis using False sock_shrinks_refl [OF live1] by (auto simp: st1_def)
  qed
qed

end
