(* ===== verification/Ix_Descrip.thy ===== *)
theory Ix_Descrip
  imports Ix_Unp
begin

text \<open>
  System calls on descriptors: \<open>library/kern_descrip.c\<close>, \<open>library/close.c\<close>, \<open>library/pipe.c\<close> and
  the \<open>f_close\<close> functions of \<open>library/__close.c\<close>, \<open>library/__mclose.c\<close> and
  \<open>library/socket.c\<close>.  A call returns its C result and the new state; \<open>Wild\<close> is an access
  through a dangling pointer or outside a table.  Results of the network stack and of \<open>kmalloc\<close>
  are arguments, and requests to DOS are recorded in the trace.
\<close>

section \<open>The close functions\<close>

definition count_down :: "addr \<Rightarrow> fsys \<Rightarrow> fsys" where
  "count_down a st = upd_file a (\<lambda>f. f\<lparr>f_count := f_count f - 1\<rparr>) st"

definition pclose :: "addr \<Rightarrow> fsys \<Rightarrow> (int \<times> fsys) exec" where
  "pclose a st =
     (let st1 = count_down a st in
      if f_count (files st1 a) = 0
      then (case f_fh (files st1 a) of
              FH_ss s \<Rightarrow>
                (case streams st1 s of
                   None \<Rightarrow> Wild
                 | Some ss \<Rightarrow>
                     (case pclose_stream (f_read (files st1 a)) ss of
                        (ev, ss') \<Rightarrow> Ok (0, ffree a (put_stream s ss' ev st1))))
            | _ \<Rightarrow> Wild)
      else Ok (0, st1))"

definition mclose :: "addr \<Rightarrow> fsys \<Rightarrow> (int \<times> fsys) exec" where
  "mclose a st =
     (let st1 = count_down a st; f = files st1 a in
      if f_count f = 0
      then Ok (0, ffree a (log_ev EvKfree
                   (if f_flags f AND FEXTOPEN = 0 \<and> f_name f \<noteq> None then log_ev EvKfree st1 else st1)))
      else Ok (0, st1))"

definition soo_close :: "int \<Rightarrow> addr \<Rightarrow> fsys \<Rightarrow> (int \<times> fsys) exec" where
  "soo_close net a st =
     (let st1 = count_down a st in
      if f_count (files st1 a) \<noteq> 0 then Ok (0, st1)
      else Ok (net, ffree a (log_ev (EvTcpClose a) st1)))"

text \<open>Files of pseudo terminals: \<open>/fifo/pty<letter><digit>...\<close>.  Characters are compared and
  subtracted as numbers.\<close>

definition IX_NUM_PTYS :: nat where
  "IX_NUM_PTYS = 96"

definition is_pty :: "string \<Rightarrow> bool" where
  "is_pty n \<longleftrightarrow> take 9 n = ''/fifo/pty''"

definition pty_index :: "string \<Rightarrow> int" where
  "pty_index n = (int (of_char (n ! 9)) - int (of_char CHR ''p'')) * 16 + int (of_char (n ! 10))
     - (if (of_char (n ! 10) :: nat) \<ge> of_char CHR ''a'' then int (of_char CHR ''a'') - 10 else int (of_char CHR ''0''))"

definition pty_release :: "string \<Rightarrow> fsys \<Rightarrow> fsys exec" where
  "pty_release n st =
     (if length n < 17 \<or> pty_index n < 0 \<or> pty_index n \<ge> int IX_NUM_PTYS \<or> nat (pty_index n) \<ge> length (ix_ptys st)
      then Wild
      else
        let i = nat (pty_index n);
            msk = (if length n > 17 \<and> n ! 17 = CHR ''m'' then 0x0c else 0x03 :: u8);
            v = ((ix_ptys st ! i) AND NOT (msk AND 0x05)) OR (msk AND 0x0a)
        in Ok (st\<lparr>ix_ptys := (ix_ptys st)[i := if v AND 0x05 = 0 then 0 else v]\<rparr>))"

abbreviation (input) FSDF_MODE :: u32 where "FSDF_MODE \<equiv> 1"
abbreviation (input) FSDF_OWNER :: u32 where "FSDF_OWNER \<equiv> 2"
abbreviation (input) FSDF_UTIME :: u32 where "FSDF_UTIME \<equiv> 4"

definition flush_dirty :: "filerec \<Rightarrow> string \<Rightarrow> fsys \<Rightarrow> fsys" where
  "flush_dirty f n st =
     (if f_flags f AND FUNLINK \<noteq> 0 then log_ev (EvUnlink n) st
      else
        let st1 = (if f_stb_dirty f AND FSDF_MODE \<noteq> 0 then log_ev (EvChmod n) st else st);
            st2 = (if f_stb_dirty f AND FSDF_OWNER \<noteq> 0 then log_ev (EvChown n) st1 else st1)
        in if f_write f \<and> f_stb_dirty f AND FSDF_UTIME \<noteq> 0 then log_ev (EvUtimes n) st2 else st2)"

text \<open>\<open>__close\<close>, for files of DOS.  The name is compared before anything else, so a file
  without one is an access through the null pointer.\<close>

definition close_dos :: "addr \<Rightarrow> fsys \<Rightarrow> (int \<times> fsys) exec" where
  "close_dos a st =
     (let f = files st a;
          last_ref = (f_count f = 1);
          st1 = count_down a st
      in if f_count f - 1 > 0 then Ok (0, st1)
         else case f_name f of
           None \<Rightarrow> Wild
         | Some n \<Rightarrow>
             let st2 = (if last_ref
                        then log_ev (EvWaitSelect a) (if is_pty n \<and> f_select_pkt f then log_ev (EvFlushPty a) st1 else st1)
                        else st1)
             in exec_bind (if f_flags f AND FEXTOPEN = 0
                           then let st3 = log_ev (EvDosClose a) st2 in if is_pty n then pty_release n st3 else Ok st3
                           else Ok st2) (\<lambda>st4.
                  let st5 = flush_dirty f n st4 in
                  Ok (0, ffree a (if f_flags f AND FEXTNAME = 0 then log_ev EvKfree st5 else st5))))"

fun call_close :: "int \<Rightarrow> fclose \<Rightarrow> addr \<Rightarrow> fsys \<Rightarrow> (int \<times> fsys) exec" where
  "call_close net FC_close = close_dos"
| "call_close net FC_mclose = mclose"
| "call_close net FC_pclose = pclose"
| "call_close net FC_soo_close = soo_close net"
| "call_close net FC_unp_close = unp_close"

section \<open>System calls\<close>

definition getdtablesize :: int where
  "getdtablesize = 256"

definition flock :: "int \<Rightarrow> int \<Rightarrow> int" where
  "flock fdes how = 0"

definition slot :: "fsys \<Rightarrow> pid \<Rightarrow> nat \<Rightarrow> addr option" where
  "slot st p i = u_ofile (procs st ! p) ! i"

abbreviation (input) UF_EXCLOSE :: u8 where "UF_EXCLOSE \<equiv> 1"

definition close :: "int \<Rightarrow> pid \<Rightarrow> int \<Rightarrow> fsys \<Rightarrow> (int \<times> fsys) exec" where
  "close net p fd st =
     (let q = u_target st p; i = nat fd in
      if 0 \<le> fd \<and> i < NOFILE \<and> slot st q i \<noteq> None
      then
        if u_execveclose (procs st ! p) \<and> slot st p i \<noteq> None \<and> (u_pofile (procs st ! p) ! i) AND UF_EXCLOSE = 0
        then Ok (0, st)
        else
          let a = the (slot st q i); st1 = set_slot q i None st in
          (case f_close (files st1 a) of
             Some c \<Rightarrow> call_close net c a st1
           | None \<Rightarrow> Ok (-1, set_errno p EIO st1))
      else Ok (-1, set_errno p EBADF st))"

text \<open>\<open>dup\<close>: \<open>net\<close> is the result of \<open>netcall(NET__dup, fp)\<close>, \<open>km\<close> that of \<open>kmalloc\<close>.\<close>

definition dup_share :: "pid \<Rightarrow> nat \<Rightarrow> nat \<Rightarrow> addr \<Rightarrow> fsys \<Rightarrow> fsys" where
  "dup_share p i fd fp st =
     upd_proc p (\<lambda>u. u\<lparr>u_lastfile := if int fd > u_lastfile u then int fd else u_lastfile u\<rparr>)
       (upd_file fp (\<lambda>f. f\<lparr>f_count := f_count f + 1\<rparr>)
         (upd_proc p (\<lambda>u. u\<lparr>u_pofile := (u_pofile u)[fd := (u_pofile u ! i) AND NOT UF_EXCLOSE]\<rparr>)
           (set_slot p fd (Some fp) st)))"

definition dup :: "int \<Rightarrow> addr option \<Rightarrow> pid \<Rightarrow> nat \<Rightarrow> fsys \<Rightarrow> int \<times> fsys" where
  "dup net km p i st =
     (if i \<ge> NOFILE \<or> slot st p i = None then (-1, set_errno p EBADF st)
      else
        let fp = the (slot st p i) in
        if f_type (files st fp) = DTYPE_SOCKET
        then (case falloc p km st of
                (Inl e, st1) \<Rightarrow> (-1, set_errno p e st1)
              | (Inr (fp2, fd2), st1) \<Rightarrow>
                  if net = -1
                  then (-1, upd_file fp2 (\<lambda>f. f\<lparr>f_count := 0\<rparr>) (set_slot p fd2 None st1))
                  else (int fd2, upd_file fp2 (\<lambda>f. set_socket_params AF_INET (f\<lparr>f_fh := FH_inet net\<rparr>)) st1))
        else (case ufalloc p 0 st of
                Inl e \<Rightarrow> (-1, set_errno p e st)
              | Inr (fd, st1) \<Rightarrow> (int fd, dup_share p i fd fp st1)))"

definition dup2 :: "int \<Rightarrow> pid \<Rightarrow> nat \<Rightarrow> nat \<Rightarrow> fsys \<Rightarrow> (int \<times> fsys) exec" where
  "dup2 net p i j st =
     (if i \<ge> NOFILE \<or> slot st p i = None then Ok (-1, set_errno p EBADF st)
      else if j \<ge> NOFILE then Ok (-1, set_errno p EBADF st)
      else if i = j then Ok (int j, st)
      else
        let fp = the (slot st p i); old_err = u_errno (procs st ! p) in
        exec_bind
          (case slot st p j of
             None \<Rightarrow> Ok st
           | Some b \<Rightarrow> (case f_close (files st b) of
                         None \<Rightarrow> Ok st
                       | Some c \<Rightarrow> exec_bind (call_close net c b st) (\<lambda>r. Ok (snd r))))
          (\<lambda>st1. Ok (int j, set_errno p old_err (dup_share p i j fp st1))))"

abbreviation (input) FCNTLFLAGS :: u32 where "FCNTLFLAGS \<equiv> 0x2144"

text \<open>The commands of \<open>fcntl\<close>, with the argument as the code reads it.\<close>

datatype fcntl_cmd = F_DUPFD int | F_GETFD | F_SETFD u8 | F_GETFL | F_SETFL u32 | F_INTERNALIZE addr
  | F_EXTERNALIZE | F_unknown

definition fcntl_share :: "pid \<Rightarrow> nat \<Rightarrow> u8 \<Rightarrow> addr \<Rightarrow> fsys \<Rightarrow> fsys" where
  "fcntl_share q fd flags fp st =
     upd_file fp (\<lambda>f. f\<lparr>f_count := f_count f + 1\<rparr>)
       (upd_proc q (\<lambda>u. u\<lparr>u_pofile := (u_pofile u)[fd := flags]\<rparr>) (set_slot q fd (Some fp) st))"

definition fcntl :: "pid \<Rightarrow> int \<Rightarrow> fcntl_cmd \<Rightarrow> fsys \<Rightarrow> (int \<times> fsys) exec" where
  "fcntl p fdes cmd st =
     (let q = u_target st p; d = nat fdes in
      case cmd of
        F_INTERNALIZE fp \<Rightarrow>
          (case ufalloc p 0 st of
             Inl e \<Rightarrow> Ok (-1, set_errno q e st)
           | Inr (i, st1) \<Rightarrow> Ok (int i, fcntl_share q i 0 fp st1))
      | _ \<Rightarrow>
          if d \<ge> NOFILE then Ok (-1, set_errno q EBADF st)
          else if fdes < 0 then Wild
          else if slot st q d = None then Ok (-1, set_errno q EBADF st)
          else
            let fp = the (slot st q d); pop = u_pofile (procs st ! q) ! d in
            case cmd of
              F_DUPFD arg \<Rightarrow>
                if arg < 0 \<or> arg \<ge> int NOFILE then Ok (-1, set_errno q EINVAL st)
                else (case ufalloc p (nat arg) st of
                        Inl e \<Rightarrow> Ok (-1, set_errno q e st)
                      | Inr (i, st1) \<Rightarrow>
                          Ok (int i, upd_proc q (\<lambda>u. u\<lparr>u_lastfile := if int i > u_lastfile u then int i else u_lastfile u\<rparr>)
                                       (fcntl_share q i (pop AND NOT UF_EXCLOSE) fp st1)))
            | F_GETFD \<Rightarrow> Ok (uint (pop AND 1), st)
            | F_SETFD arg \<Rightarrow>
                Ok (0, upd_proc q (\<lambda>u. u\<lparr>u_pofile := (u_pofile u)[d := (pop AND NOT 1) OR (arg AND 1)]\<rparr>) st)
            | F_GETFL \<Rightarrow> Ok (sint (f_flags (files st fp) - 1), st)
            | F_SETFL arg \<Rightarrow>
                let st1 = upd_file fp (\<lambda>f. f\<lparr>f_flags := (f_flags f AND NOT FCNTLFLAGS) OR ((arg + 1) AND FCNTLFLAGS)\<rparr>) st;
                    g = files st1 fp
                in Ok (0, if f_type g = DTYPE_SOCKET
                          then log_ev (EvIoctlNbio (f_flags g AND FNDELAY \<noteq> 0))
                                 (log_ev (EvIoctlAsync (f_flags g AND FASYNC \<noteq> 0)) st1)
                          else st1)
            | F_EXTERNALIZE \<Rightarrow> Ok (int fp, st)
            | _ \<Rightarrow> Ok (-1, set_errno q EINVAL st))"

text \<open>\<open>fstat\<close>: the file whose status is copied, \<open>None\<close> when the network stack answers (with
  result \<open>net\<close>).  The table is read before the range check; beyond its end that value is not
  used.\<close>

definition fstat :: "bool \<Rightarrow> int \<Rightarrow> pid \<Rightarrow> int \<Rightarrow> fsys \<Rightarrow> (int \<times> addr option \<times> fsys) exec" where
  "fstat ixnet net p fdes st =
     (if fdes < 0 then Wild
      else if nat fdes \<ge> NOFILE \<or> slot st (u_target st p) (nat fdes) = None
      then Ok (-1, None, set_errno p EBADF st)
      else
        let fp = the (slot st (u_target st p) (nat fdes)); f = files st fp in
        if f_type f = DTYPE_SOCKET \<and> ixnet then Ok (net, None, st)
        else Ok (0, Some fp, if f_flags f AND FWRITE \<noteq> 0 \<and> f_type f = DTYPE_FILE
                             then log_ev (EvRefreshStat fp) st else st))"

text \<open>\<open>pipe\<close>: results of the three allocations, and the initial bytes of the buffer.  Returns the
  descriptors written to \<open>pv\<close>.\<close>

definition pipe_end :: "addr \<Rightarrow> bool \<Rightarrow> filerec \<Rightarrow> filerec" where
  "pipe_end s is_reader f =
     f\<lparr>f_fh := FH_ss s, f_flags := if is_reader then FREAD else FWRITE, f_type := DTYPE_PIPE,
       f_read := is_reader, f_write := \<not> is_reader, f_close := Some FC_pclose\<rparr>"

definition pipe :: "addr option \<Rightarrow> u8 list \<Rightarrow> addr option \<Rightarrow> addr option \<Rightarrow> pid \<Rightarrow> fsys \<Rightarrow>
    int \<times> (nat \<times> nat) option \<times> fsys" where
  "pipe km_ss mem km1 km2 p st =
     (case km_ss of
        None \<Rightarrow> (-1, None, set_errno p EMFILE st)
      | Some s \<Rightarrow>
          let st0 = st\<lparr>streams := (streams st)(s := Some (init_stream mem))\<rparr>;
              drop_ss = (\<lambda>st. st\<lparr>streams := (streams st)(s := None)\<rparr>)
          in case falloc p km1 st0 of
               (Inl e, st1) \<Rightarrow> (-1, None, set_errno p EMFILE (drop_ss st1))
             | (Inr (f1, fd1), st1) \<Rightarrow>
                 (case falloc p km2 st1 of
                    (Inl e, st2) \<Rightarrow>
                      (-1, None, set_errno p EMFILE (drop_ss (ffree f1 (upd_file f1 (\<lambda>f. f\<lparr>f_count := 0\<rparr>) st2))))
                  | (Inr (f2, fd2), st2) \<Rightarrow>
                      (0, Some (fd1, fd2),
                       set_errno p 0 (upd_file f2 (pipe_end s False) (upd_file f1 (pipe_end s True) st2)))))"

end
