(* ===== verification/Ix_Fd_Safety.thy ===== *)
theory Ix_Fd_Safety
  imports Ix_Descrip
begin

text \<open>
  Safety of the descriptor calls.  \<open>fsys_ok\<close> says that open counts equal the number of
  descriptors, that the structures behind the files in use are alive and owned by one file or
  socket, and that tables are well formed.  The contract that the five \<open>f_close\<close> functions
  share is the locale \<open>close_contract\<close>; \<open>close\<close> and \<open>dup2\<close> rely on nothing else of them.
\<close>

section \<open>Invariant\<close>

definition pty_name_ok :: "string \<Rightarrow> bool" where
  "pty_name_ok n \<longleftrightarrow> (is_pty n \<longrightarrow> 17 \<le> length n \<and> 0 \<le> pty_index n \<and> pty_index n < int IX_NUM_PTYS)"

definition end_open :: "bool \<Rightarrow> sock_stream \<Rightarrow> bool" where
  "end_open is_reader ss \<longleftrightarrow> \<not> stream_flag ss (if is_reader then UNF_NO_READER else UNF_NO_WRITER)"

definition file_ok :: "fsys \<Rightarrow> addr \<Rightarrow> bool" where
  "file_ok st a \<longleftrightarrow>
     (case f_close (files st a) of
        None \<Rightarrow> False
      | Some FC_close \<Rightarrow> (case f_name (files st a) of None \<Rightarrow> False | Some n \<Rightarrow> pty_name_ok n)
      | Some FC_pclose \<Rightarrow> f_type (files st a) = DTYPE_PIPE
          \<and> (case f_fh (files st a) of
               FH_ss s \<Rightarrow> (case streams st s of None \<Rightarrow> False | Some ss \<Rightarrow> end_open (f_read (files st a)) ss)
             | _ \<Rightarrow> False)
      | Some FC_unp_close \<Rightarrow> f_type (files st a) = DTYPE_USOCKET
          \<and> (case f_fh (files st a) of FH_sock u \<Rightarrow> socks st u \<noteq> None | _ \<Rightarrow> False)
      | Some FC_soo_close \<Rightarrow> f_type (files st a) = DTYPE_SOCKET
      | Some FC_mclose \<Rightarrow> True)"

definition pipe_of :: "fsys \<Rightarrow> addr \<Rightarrow> addr \<Rightarrow> bool" where
  "pipe_of st a s \<longleftrightarrow> a \<in> set (ix_used_file_list st) \<and> f_close (files st a) = Some FC_pclose \<and> f_fh (files st a) = FH_ss s"

definition files_typed :: "fsys \<Rightarrow> bool" where
  "files_typed st \<longleftrightarrow> (\<forall>a \<in> set (ix_used_file_list st). file_ok st a)"

definition pipes_ok :: "fsys \<Rightarrow> bool" where
  "pipes_ok st \<longleftrightarrow> (\<forall>a b s. pipe_of st a s \<longrightarrow> pipe_of st b s \<longrightarrow> f_read (files st a) = f_read (files st b) \<longrightarrow> a = b)"

definition sock_streams_ok :: "fsys \<Rightarrow> bool" where
  "sock_streams_ok st \<longleftrightarrow> (\<forall>u us d s. socks st u = Some us \<longrightarrow> stream_of us d = Some s \<longrightarrow>
     streams st s \<noteq> None \<and> (\<forall>a. \<not> pipe_of st a s)
     \<and> (\<forall>v vs e. socks st v = Some vs \<longrightarrow> stream_of vs e = Some s \<longrightarrow> v = u \<and> e = d))"

definition sock_names_ok :: "fsys \<Rightarrow> bool" where
  "sock_names_ok st \<longleftrightarrow> distinct (map fst (ix_unix_names st))
     \<and> (\<forall>u us n. socks st u = Some us \<longrightarrow> us_unix_name us = Some n \<longrightarrow>
          n \<in> fst ` set (ix_unix_names st) \<and> (\<forall>v vs. socks st v = Some vs \<longrightarrow> us_unix_name vs = Some n \<longrightarrow> v = u))"

definition objs_ok :: "fsys \<Rightarrow> bool" where
  "objs_ok st \<longleftrightarrow> files_typed st \<and> pipes_ok st \<and> sock_streams_ok st \<and> sock_names_ok st \<and> length (ix_ptys st) = IX_NUM_PTYS"

definition no_parent :: "fsys \<Rightarrow> bool" where
  "no_parent st \<longleftrightarrow> (\<forall>u \<in> set (procs st). u_parent_userdata u = None)"

definition fsys_ok :: "fsys \<Rightarrow> bool" where
  "fsys_ok st \<longleftrightarrow> tables_ok st \<and> counts_ok (\<lambda>_. 0) st \<and> objs_ok st \<and> no_parent st"

definition same_kind :: "filerec \<Rightarrow> filerec \<Rightarrow> bool" where
  "same_kind f g \<longleftrightarrow> f_close f = f_close g \<and> f_fh f = f_fh g \<and> f_type f = f_type g \<and> f_read f = f_read g \<and> f_name f = f_name g"

lemma sock_streamsD:
  assumes "sock_streams_ok st" and "socks st u = Some us" and "stream_of us d = Some s"
  shows "streams st s \<noteq> None" and "\<not> pipe_of st a s"
    and "socks st v = Some vs \<Longrightarrow> stream_of vs e = Some s \<Longrightarrow> v = u \<and> e = d"
proof -
  have "streams st s \<noteq> None \<and> (\<forall>a. \<not> pipe_of st a s)
     \<and> (\<forall>v vs e. socks st v = Some vs \<longrightarrow> stream_of vs e = Some s \<longrightarrow> v = u \<and> e = d)"
    using assms unfolding sock_streams_ok_def by blast
  then show "streams st s \<noteq> None" "\<not> pipe_of st a s"
    "socks st v = Some vs \<Longrightarrow> stream_of vs e = Some s \<Longrightarrow> v = u \<and> e = d" by blast+
qed

lemma sock_streamsI:
  assumes "\<And>u us d s. socks st u = Some us \<Longrightarrow> stream_of us d = Some s \<Longrightarrow> streams st s \<noteq> None"
    and "\<And>u us d s a. socks st u = Some us \<Longrightarrow> stream_of us d = Some s \<Longrightarrow> \<not> pipe_of st a s"
    and "\<And>u us d s v vs e. socks st u = Some us \<Longrightarrow> stream_of us d = Some s \<Longrightarrow> socks st v = Some vs \<Longrightarrow>
      stream_of vs e = Some s \<Longrightarrow> v = u \<and> e = d"
  shows "sock_streams_ok st"
  unfolding sock_streams_ok_def using assms by blast

lemma objs_ok_mono:
  assumes ok: "objs_ok st" and used: "set (ix_used_file_list st') \<subseteq> set (ix_used_file_list st)"
    and kind: "\<And>a. a \<in> set (ix_used_file_list st') \<Longrightarrow> same_kind (files st' a) (files st a)"
    and eq: "streams st' = streams st" "socks st' = socks st" "ix_unix_names st' = ix_unix_names st"
      "length (ix_ptys st') = length (ix_ptys st)"
  shows "objs_ok st'"
proof -
  have pipes: "pipes_ok st" and streams: "sock_streams_ok st" using ok by (simp_all add: objs_ok_def)
  have fok: "file_ok st' a = file_ok st a" if "a \<in> set (ix_used_file_list st')" for a
    using kind [OF that] eq unfolding same_kind_def file_ok_def by (simp cong: option.case_cong fclose.case_cong fobj.case_cong)
  have pipe: "pipe_of st' a s \<Longrightarrow> pipe_of st a s" for a s
    using kind [of a] used by (auto simp: pipe_of_def same_kind_def)
  have "files_typed st'" using ok used fok by (auto simp: objs_ok_def files_typed_def)
  moreover have "pipes_ok st'"
    unfolding pipes_ok_def
  proof (intro allI impI)
    fix a b s
    assume ab: "pipe_of st' a s" "pipe_of st' b s" and rd: "f_read (files st' a) = f_read (files st' b)"
    have "f_read (files st' a) = f_read (files st a)" "f_read (files st' b) = f_read (files st b)"
      using kind [of a] kind [of b] ab by (simp_all add: pipe_of_def same_kind_def)
    then show "a = b" using pipes pipe [OF ab(1)] pipe [OF ab(2)] rd by (simp add: pipes_ok_def)
  qed
  moreover have "sock_streams_ok st'"
  proof (rule sock_streamsI)
    fix u us d s a v vs e
    assume "socks st' u = Some us" and s: "stream_of us d = Some s"
    then have us: "socks st u = Some us" using eq by simp
    show "streams st' s \<noteq> None" using sock_streamsD(1) [OF streams us s] eq by simp
    show "\<not> pipe_of st' a s" using sock_streamsD(2) [OF streams us s] pipe by auto
    assume "socks st' v = Some vs" "stream_of vs e = Some s"
    then show "v = u \<and> e = d" using sock_streamsD(3) [OF streams us s] eq by simp
  qed
  moreover have "sock_names_ok st' = sock_names_ok st" unfolding sock_names_ok_def eq by (rule refl)
  ultimately show ?thesis using ok eq(4) by (simp add: objs_ok_def)
qed

section \<open>The contract of the close functions\<close>

locale close_contract =
  fixes cl :: "addr \<Rightarrow> fsys \<Rightarrow> (int \<times> fsys) exec"
    and kind :: fclose
  assumes closes: "objs_ok st \<Longrightarrow> a \<in> set (ix_used_file_list st) \<Longrightarrow> distinct (ix_used_file_list st) \<Longrightarrow>
      f_close (files st a) = Some kind \<Longrightarrow> 1 \<le> f_count (files st a) \<Longrightarrow>
      \<exists>r st'. cl a st = Ok (r, st') \<and> drops_ref a st st' \<and> objs_ok st'"
begin

lemma close_keeps:
  assumes "objs_ok st" and "tables_ok st" and "no_parent st" and c: "counts_ok d st" and d: "d a = 1"
    and a: "a \<in> set (ix_used_file_list st)" and k: "f_close (files st a) = Some kind"
  shows "\<exists>r st'. cl a st = Ok (r, st') \<and> objs_ok st' \<and> tables_ok st' \<and> no_parent st' \<and> counts_ok (d(a := 0)) st'
    \<and> procs st' = procs st \<and> (\<forall>b \<in> set (ix_used_file_list st). b \<noteq> a \<longrightarrow> b \<in> set (ix_used_file_list st'))
    \<and> (refs st a \<noteq> 0 \<longrightarrow> a \<in> set (ix_used_file_list st')) \<and> (refs st a = 0 \<longrightarrow> a \<in> set (ix_free_file_list st'))"
proof -
  have cnt: "1 \<le> f_count (files st a)" "f_count (files st a) = int (refs st a) + 1"
    using counts_okD(1,2) [OF c a] d by simp_all
  obtain r st' where cl: "cl a st = Ok (r, st')" and drop: "drops_ref a st st'" and ok: "objs_ok st'"
    using closes [OF assms(1) a counts_okD(5) [OF c] k cnt(1)] by blast
  have procs: "procs st' = procs st" using drop by (simp add: drops_ref_def)
  have "tables_ok st'" "no_parent st'" using assms(2,3) procs by (simp_all add: tables_ok_def no_parent_def)
  moreover have "counts_ok (d(a := 0)) st'" by (rule counts_ok_drops_ref [OF c a d drop])
  ultimately show ?thesis using cl ok procs drop cnt a by (auto simp: drops_ref_def split: if_splits)
qed

end

lemma count_down_frames [simp]:
  "procs (count_down a st) = procs st" "streams (count_down a st) = streams st" "socks (count_down a st) = socks st"
  "ix_unix_names (count_down a st) = ix_unix_names st" "ix_ptys (count_down a st) = ix_ptys st"
  "ix_used_file_list (count_down a st) = ix_used_file_list st" "ix_free_file_list (count_down a st) = ix_free_file_list st"
  by (simp_all add: count_down_def upd_file_def)

lemma files_count_down:
  "files (count_down a st) b = (if b = a then (files st a)\<lparr>f_count := f_count (files st a) - 1\<rparr> else files st b)"
  by (simp add: count_down_def)

lemma ffree_frames [simp]:
  "ix_unix_names (ffree a st) = ix_unix_names st" "ix_ptys (ffree a st) = ix_ptys st"
  "ix_used_file_list (ffree a st) = remove1 a (ix_used_file_list st)"
  "ix_free_file_list (ffree a st) = a # ix_free_file_list st"
  by (simp_all add: ffree_def)

text \<open>Closing a file that has other references, and the common case of the last close.\<close>

lemma shared_close:
  assumes "objs_ok st" and "f_count (files st a) \<noteq> 1"
  shows "drops_ref a st (count_down a st) \<and> objs_ok (count_down a st)"
proof
  show "drops_ref a st (count_down a st)" using assms(2) by (simp add: drops_ref_def files_count_down)
  show "objs_ok (count_down a st)"
    by (rule objs_ok_mono [OF assms(1)]) (simp_all add: files_count_down same_kind_def)
qed

lemma last_close:
  assumes ok: "objs_ok st" and cnt: "f_count (files st a) = 1" and d: "distinct (ix_used_file_list st)"
    and eq: "procs st1 = procs st" "files st1 = files (count_down a st)" "streams st1 = streams st" "socks st1 = socks st"
      "ix_unix_names st1 = ix_unix_names st" "length (ix_ptys st1) = length (ix_ptys st)"
      "ix_used_file_list st1 = ix_used_file_list st" "ix_free_file_list st1 = ix_free_file_list st"
  shows "drops_ref a st (ffree a st1) \<and> objs_ok (ffree a st1)"
proof
  show "drops_ref a st (ffree a st1)" using cnt eq by (simp add: drops_ref_def files_count_down)
  show "objs_ok (ffree a st1)"
    by (rule objs_ok_mono [OF ok]) (use eq d in \<open>auto simp: files_count_down same_kind_def\<close>)
qed

interpretation mc: close_contract mclose FC_mclose
proof
  fix st a
  assume ok: "objs_ok st" and d: "distinct (ix_used_file_list st)"
  show "\<exists>r st'. mclose a st = Ok (r, st') \<and> drops_ref a st st' \<and> objs_ok st'"
  proof (cases "f_count (files st a) = 1")
    case True
    then show ?thesis
      by (auto simp: mclose_def Let_def files_count_down intro!: last_close [OF ok True d, THEN conjunct1]
          last_close [OF ok True d, THEN conjunct2])
  next
    case False
    then show ?thesis using shared_close [OF ok False] by (simp add: mclose_def files_count_down Let_def)
  qed
qed

interpretation sc: close_contract "soo_close net" FC_soo_close for net
proof
  fix st a
  assume ok: "objs_ok st" and d: "distinct (ix_used_file_list st)"
  show "\<exists>r st'. soo_close net a st = Ok (r, st') \<and> drops_ref a st st' \<and> objs_ok st'"
  proof (cases "f_count (files st a) = 1")
    case True
    then show ?thesis
      by (auto simp: soo_close_def Let_def files_count_down intro!: last_close [OF ok True d, THEN conjunct1]
          last_close [OF ok True d, THEN conjunct2])
  next
    case False
    then show ?thesis using shared_close [OF ok False] by (simp add: soo_close_def files_count_down Let_def)
  qed
qed

lemma flush_dirty_frames [simp]:
  "procs (flush_dirty f n st) = procs st" "files (flush_dirty f n st) = files st" "streams (flush_dirty f n st) = streams st"
  "socks (flush_dirty f n st) = socks st" "ix_unix_names (flush_dirty f n st) = ix_unix_names st"
  "ix_ptys (flush_dirty f n st) = ix_ptys st" "ix_used_file_list (flush_dirty f n st) = ix_used_file_list st"
  "ix_free_file_list (flush_dirty f n st) = ix_free_file_list st"
  by (simp_all add: flush_dirty_def Let_def)

lemma pty_release_ok:
  assumes "pty_name_ok n" and "is_pty n" and "length (ix_ptys st) = IX_NUM_PTYS"
  shows "\<exists>v. pty_release n st = Ok (st\<lparr>ix_ptys := (ix_ptys st)[nat (pty_index n) := v]\<rparr>)"
  using assms by (auto simp: pty_release_def pty_name_ok_def Let_def)

text \<open>Only the count of \<open>a\<close>, the pseudo terminal marks and the trace change.\<close>

definition io_only :: "addr \<Rightarrow> fsys \<Rightarrow> fsys \<Rightarrow> bool" where
  "io_only a st st1 \<longleftrightarrow> procs st1 = procs st \<and> files st1 = files (count_down a st)
    \<and> streams st1 = streams st \<and> socks st1 = socks st \<and> ix_unix_names st1 = ix_unix_names st
    \<and> length (ix_ptys st1) = length (ix_ptys st) \<and> ix_used_file_list st1 = ix_used_file_list st
    \<and> ix_free_file_list st1 = ix_free_file_list st"

lemma close_dos_last:
  assumes ok: "objs_ok st" and used: "a \<in> set (ix_used_file_list st)" and k: "f_close (files st a) = Some FC_close"
    and cnt: "f_count (files st a) = 1"
  shows "\<exists>st1. close_dos a st = Ok (0, ffree a st1) \<and> io_only a st st1"
proof -
  define f where "f = files st a"
  obtain n where n: "f_name f = Some n" "pty_name_ok n"
    using ok used k by (auto simp: objs_ok_def files_typed_def file_ok_def f_def split: option.splits)
  define st2 where "st2 = log_ev (EvWaitSelect a)
      (if is_pty n \<and> f_select_pkt f then log_ev (EvFlushPty a) (count_down a st) else count_down a st)"
  define st3 where "st3 = log_ev (EvDosClose a) st2"
  have len: "length (ix_ptys st3) = IX_NUM_PTYS" using ok by (simp add: objs_ok_def st3_def st2_def)
  have io: "io_only a st st2" "io_only a st st3" "\<And>x. io_only a st (st3\<lparr>ix_ptys := (ix_ptys st3)[nat (pty_index n) := x]\<rparr>)"
    by (simp_all add: io_only_def st3_def st2_def)
  obtain st4 where c4: "(if f_flags f AND FEXTOPEN = 0 then if is_pty n then pty_release n st3 else Ok st3 else Ok st2) = Ok st4"
    and s4: "io_only a st st4"
  proof (cases "f_flags f AND FEXTOPEN = 0 \<and> is_pty n")
    case True
    with pty_release_ok [OF n(2) _ len] obtain x
      where "pty_release n st3 = Ok (st3\<lparr>ix_ptys := (ix_ptys st3)[nat (pty_index n) := x]\<rparr>)" by blast
    then show ?thesis using that True io(3) by simp
  next
    case False
    then show ?thesis using that io by (cases "f_flags f AND FEXTOPEN = 0") auto
  qed
  have "close_dos a st = Ok (0, ffree a
      (if f_flags f AND FEXTNAME = 0 then log_ev EvKfree (flush_dirty f n st4) else flush_dirty f n st4))"
    using n cnt c4 by (simp add: close_dos_def Let_def f_def [symmetric] st2_def [symmetric] st3_def [symmetric] split: if_splits)
  then show ?thesis using s4 by (auto simp: io_only_def)
qed

interpretation dc: close_contract close_dos FC_close
proof
  fix st a
  assume ok: "objs_ok st" and d: "distinct (ix_used_file_list st)" and used: "a \<in> set (ix_used_file_list st)"
    and k: "f_close (files st a) = Some FC_close" and pos: "1 \<le> f_count (files st a)"
  show "\<exists>r st'. close_dos a st = Ok (r, st') \<and> drops_ref a st st' \<and> objs_ok st'"
  proof (cases "f_count (files st a) = 1")
    case True
    obtain st1 where "close_dos a st = Ok (0, ffree a st1)" "drops_ref a st (ffree a st1) \<and> objs_ok (ffree a st1)"
      using close_dos_last [OF ok used k True] last_close [OF ok True d] unfolding io_only_def by blast
    then show ?thesis by blast
  next
    case False
    then show ?thesis using shared_close [OF ok False] pos by (simp add: close_dos_def Let_def)
  qed
qed

text \<open>A pipe end: the stream stays as long as the other end is open.\<close>

lemma pclose_stream_other:
  assumes "pclose_stream rd ss = (ev, ss')" and "end_open (\<not> rd) ss"
  shows "\<exists>ss1. ss' = Some ss1 \<and> end_open (\<not> rd) ss1"
proof -
  define ss1 where "ss1 = ss\<lparr>s_flags := s_flags ss OR (if rd then UNF_NO_READER else UNF_NO_WRITER)\<rparr>"
  have "end_open (\<not> rd) ss1"
    using assms(2) by (cases rd) (simp_all add: end_open_def ss1_def stream_flag_or)
  moreover from this have "\<not> stream_is_closed (Some ss1)"
    using closed_flags [of ss1] by (cases rd) (auto simp: end_open_def)
  ultimately show ?thesis using assms(1) by (auto simp: pclose_stream_def ss1_def [symmetric] Let_def)
qed

lemma file_ok_pipe:
  "f_close (files st a) = Some FC_pclose \<Longrightarrow> file_ok st a \<longleftrightarrow> f_type (files st a) = DTYPE_PIPE
    \<and> (\<exists>s ss. f_fh (files st a) = FH_ss s \<and> streams st s = Some ss \<and> end_open (f_read (files st a)) ss)"
  by (auto simp: file_ok_def split: option.splits fobj.splits)

lemma file_ok_close: "file_ok st a \<Longrightarrow> \<exists>k. f_close (files st a) = Some k"
  by (cases "f_close (files st a)") (simp_all add: file_ok_def)

lemma file_ok_usock:
  "f_close (files st a) = Some FC_unp_close \<Longrightarrow> file_ok st a \<longleftrightarrow> f_type (files st a) = DTYPE_USOCKET
    \<and> (\<exists>u us. f_fh (files st a) = FH_sock u \<and> socks st u = Some us)"
  by (auto simp: file_ok_def split: fobj.splits)

lemma objs_ok_pipe_stream:
  assumes ok: "objs_ok st" and used: "set (ix_used_file_list st') \<subseteq> set (ix_used_file_list st)"
    and same: "\<And>b. b \<in> set (ix_used_file_list st') \<Longrightarrow> files st' b = files st b"
    and str: "streams st' = (streams st)(s := x)"
    and own: "pipe_of st a s"
    and rest: "\<And>b. pipe_of st' b s \<Longrightarrow> \<exists>ss1. x = Some ss1 \<and> end_open (f_read (files st b)) ss1"
    and eq: "socks st' = socks st" "ix_unix_names st' = ix_unix_names st" "length (ix_ptys st') = length (ix_ptys st)"
  shows "objs_ok st'"
proof -
  have pipes: "pipes_ok st" and sok: "sock_streams_ok st" and typed: "files_typed st" using ok by (simp_all add: objs_ok_def)
  have pipe: "pipe_of st' b t \<Longrightarrow> pipe_of st b t" for b t using same [of b] used by (auto simp: pipe_of_def)
  have old: "file_ok st b" if "b \<in> set (ix_used_file_list st')" for b using typed used that by (auto simp: files_typed_def)
  have "file_ok st' b" if b: "b \<in> set (ix_used_file_list st')" for b
  proof (cases "pipe_of st' b s")
    case True
    then have k: "f_close (files st b) = Some FC_pclose" "f_fh (files st b) = FH_ss s"
      using same [OF b] by (simp_all add: pipe_of_def)
    have "f_type (files st b) = DTYPE_PIPE" using old [OF b] file_ok_pipe [OF k(1)] by simp
    then show ?thesis
      using rest [OF True] str k file_ok_pipe [of st' b] same [OF b] by auto
  next
    case False
    show ?thesis
      using old [OF b] False b str eq unfolding file_ok_def pipe_of_def same [OF b]
      by (auto split: option.splits fclose.splits fobj.splits)
  qed
  then have "files_typed st'" by (simp add: files_typed_def)
  moreover have "pipes_ok st'"
    unfolding pipes_ok_def using pipes pipe same unfolding pipes_ok_def by (metis pipe_of_def)
  moreover have "sock_streams_ok st'"
  proof (rule sock_streamsI)
    fix u us d t b v vs e
    assume "socks st' u = Some us" and t: "stream_of us d = Some t"
    then have us: "socks st u = Some us" using eq by simp
    have "t \<noteq> s" using sock_streamsD(2) [OF sok us t, of a] own by auto
    then show "streams st' t \<noteq> None" using sock_streamsD(1) [OF sok us t] str by simp
    show "\<not> pipe_of st' b t" using sock_streamsD(2) [OF sok us t] pipe by auto
    assume "socks st' v = Some vs" "stream_of vs e = Some t"
    then show "v = u \<and> e = d" using sock_streamsD(3) [OF sok us t] eq by simp
  qed
  moreover have "sock_names_ok st' = sock_names_ok st" unfolding sock_names_ok_def eq by (rule refl)
  ultimately show ?thesis using ok eq(3) by (simp add: objs_ok_def)
qed

lemma put_stream_frames [simp]:
  "procs (put_stream s x ev st) = procs st" "files (put_stream s x ev st) = files st" "socks (put_stream s x ev st) = socks st"
  "streams (put_stream s x ev st) = (streams st)(s := x)" "ix_unix_names (put_stream s x ev st) = ix_unix_names st"
  "ix_ptys (put_stream s x ev st) = ix_ptys st" "ix_used_file_list (put_stream s x ev st) = ix_used_file_list st"
  "ix_free_file_list (put_stream s x ev st) = ix_free_file_list st"
  by (simp_all add: put_stream_def)

interpretation pc: close_contract pclose FC_pclose
proof
  fix st a
  assume ok: "objs_ok st" and d: "distinct (ix_used_file_list st)" and used: "a \<in> set (ix_used_file_list st)"
    and k: "f_close (files st a) = Some FC_pclose"
  show "\<exists>r st'. pclose a st = Ok (r, st') \<and> drops_ref a st st' \<and> objs_ok st'"
  proof (cases "f_count (files st a) = 1")
    case True
    have pipes: "pipes_ok st" and typed: "files_typed st" using ok by (simp_all add: objs_ok_def)
    obtain s ss where s: "f_fh (files st a) = FH_ss s" and ss: "streams st s = Some ss"
      using typed used file_ok_pipe [OF k] by (auto simp: files_typed_def)
    obtain ev ss' where pcl: "pclose_stream (f_read (files st a)) ss = (ev, ss')" by fastforce
    define st' where "st' = ffree a (put_stream s ss' ev (count_down a st))"
    have run: "pclose a st = Ok (0, st')"
      using True s ss pcl by (simp add: pclose_def Let_def files_count_down st'_def)
    have own: "pipe_of st a s" using used k s by (simp add: pipe_of_def)
    have "objs_ok st'"
    proof (rule objs_ok_pipe_stream [OF ok _ _ _ own, of st' ss'])
      fix b
      assume "pipe_of st' b s"
      then have b: "pipe_of st b s" "b \<noteq> a"
        using d by (auto simp: pipe_of_def st'_def files_count_down)
      then have other: "f_read (files st b) = (\<not> f_read (files st a))" using pipes own by (auto simp: pipes_ok_def)
      have "end_open (f_read (files st b)) ss"
        using typed b ss file_ok_pipe [of st b] by (auto simp: files_typed_def pipe_of_def)
      then show "\<exists>ss1. ss' = Some ss1 \<and> end_open (f_read (files st b)) ss1"
        using pclose_stream_other [OF pcl] other by simp
    qed (use d in \<open>auto simp: st'_def files_count_down\<close>)
    moreover have "drops_ref a st st'" using True by (simp add: drops_ref_def st'_def files_count_down)
    ultimately show ?thesis using run by blast
  next
    case False
    then show ?thesis using shared_close [OF ok False] by (simp add: pclose_def files_count_down Let_def)
  qed
qed

text \<open>A local socket: its own streams and name may go, what others own stays.\<close>

lemma unlink_after_fst: "map fst (unlink_after n (x # xs)) = fst x # remove1 n (map fst xs)"
  by (induction xs arbitrary: x) auto

lemma unlink_name_fst: "map fst (unlink_name n xs) = remove1 n (map fst xs)"
  by (cases xs) (auto simp: unlink_name_def unlink_after_fst)

lemma unlink_name_keeps: "m \<noteq> n \<Longrightarrow> m \<in> fst ` set xs \<Longrightarrow> m \<in> fst ` set (unlink_name n xs)"
  using unlink_name_fst [of n xs] by (metis in_set_remove1 list.set_map)

lemma sock_namesD:
  assumes "sock_names_ok st" and "socks st u = Some us" and "us_unix_name us = Some n"
  shows "n \<in> fst ` set (ix_unix_names st)" and "socks st v = Some vs \<Longrightarrow> us_unix_name vs = Some n \<Longrightarrow> v = u"
  using assms unfolding sock_names_ok_def by blast+

lemma names_ok_shrinks:
  assumes nok: "sock_names_ok st" and s: "sock_shrinks u st st'"
  shows "sock_names_ok st'"
proof -
  obtain us us' where us: "socks st u = Some us" "socks st' u = Some us'"
    and nm: "name_shrinks (us_unix_name us) (us_unix_name us') (ix_unix_names st) (ix_unix_names st')"
    and oth: "\<And>v. v \<noteq> u \<Longrightarrow> socks st' v = socks st v"
    using s by (auto simp: sock_shrinks_def)
  have dist: "distinct (map fst (ix_unix_names st))" using nok by (simp add: sock_names_ok_def)
  show ?thesis
  proof (cases "us_unix_name us' = us_unix_name us \<and> ix_unix_names st' = ix_unix_names st")
    case True
    have same: "\<exists>vs'. socks st v = Some vs' \<and> us_unix_name vs' = us_unix_name vs" if "socks st' v = Some vs" for v vs
      using that us oth [of v] True by (cases "v = u") auto
    show ?thesis
      unfolding sock_names_ok_def
    proof (intro conjI allI impI)
      show "distinct (map fst (ix_unix_names st'))" using dist True by simp
    next
      fix v vs n
      assume "socks st' v = Some vs" "us_unix_name vs = Some n"
      then obtain vs' where v: "socks st v = Some vs'" "us_unix_name vs' = Some n" using same by fastforce
      show "n \<in> fst ` set (ix_unix_names st')" using sock_namesD(1) [OF nok v] True by simp
      fix w ws
      assume "socks st' w = Some ws" "us_unix_name ws = Some n"
      then obtain ws' where w: "socks st w = Some ws'" "us_unix_name ws' = Some n" using same by fastforce
      show "w = v" using sock_namesD(2) [OF nok v w] .
    qed
  next
    case False
    then obtain m where m: "us_unix_name us = Some m" "us_unix_name us' = None"
      "ix_unix_names st' = unlink_name m (ix_unix_names st)"
      using nm by (auto simp: name_shrinks_def split: option.splits)
    have same: "v \<noteq> u \<and> socks st v = Some vs" if "socks st' v = Some vs" "us_unix_name vs = Some n" for v vs n
      using that us oth [of v] m by (cases "v = u") auto
    show ?thesis
      unfolding sock_names_ok_def
    proof (intro conjI allI impI)
      show "distinct (map fst (ix_unix_names st'))" using dist m unlink_name_fst by simp
    next
      fix v vs n
      assume vs: "socks st' v = Some vs" "us_unix_name vs = Some n"
      note v = same [OF vs]
      have "n \<noteq> m" using sock_namesD(2) [OF nok us(1) m(1)] v vs(2) by blast
      then show "n \<in> fst ` set (ix_unix_names st')"
        unfolding m(3) using sock_namesD(1) [OF nok _ vs(2)] v by (blast intro: unlink_name_keeps)
      fix w ws
      assume ws: "socks st' w = Some ws" "us_unix_name ws = Some n"
      show "w = v" using sock_namesD(2) [OF nok _ vs(2) _ ws(2)] v same [OF ws] by blast
    qed
  qed
qed

lemma streams_ok_shrinks:
  assumes sok: "sock_streams_ok st" and s: "sock_shrinks u st st'"
  shows "sock_streams_ok st'"
proof -
  obtain us us' where us: "socks st u = Some us" "socks st' u = Some us'"
    and sub: "\<And>d. stream_of us' d = None \<or> stream_of us' d = stream_of us d"
    and keep: "\<And>s. (\<And>d. stream_of us d \<noteq> Some s) \<Longrightarrow> streams st' s = streams st s"
    and live: "\<And>d s. stream_of us' d = Some s \<Longrightarrow> streams st' s \<noteq> None"
    and oth: "\<And>v. v \<noteq> u \<Longrightarrow> socks st' v = socks st v"
    and pipe: "\<And>a s. pipe_of st' a s = pipe_of st a s"
    using s by (auto simp: sock_shrinks_def pipe_of_def)
  have old: "\<exists>ws'. socks st w = Some ws' \<and> stream_of ws' d = Some t" if "socks st' w = Some ws" "stream_of ws d = Some t" for w ws d t
    using that us oth [of w] sub [of d] by (cases "w = u") auto
  show ?thesis
  proof (rule sock_streamsI)
    fix v vs d t a w ws e
    assume vs: "socks st' v = Some vs" "stream_of vs d = Some t"
    obtain vs' where v: "socks st v = Some vs'" "stream_of vs' d = Some t" using old [OF vs] by blast
    show "streams st' t \<noteq> None"
    proof (cases "v = u")
      case True
      then show ?thesis using vs us live by auto
    next
      case False
      then have "stream_of us e \<noteq> Some t" for e using sock_streamsD(3) [OF sok v us(1)] by blast
      then show ?thesis using keep sock_streamsD(1) [OF sok v] by simp
    qed
    show "\<not> pipe_of st' a t" using sock_streamsD(2) [OF sok v] pipe by simp
    assume ws: "socks st' w = Some ws" "stream_of ws e = Some t"
    obtain ws' where w: "socks st w = Some ws'" "stream_of ws' e = Some t" using old [OF ws] by blast
    show "w = v \<and> e = d" using sock_streamsD(3) [OF sok v w] .
  qed
qed

lemma objs_ok_shrinks:
  assumes ok: "objs_ok st" and s: "sock_shrinks u st st'"
  shows "objs_ok st'"
proof -
  have sok: "sock_streams_ok st" and typed: "files_typed st" and pipes: "pipes_ok st"
    using ok by (simp_all add: objs_ok_def)
  have eq: "files st' = files st" "ix_used_file_list st' = ix_used_file_list st" "ix_ptys st' = ix_ptys st"
    and socks: "\<And>v. socks st v \<noteq> None \<Longrightarrow> socks st' v \<noteq> None"
    using s by (auto simp: sock_shrinks_def)
  have pipe: "pipe_of st' a t = pipe_of st a t" for a t by (simp add: pipe_of_def eq)
  have str: "streams st' t = streams st t" if "pipe_of st a t" for a t
    using s sock_streamsD(2) [OF sok] that by (fastforce simp: sock_shrinks_def)
  have "file_ok st' a" if a: "a \<in> set (ix_used_file_list st')" for a
  proof (cases "f_close (files st a) = Some FC_pclose")
    case True
    have "file_ok st a" using typed a eq by (simp add: files_typed_def)
    then show ?thesis
      using True a str [of a] file_ok_pipe [OF True] file_ok_pipe [of st' a] by (auto simp: eq pipe_of_def)
  next
    case False
    have "file_ok st a" using typed a eq by (simp add: files_typed_def)
    then show ?thesis
      using False socks unfolding file_ok_def eq by (auto split: option.splits fclose.splits fobj.splits)
  qed
  then have "files_typed st'" by (simp add: files_typed_def)
  moreover have "pipes_ok st'" using pipes by (simp add: pipes_ok_def pipe eq)
  ultimately show ?thesis
    using ok streams_ok_shrinks [OF sok s] names_ok_shrinks [OF _ s] eq(3) by (simp add: objs_ok_def)
qed

interpretation uc: close_contract unp_close FC_unp_close
proof
  fix st a
  assume ok: "objs_ok st" and d: "distinct (ix_used_file_list st)" and used: "a \<in> set (ix_used_file_list st)"
    and k: "f_close (files st a) = Some FC_unp_close" and pos: "1 \<le> f_count (files st a)"
  have typed: "files_typed st" and sok: "sock_streams_ok st" using ok by (simp_all add: objs_ok_def)
  obtain u us where u: "f_fh (files st a) = FH_sock u" and us: "socks st u = Some us"
    using typed used file_ok_usock [OF k] by (auto simp: files_typed_def)
  have live: "sock_live u st"
    unfolding sock_live_def using us sock_streamsD(1) [OF sok us] sock_streamsD(3) [OF sok us _ us] by blast
  let ?st1 = "upd_file a (\<lambda>g. g\<lparr>f_count := f_count g - 1\<rparr>) st"
  obtain st' st2 where run: "unp_close a st = Ok (0, st')" and drop: "drops_ref a st st'"
    and s2: "sock_shrinks u ?st1 st2" and st': "st' = (if f_count (files st a) = 1 then ffree a st2 else st2)"
    using unp_close_ok [OF u live pos] by blast
  have "objs_ok ?st1" by (rule objs_ok_mono [OF ok]) (simp_all add: same_kind_def upd_file_def)
  then have ok2: "objs_ok st2" by (rule objs_ok_shrinks [OF _ s2])
  have "objs_ok (ffree a st2)"
    by (rule objs_ok_mono [OF ok2]) (auto simp: same_kind_def dest: notin_set_remove1 intro: set_remove1_subset [THEN subsetD])
  then have "objs_ok st'" using ok2 st' by simp
  then show "\<exists>r st'. unp_close a st = Ok (r, st') \<and> drops_ref a st st' \<and> objs_ok st'" using run drop by blast
qed

interpretation ac: close_contract "call_close net c" c for net c
proof
  fix st a
  assume "objs_ok st" "a \<in> set (ix_used_file_list st)" "distinct (ix_used_file_list st)"
    "f_close (files st a) = Some c" "1 \<le> f_count (files st a)"
  then show "\<exists>r st'. call_close net c a st = Ok (r, st') \<and> drops_ref a st st' \<and> objs_ok st'"
    using dc.closes mc.closes pc.closes sc.closes uc.closes by (cases c) simp_all
qed

section \<open>The calls\<close>

lemma no_parent_target: "no_parent st \<Longrightarrow> p < length (procs st) \<Longrightarrow> u_target st p = p"
  by (auto simp: no_parent_def u_target_def split: option.splits)

lemma no_parent_upd_proc:
  assumes "no_parent st" and "\<And>u. u_parent_userdata (h u) = u_parent_userdata u"
  shows "no_parent (upd_proc p h st)"
  using assms set_update_subset_insert [of "procs st" p "h (procs st ! p)"]
  by (cases "p < length (procs st)") (auto simp: no_parent_def upd_proc_def list_update_beyond)

lemma no_parent_upd_file: "no_parent st \<Longrightarrow> no_parent (upd_file a g st)"
  by (simp add: no_parent_def)

lemma no_parent_cong: "procs st' = procs st \<Longrightarrow> no_parent st \<Longrightarrow> no_parent st'"
  by (simp add: no_parent_def)

text \<open>Changes of a process record that keep its table and parent.\<close>

lemma upd_proc_frames [simp]:
  "ix_unix_names (upd_proc p h st) = ix_unix_names st" "ix_ptys (upd_proc p h st) = ix_ptys st"
  "ix_unix_names (set_slot p i y st) = ix_unix_names st" "ix_ptys (set_slot p i y st) = ix_ptys st"
  "ix_unix_names (set_errno p e st) = ix_unix_names st" "ix_ptys (set_errno p e st) = ix_ptys st"
  "ix_unix_names (upd_file a g st) = ix_unix_names st" "ix_ptys (upd_file a g st) = ix_ptys st"
  by (simp_all add: upd_proc_def set_slot_def set_errno_def upd_file_def)


lemma objs_ok_slot: "objs_ok st \<Longrightarrow> objs_ok (set_slot p i y st)"
  by (rule objs_ok_mono) (simp_all add: same_kind_def)





lemma slot_set_slot:
  assumes "p < length (procs st)" and "i < length (u_ofile (procs st ! p))"
  shows "slot (set_slot p i y st) p i = y"
  using assms by (simp add: slot_def set_slot_def upd_proc_def)




lemma slot_used:
  assumes "tables_ok st" and c: "counts_ok (\<lambda>_. 0) st" and p: "p < length (procs st)" and i: "i < NOFILE" and s: "slot st p i = Some a"
  shows "a \<in> set (ix_used_file_list st)" and "1 \<le> refs st a"
    and "j < NOFILE \<Longrightarrow> j \<noteq> i \<Longrightarrow> slot st p j = Some a \<Longrightarrow> 2 \<le> refs st a"
proof -
  have len: "length (u_ofile (procs st ! p)) = NOFILE" by (rule tables_okD(1) [OF assms(1) p])
  have r: "int (refs (set_slot p i None st) a) = int (refs st a) - 1"
    using refs_set_slot [OF p, of i None a] len i s by (simp add: slot_def)
  then show r1: "1 \<le> refs st a" by simp
  then show "a \<in> set (ix_used_file_list st)" using counts_okD(3) [OF c, of a] by auto
  show "2 \<le> refs st a" if j: "j < NOFILE" "j \<noteq> i" "slot st p j = Some a"
  proof -
    let ?s = "set_slot p i None st"
    have "slot ?s p j = Some a" "p < length (procs ?s)" "j < length (u_ofile (procs ?s ! p))"
      using j p len by (simp_all add: slot_def set_slot_ofile)
    then have "int (refs (set_slot p j None ?s) a) = int (refs ?s a) - 1"
      using refs_set_slot [of p ?s j None a] by (simp add: slot_def)
    then show ?thesis using r by simp
  qed
qed





text \<open>New files of the invariant: those in \<open>A\<close> are set up, the others are as before.\<close>

lemma objs_ok_grow:
  assumes ok: "objs_ok st" and used: "set (ix_used_file_list st') = A \<union> set (ix_used_file_list st)"
    and same: "\<And>b. b \<in> set (ix_used_file_list st) \<Longrightarrow> b \<notin> A \<and> files st' b = files st b"
    and new: "\<And>a. a \<in> A \<Longrightarrow> file_ok st' a"
    and unique: "\<And>a b s. a \<in> A \<Longrightarrow> pipe_of st' a s \<Longrightarrow> pipe_of st' b s \<Longrightarrow> f_read (files st' a) = f_read (files st' b) \<Longrightarrow> a = b"
    and sock: "\<And>a s u us d. a \<in> A \<Longrightarrow> pipe_of st' a s \<Longrightarrow> socks st u = Some us \<Longrightarrow> stream_of us d \<noteq> Some s"
    and eq: "streams st' = streams st" "socks st' = socks st" "ix_unix_names st' = ix_unix_names st" "ix_ptys st' = ix_ptys st"
  shows "objs_ok st'"
proof -
  have pipes: "pipes_ok st" and sok: "sock_streams_ok st" and typed: "files_typed st" using ok by (simp_all add: objs_ok_def)
  have old: "pipe_of st' b s \<Longrightarrow> b \<notin> A \<Longrightarrow> pipe_of st b s" for b s using used same [of b] by (auto simp: pipe_of_def)
  have "file_ok st' b" if "b \<in> set (ix_used_file_list st)" for b
    using typed that same [OF that] eq unfolding files_typed_def file_ok_def by (simp cong: option.case_cong fclose.case_cong fobj.case_cong)
  then have "files_typed st'" using new used by (auto simp: files_typed_def)
  moreover have "pipes_ok st'"
    unfolding pipes_ok_def
  proof (intro allI impI)
    fix a b s
    assume ab: "pipe_of st' a s" "pipe_of st' b s" "f_read (files st' a) = f_read (files st' b)"
    show "a = b"
    proof (cases "a \<in> A \<or> b \<in> A")
      case True
      then show ?thesis using unique [of a s b] unique [of b s a] ab by auto
    next
      case False
      then have o: "pipe_of st a s" "pipe_of st b s" using old ab by auto
      then show ?thesis using pipes ab(3) same by (simp add: pipes_ok_def pipe_of_def)
    qed
  qed
  moreover have "sock_streams_ok st'"
  proof (rule sock_streamsI)
    fix u us d s a v vs e
    assume "socks st' u = Some us" and s: "stream_of us d = Some s"
    then have us: "socks st u = Some us" using eq by simp
    show "streams st' s \<noteq> None" using sock_streamsD(1) [OF sok us s] eq by simp
    show "\<not> pipe_of st' a s" using sock_streamsD(2) [OF sok us s] old [of a s] sock [of a s, OF _ _ us] s by blast
    assume "socks st' v = Some vs" "stream_of vs e = Some s"
    then show "v = u \<and> e = d" using sock_streamsD(3) [OF sok us s] eq by simp
  qed
  moreover have "sock_names_ok st' = sock_names_ok st" unfolding sock_names_ok_def eq by (rule refl)
  ultimately show ?thesis using ok eq(4) by (simp add: objs_ok_def)
qed




lemma falloc_keeps:
  assumes ok: "tables_ok st" "counts_ok (\<lambda>_. 0) st" "no_parent st" and p: "p < length (procs st)"
    and f: "falloc p km st = (Inr (a, i), st1)"
  shows "ix_unix_names st1 = ix_unix_names st" "ix_ptys st1 = ix_ptys st" "no_parent st1"
proof -
  have tgt: "u_target st p = p" by (rule no_parent_target [OF ok(3) p])
  obtain s1 s2 where u: "ufalloc_at p 0 st = Inr (i, s1)" and tf: "take_file km s1 = Some (a, s2)"
    and st1: "st1 = upd_file a (\<lambda>f. f\<lparr>f_stb_dirty := 0, f_name := None, f_count := 1, f_type := 0, f_fh := FH_none\<rparr>)
        (set_slot p i (Some a) s2)"
    using f tgt by (auto simp: falloc_def falloc_at_def ufalloc_def split: sum.splits option.splits)
  have "\<exists>h. s1 = upd_proc p h st \<and> (\<forall>v. u_parent_userdata (h v) = u_parent_userdata v)"
    using u by (auto simp: ufalloc_at_def split: option.splits)
  then have s1: "no_parent s1" "ix_unix_names s1 = ix_unix_names st" "ix_ptys s1 = ix_ptys st"
    using no_parent_upd_proc [OF ok(3)] by auto
  have s2: "procs s2 = procs s1" "ix_unix_names s2 = ix_unix_names s1" "ix_ptys s2 = ix_ptys s1"
    using tf by (auto simp: take_file_def split: list.splits option.splits)
  show "ix_unix_names st1 = ix_unix_names st" "ix_ptys st1 = ix_ptys st" by (simp_all add: st1 s2 s1)
  show "no_parent st1" unfolding st1 set_slot_def
    by (intro no_parent_upd_file no_parent_upd_proc no_parent_cong [OF s2(1) s1(1)]) simp
qed














section \<open>Properties\<close>





text \<open>A system with one process and no open file.\<close>

definition empty_user :: user where
  "empty_user = \<lparr>u_ofile = replicate NOFILE None, u_pofile = replicate NOFILE 0, u_lastfile = -1,
     u_parent_userdata = None, u_execveclose = False, u_errno = 0\<rparr>"

definition empty_sys :: fsys where
  "empty_sys = \<lparr>files = (\<lambda>_. zero_file), ix_used_file_list = [], ix_free_file_list = [],
     streams = (\<lambda>_. None), socks = (\<lambda>_. None), ix_unix_names = [],
     ix_ptys = replicate IX_NUM_PTYS 0, procs = [empty_user], trace = []\<rparr>"

lemma empty_sys_ok: "fsys_ok empty_sys"
proof -
  have "tables_ok empty_sys" by (simp add: tables_ok_def user_ok_def empty_sys_def empty_user_def)
  moreover have "counts_ok (\<lambda>_. 0) empty_sys"
    by (rule counts_okI) (simp_all add: empty_sys_def empty_user_def refs_def count_list_0_iff)
  moreover have "objs_ok empty_sys"
    by (simp add: objs_ok_def files_typed_def pipes_ok_def sock_streams_ok_def sock_names_ok_def pipe_of_def empty_sys_def)
  moreover have "no_parent empty_sys" by (simp add: no_parent_def empty_sys_def empty_user_def)
  ultimately show ?thesis by (simp add: fsys_ok_def)
qed


text \<open>C21. \<open>close\<close> of an open descriptor frees exactly this slot, drops one reference of its file, and
  gives the file structure back exactly when no other descriptor of any process refers to it.\<close>

theorem close_effect:
  assumes ok: "fsys_ok st" and p: "p < length (procs st)" and i: "i < NOFILE" and a: "slot st p i = Some a"
    and live: "\<not> u_execveclose (procs st ! p)"
  shows "\<exists>r st'. close net p (int i) st = Ok (r, st') \<and> slot st' p i = None
    \<and> (\<forall>q j. q < length (procs st) \<longrightarrow> j < NOFILE \<longrightarrow> (q, j) \<noteq> (p, i) \<longrightarrow> slot st' q j = slot st q j)
    \<and> refs st' a = refs st a - 1
    \<and> (refs st a = 1 \<longrightarrow> a \<in> set (ix_free_file_list st') \<and> a \<notin> set (ix_used_file_list st'))
    \<and> (refs st a \<noteq> 1 \<longrightarrow> a \<in> set (ix_used_file_list st'))"
proof -
  have t: "tables_ok st" and c: "counts_ok (\<lambda>_. 0) st" and o: "objs_ok st" and n: "no_parent st"
    using ok by (simp_all add: fsys_ok_def)
  have tgt: "u_target st p = p" by (rule no_parent_target [OF n p])
  have used: "a \<in> set (ix_used_file_list st)" and ref: "1 \<le> refs st a" by (rule slot_used(1,2) [OF t c p i a])+
  let ?st1 = "set_slot p i None st"
  obtain k where k: "f_close (files st a) = Some k"
    using o used file_ok_close [of st a] by (auto simp: objs_ok_def files_typed_def)
  have t1: "tables_ok ?st1" by (rule tables_ok_set_slot [OF t p i]) simp
  have c1: "counts_ok (\<lambda>b. of_bool (b = a)) ?st1"
    by (rule counts_ok_ext [OF counts_ok_set_slot [OF c t p i]]) (use a in \<open>auto simp: slot_def\<close>)
  have o1: "objs_ok ?st1" by (rule objs_ok_slot [OF o])
  have n1: "no_parent ?st1" unfolding set_slot_def by (rule no_parent_upd_proc [OF n]) simp
  have len: "i < length (u_ofile (procs st ! p))" using tables_okD(1) [OF t p] i by simp
  have r1: "refs ?st1 a = refs st a - 1"
    using refs_set_slot [OF p len, of None a] a ref by (simp add: slot_def)
  obtain r st' where run: "call_close net k a ?st1 = Ok (r, st')" and c': "counts_ok ((\<lambda>b. of_bool (b = a))(a := 0)) st'"
    and pr: "procs st' = procs ?st1" and keep: "refs ?st1 a \<noteq> 0 \<longrightarrow> a \<in> set (ix_used_file_list st')"
      "refs ?st1 a = 0 \<longrightarrow> a \<in> set (ix_free_file_list st')"
    using ac.close_keeps [OF o1 t1 n1 c1, of a k net] used k by auto
  have "close net p (int i) st = Ok (r, st')" using run i a k tgt live by (simp add: close_def Let_def)
  moreover have "slot st' p i = None" using slot_set_slot [OF p len] pr by (simp add: slot_def)
  moreover have "slot st' q j = slot st q j" if "(q, j) \<noteq> (p, i)" for q j
    using that set_slot_ofile [OF p, of i None q] pr by (auto simp: slot_def)
  moreover have "refs st' a = refs st a - 1" using r1 refs_cong [OF pr] by simp
  ultimately show ?thesis using keep r1 ref counts_okD(6) [OF c', of a] by auto
qed

text \<open>A memory file opened as descriptor 0.\<close>

definition one_file_sys :: fsys where
  "one_file_sys = upd_file 7 (\<lambda>f. f\<lparr>f_close := Some FC_mclose\<rparr>) (snd (falloc 0 (Some 7) empty_sys))"

lemma scan_first: "0 < length xs \<Longrightarrow> P (xs ! 0) \<Longrightarrow> scan P 0 xs = Some 0"
  by (simp add: scan_Some)

lemma falloc_empty: "fst (falloc 0 (Some 7) empty_sys) = Inr (7, 0)"
  by (simp add: falloc_def falloc_at_def ufalloc_def ufalloc_at_def take_file_def empty_sys_def empty_user_def u_target_def
      scan_first NOFILE_def upd_proc_def)

lemma one_file_sys_ok:
  "fsys_ok one_file_sys" "slot one_file_sys 0 0 = Some 7" "slot one_file_sys 0 1 = None" "length (procs one_file_sys) = 1"
  "\<not> u_execveclose (procs one_file_sys ! 0)"
proof -
  obtain st1 where f: "falloc 0 (Some 7) empty_sys = (Inr (7, 0), st1)" using falloc_empty by (metis prod.collapse)
  have t: "tables_ok empty_sys" "counts_ok (\<lambda>_. 0) empty_sys" "no_parent empty_sys" "objs_ok empty_sys"
    using empty_sys_ok by (simp_all add: fsys_ok_def)
  have p: "0 < length (procs empty_sys)" by (simp add: empty_sys_def)
  have km: "\<And>a. Some 7 = Some a \<Longrightarrow> a \<notin> set (ix_used_file_list empty_sys @ ix_free_file_list empty_sys)"
    by (simp add: empty_sys_def)
  note A = falloc_ok [OF t(1,2) p km f]
  note K = falloc_keeps [OF t(1-3) p f]
  have st: "one_file_sys = upd_file 7 (\<lambda>f. f\<lparr>f_close := Some FC_mclose\<rparr>) st1" by (simp add: one_file_sys_def f)
  have "counts_ok (\<lambda>_. 0) one_file_sys" unfolding st by (rule counts_ok_cong [OF A(2)]) (auto intro: refs_cong)
  moreover have "tables_ok one_file_sys" "no_parent one_file_sys" using A(1) K(3) by (simp_all add: st tables_ok_def no_parent_def)
  moreover have "objs_ok one_file_sys"
  proof (rule objs_ok_grow [OF t(4), of _ "{7}"])
    show "file_ok one_file_sys x" if "x \<in> {7}" for x using that by (simp add: file_ok_def st)
    show "x = y" if "x \<in> {7}" "pipe_of one_file_sys x s" for x y s using that by (simp add: pipe_of_def st)
    show "stream_of us d \<noteq> Some s" if "x \<in> {7}" "pipe_of one_file_sys x s" for x s us d using that by (simp add: pipe_of_def st)
    show "x \<notin> {7} \<and> files one_file_sys x = files empty_sys x" if "x \<in> set (ix_used_file_list empty_sys)" for x
      using that by (simp add: empty_sys_def)
  qed (simp_all add: st A(4,5,12) K(1,2))
  ultimately show "fsys_ok one_file_sys" by (simp add: fsys_ok_def)
  have tgt: "u_target empty_sys 0 = 0" by (rule no_parent_target [OF t(3) p])
  show "slot one_file_sys 0 0 = Some 7" "slot one_file_sys 0 1 = None"
    using A(9) [of 0] tgt by (simp_all add: slot_def st) (simp_all add: empty_sys_def empty_user_def NOFILE_def)
  show "length (procs one_file_sys) = 1" using A(3) by (simp add: st empty_sys_def)
  show "\<not> u_execveclose (procs one_file_sys ! 0)"
    by (simp add: one_file_sys_def falloc_def falloc_at_def ufalloc_def ufalloc_at_def take_file_def empty_sys_def empty_user_def
        u_target_def scan_first NOFILE_def upd_proc_def set_slot_def upd_file_def)
qed

theorem close_effect_witness:
  "fsys_ok one_file_sys \<and> slot one_file_sys 0 0 = Some 7
   \<and> (\<exists>r st'. close 0 0 0 one_file_sys = Ok (r, st') \<and> slot st' 0 0 = None)"
proof -
  have "\<exists>r st'. close 0 0 (int 0) one_file_sys = Ok (r, st') \<and> slot st' 0 0 = None"
    using close_effect [of one_file_sys 0 0 7 0] one_file_sys_ok by (auto simp: NOFILE_def)
  then show ?thesis using one_file_sys_ok by simp
qed



text \<open>\<open>fcntl\<close> stores and returns flags faithfully: \<open>F_SETFD\<close> sets exactly the close-on-exec bit that
  \<open>F_GETFD\<close> reads back, and \<open>F_SETFL\<close> replaces exactly the settable status bits and leaves all
  others of the file alone.\<close>

theorem fcntl_flags:
  assumes ok: "fsys_ok st" and p: "p < length (procs st)" and i: "i < NOFILE" and a: "slot st p i = Some a"
  shows "(\<exists>st'. fcntl p (int i) (F_SETFD x) st = Ok (0, st') \<and> fcntl p (int i) F_GETFD st' = Ok (uint (x AND 1), st'))
    \<and> (\<exists>st'. fcntl p (int i) (F_SETFL y) st = Ok (0, st')
      \<and> f_flags (files st' a) AND FCNTLFLAGS = (y + 1) AND FCNTLFLAGS
      \<and> f_flags (files st' a) AND NOT FCNTLFLAGS = f_flags (files st a) AND NOT FCNTLFLAGS
      \<and> fcntl p (int i) F_GETFL st' = Ok (sint (f_flags (files st' a) - 1), st'))"
proof -
  have t: "tables_ok st" and n: "no_parent st" using ok by (simp_all add: fsys_ok_def)
  have tgt: "u_target st p = p" by (rule no_parent_target [OF n p])
  have len: "length (u_pofile (procs st ! p)) = NOFILE" by (rule tables_okD(2) [OF t p])
  define st1 where "st1 = upd_proc p (\<lambda>u. u\<lparr>u_pofile := (u_pofile u)[i := ((u_pofile (procs st ! p) ! i) AND NOT 1) OR (x AND 1)]\<rparr>) st"
  have bits: "(((v AND NOT 1) OR (x AND 1)) AND 1) = x AND 1" for v :: u8
    by (simp add: bit.conj_disj_distrib2 and.assoc)
  have "u_target st1 p = p" "slot st1 p i = Some a" "u_pofile (procs st1 ! p) ! i = ((u_pofile (procs st ! p) ! i) AND NOT 1) OR (x AND 1)"
    using p tgt a len i by (simp_all add: st1_def u_target_def slot_def upd_proc_def)
  then have "fcntl p (int i) F_GETFD st1 = Ok (uint (x AND 1), st1)" using i bits by (simp add: fcntl_def Let_def)
  moreover have "fcntl p (int i) (F_SETFD x) st = Ok (0, st1)" using i a tgt by (simp add: fcntl_def Let_def st1_def)
  ultimately have one: "\<exists>st'. fcntl p (int i) (F_SETFD x) st = Ok (0, st') \<and> fcntl p (int i) F_GETFD st' = Ok (uint (x AND 1), st')"
    by blast
  define st2 where "st2 = upd_file a (\<lambda>f. f\<lparr>f_flags := (f_flags f AND NOT FCNTLFLAGS) OR ((y + 1) AND FCNTLFLAGS)\<rparr>) st"
  obtain st3 where run: "fcntl p (int i) (F_SETFL y) st = Ok (0, st3)" and st3: "procs st3 = procs st" "files st3 = files st2"
    using i a tgt by (auto simp: fcntl_def Let_def st2_def)
  have get: "fcntl p (int i) F_GETFL st3 = Ok (sint (f_flags (files st3 a) - 1), st3)"
    using i a tgt st3(1) by (simp add: fcntl_def Let_def u_target_def slot_def)
  have fl: "f_flags (files st3 a) = (f_flags (files st a) AND NOT FCNTLFLAGS) OR ((y + 1) AND FCNTLFLAGS)"
    by (simp add: st3 st2_def)
  have "f_flags (files st3 a) AND FCNTLFLAGS = (y + 1) AND FCNTLFLAGS"
    "f_flags (files st3 a) AND NOT FCNTLFLAGS = f_flags (files st a) AND NOT FCNTLFLAGS"
    unfolding fl by (simp_all add: bit.conj_disj_distrib2 and.assoc)
  then have "\<exists>st'. fcntl p (int i) (F_SETFL y) st = Ok (0, st')
      \<and> f_flags (files st' a) AND FCNTLFLAGS = (y + 1) AND FCNTLFLAGS
      \<and> f_flags (files st' a) AND NOT FCNTLFLAGS = f_flags (files st a) AND NOT FCNTLFLAGS
      \<and> fcntl p (int i) F_GETFL st' = Ok (sint (f_flags (files st' a) - 1), st')"
    using run get by blast
  with one show ?thesis by blast
qed

theorem fcntl_flags_witness:
  "fsys_ok one_file_sys \<and> slot one_file_sys 0 0 = Some 7
   \<and> (\<exists>st'. fcntl 0 0 (F_SETFD 3) one_file_sys = Ok (0, st') \<and> fcntl 0 0 F_GETFD st' = Ok (1, st'))"
  using fcntl_flags [of one_file_sys 0 0 7 3] one_file_sys_ok by (simp add: NOFILE_def)

text \<open>A process with one free descriptor left, and a file structure on the free list.\<close>

definition near_full_sys :: fsys where
  "near_full_sys = empty_sys\<lparr>ix_used_file_list := [7], ix_free_file_list := [9],
     files := (\<lambda>_. zero_file)(7 := zero_file\<lparr>f_count := 511, f_close := Some FC_mclose\<rparr>),
     procs := [empty_user\<lparr>u_ofile := replicate 511 (Some 7) @ [None], u_lastfile := 510\<rparr>]\<rparr>"

lemma near_full_ok: "fsys_ok near_full_sys"
proof -
  have cl: "count_list (replicate n x) y = (if x = y then n else 0)" for n and x y :: "addr option" by (induction n) auto
  have "tables_ok near_full_sys"
    by (auto simp: tables_ok_def user_ok_def near_full_sys_def empty_user_def NOFILE_def nth_append split: if_splits)
  moreover have "counts_ok (\<lambda>_. 0) near_full_sys"
    by (rule counts_okI) (auto simp: near_full_sys_def refs_def cl split: if_splits)
  moreover have "objs_ok near_full_sys"
    by (auto simp: objs_ok_def files_typed_def pipes_ok_def sock_streams_ok_def sock_names_ok_def pipe_of_def near_full_sys_def
        empty_sys_def file_ok_def zero_file_def)
  moreover have "no_parent near_full_sys" by (simp add: no_parent_def near_full_sys_def empty_user_def)
  ultimately show ?thesis by (simp add: fsys_ok_def)
qed

text \<open>When \<open>pipe\<close> gets the last descriptor for its first end and none for the second, it gives the
  file structure back but leaves it in the descriptor table: the descriptor then refers to a
  structure on the free list.\<close>

theorem pipe_emfile_dangling:
  "\<exists>st. fsys_ok st \<and> (\<exists>pv st'. pipe (Some 50) [] None None 0 st = (-1, pv, st')
     \<and> slot st' 0 511 = Some 9 \<and> 9 \<in> set (ix_free_file_list st') \<and> 9 \<notin> set (ix_used_file_list st') \<and> \<not> fsys_ok st')"
proof -
  define st0 where "st0 = near_full_sys\<lparr>streams := (streams near_full_sys)(50 := Some (init_stream []))\<rparr>"
  define s1 where "s1 = upd_proc 0 (\<lambda>u. u\<lparr>u_pofile := (u_pofile u)[511 := 0],
      u_lastfile := if int 511 > u_lastfile u then int 511 else u_lastfile u\<rparr>) st0"
  define s2 where "s2 = s1\<lparr>ix_free_file_list := [], ix_used_file_list := [9, 7]\<rparr>"
  define st1 where "st1 = upd_file 9 (\<lambda>f. f\<lparr>f_stb_dirty := 0, f_name := None, f_count := 1, f_type := 0, f_fh := FH_none\<rparr>)
      (set_slot 0 511 (Some 9) s2)"
  have p0: "procs st0 = [empty_user\<lparr>u_ofile := replicate 511 (Some 7) @ [None], u_lastfile := 510\<rparr>]"
    by (simp add: st0_def near_full_sys_def)
  have tgt: "u_target st0 0 = 0" by (simp add: u_target_def p0 empty_user_def)
  have "scan (\<lambda>x. x = None) 0 (replicate 511 (Some (7 :: addr)) @ [None]) = Some 511"
    by (auto simp: scan_Some nth_append)
  then have "ufalloc 0 0 st0 = Inr (511, s1)" by (simp add: ufalloc_def tgt ufalloc_at_def p0 s1_def)
  moreover have "take_file None s1 = Some (9, s2)"
    by (simp add: take_file_def s1_def s2_def st0_def near_full_sys_def upd_proc_def)
  ultimately have f1: "falloc 0 None st0 = (Inr (9, 511), st1)" by (simp add: falloc_def falloc_at_def tgt st1_def)
  have s1: "u_ofile (procs st1 ! 0) = (replicate 511 (Some 7) @ [None])[511 := Some 9]"
    "u_parent_userdata (procs st1 ! 0) = None" "ix_used_file_list st1 = [9, 7]" "ix_free_file_list st1 = []" "length (procs st1) = 1"
    by (simp_all add: st1_def s2_def s1_def set_slot_def upd_proc_def p0) (simp add: empty_user_def)
  have "scan (\<lambda>x. x = None) 0 (u_ofile (procs st1 ! 0)) = None"
    unfolding s1(1) by (auto simp: scan_None nth_append nth_list_update)
  then have f2: "falloc 0 None st1 = (Inl EMFILE, st1)"
    using s1(2) by (simp add: falloc_def falloc_at_def ufalloc_def ufalloc_at_def u_target_def)
  define st' where "st' = set_errno 0 EMFILE ((ffree 9 (upd_file 9 (\<lambda>f. f\<lparr>f_count := 0\<rparr>) st1))\<lparr>streams := (streams st1)(50 := None)\<rparr>)"
  have run: "pipe (Some 50) [] None None 0 near_full_sys = (-1, None, st')"
    using f1 f2 by (simp add: pipe_def Let_def st0_def [symmetric] st'_def)
  have l: "ix_free_file_list st' = [9]" "ix_used_file_list st' = [7]" "length (procs st') = 1" "slot st' 0 511 = Some 9"
    using s1 by (simp_all add: st'_def slot_def set_errno_def upd_proc_def)
  have "\<not> fsys_ok st'"
    using slot_used(1) [of st' 0 511 9] l by (auto simp: fsys_ok_def NOFILE_def)
  then show ?thesis using near_full_ok run l by (intro exI [of _ near_full_sys]) auto
qed

end
