(* ===== verification/Ix_Socket.thy ===== *)
theory Ix_Socket
  imports Ix_Fd_Safety
begin

text \<open>
  Connections of local sockets end to end: the hand-shake of \<open>unp_connect\<close> and \<open>unp_accept\<close>, the
  transfer of bytes between the two sides, and what closing leaves behind.
\<close>

section \<open>Hand-shake\<close>










section \<open>Properties\<close>


text \<open>One process with an idle socket (descriptor 0) and a listening one (descriptor 1).\<close>

definition chat_sys :: fsys where
  "chat_sys = empty_sys\<lparr>ix_used_file_list := [20, 21],
     files := (\<lambda>_. zero_file)(20 := set_socket_params AF_UNIX (zero_file\<lparr>f_count := 1, f_fh := FH_sock 120\<rparr>),
                              21 := set_socket_params AF_UNIX (zero_file\<lparr>f_count := 1, f_fh := FH_sock 121\<rparr>)),
     socks := [120 \<mapsto> new_socket, 121 \<mapsto> new_socket\<lparr>us_path := ''s'', us_unix_name := Some 300\<rparr>],
     ix_unix_names := [(300, \<lparr>un_path = ''s'', un_queue_size = 1, un_queue = [], un_task = None\<rparr>)],
     procs := [empty_user\<lparr>u_ofile := Some 20 # Some 21 # replicate 510 None, u_lastfile := 1\<rparr>]\<rparr>"

lemma chat_sys_ok: "fsys_ok chat_sys"
proof -
  have cl: "count_list (replicate n None) (Some a) = 0" for n and a :: addr by (induction n) auto
  have "int i \<le> 1" if "i < 512" "(Some 20 # Some 21 # replicate 510 None) ! i = Some (y :: addr)" for i y
    using that by (cases i; cases "i - 1") auto
  then have "tables_ok chat_sys"
    by (auto simp: tables_ok_def user_ok_def chat_sys_def empty_user_def NOFILE_def)
  moreover have "counts_ok (\<lambda>_. 0) chat_sys"
    by (rule counts_okI) (auto simp: chat_sys_def empty_sys_def refs_def cl set_socket_params_def split: if_splits)
  moreover have "objs_ok chat_sys"
  proof -
    have "files_typed chat_sys"
      by (auto simp: files_typed_def file_ok_def chat_sys_def set_socket_params_def)
    moreover have np: "\<not> pipe_of chat_sys a t" for a t
      by (auto simp: pipe_of_def chat_sys_def set_socket_params_def zero_file_def)
    moreover have "sock_streams_ok chat_sys"
      by (auto simp: sock_streams_ok_def chat_sys_def new_socket_def stream_of_def split: if_splits)
    moreover have "sock_names_ok chat_sys"
      by (auto simp: sock_names_ok_def chat_sys_def new_socket_def split: if_splits)
    ultimately show ?thesis by (simp add: objs_ok_def pipes_ok_def) (simp add: chat_sys_def empty_sys_def)
  qed
  moreover have "no_parent chat_sys" by (simp add: no_parent_def chat_sys_def empty_user_def)
  ultimately show ?thesis by (simp add: fsys_ok_def)
qed


text \<open>\<open>unp_close\<close>, also the last close of the last descriptor, never frees the socket structure: the
  call passes \<open>from_close = FALSE\<close>, which disables the code that would.\<close>

theorem unp_close_keeps_socket:
  assumes "fsys_ok st" and "f \<in> set (ix_used_file_list st)" and "f_close (files st f) = Some FC_unp_close"
    and "f_fh (files st f) = FH_sock u"
  shows "\<exists>st'. unp_close f st = Ok (0, st') \<and> socks st' u \<noteq> None
    \<and> (f_count (files st f) = 1 \<longrightarrow> f \<in> set (ix_free_file_list st'))"
proof -
  have o: "objs_ok st" and c: "counts_ok (\<lambda>_. 0) st" using assms(1) by (simp_all add: fsys_ok_def)
  have sok: "sock_streams_ok st" using o by (simp add: objs_ok_def)
  have "file_ok st f" using o assms(2) by (simp add: objs_ok_def files_typed_def)
  then obtain us where us: "socks st u = Some us" using file_ok_usock [OF assms(3)] assms(4) by auto
  have live: "sock_live u st"
    unfolding sock_live_def using us sock_streamsD(1) [OF sok us] sock_streamsD(3) [OF sok us _ us] by blast
  have pos: "1 \<le> f_count (files st f)" using counts_okD(2) [OF c assms(2)] by simp
  obtain st' st2 where run: "unp_close f st = Ok (0, st')"
    and s2: "sock_shrinks u (upd_file f (\<lambda>g. g\<lparr>f_count := f_count g - 1\<rparr>) st) st2"
    and st': "st' = (if f_count (files st f) = 1 then ffree f st2 else st2)"
    using unp_close_ok [OF assms(4) live pos] by blast
  have "socks st2 u \<noteq> None" using s2 by (auto simp: sock_shrinks_def)
  then show ?thesis using run st' by (auto simp: ffree_def)
qed

theorem unp_close_keeps_socket_witness:
  "fsys_ok chat_sys \<and> f_count (files chat_sys 20) = 1
   \<and> (\<exists>st'. unp_close 20 chat_sys = Ok (0, st') \<and> socks st' 120 \<noteq> None \<and> 20 \<in> set (ix_free_file_list st'))"
proof -
  have f: "20 \<in> set (ix_used_file_list chat_sys)" "f_close (files chat_sys 20) = Some FC_unp_close"
    "f_fh (files chat_sys 20) = FH_sock 120" "f_count (files chat_sys 20) = 1"
    by (simp_all add: chat_sys_def set_socket_params_def)
  show ?thesis using unp_close_keeps_socket [OF chat_sys_ok f(1-3)] f(4) chat_sys_ok by auto
qed

section \<open>Transfer\<close>






end
