(* ===== verification/Ix_Ipc.thy ===== *)
theory Ix_Ipc
  imports Ix_Prelude
begin

text \<open>
  What the three System V facilities share: \<open>struct ipc_perm\<close> and the identifier macros of
  \<open>include/sys/ipc.h\<close>, and the permission check of \<open>library/ipc.c\<close>.  The semaphores report an
  error with \<open>errno_return(-1, E)\<close>; as the macro of \<open>library/ixemul.h\<close> takes the error number
  first, this stores \<open>-1\<close> in \<open>errno\<close> and returns \<open>E\<close>.
\<close>

record ipc_perm =
  cuid :: u16
  cgid :: u16
  uid :: u16
  gid :: u16
  mode :: u16
  seq :: u16
  key :: int

record ucred =
  cr_uid :: u16
  cr_gid :: u16

definition IPCID_TO_IX :: "int \<Rightarrow> int" where
  "IPCID_TO_IX i = i AND 0xffff"

definition IPCID_TO_SEQ :: "int \<Rightarrow> int" where
  "IPCID_TO_SEQ i = drop_bit 16 i AND 0xffff"

definition IXSEQ_TO_IPCID :: "int \<Rightarrow> ipc_perm \<Rightarrow> int" where
  "IXSEQ_TO_IPCID ix perm = s32 (push_bit 16 (uint (seq perm)) OR (ix AND 0xffff))"

abbreviation (input) IPC_PRIVATE :: int where "IPC_PRIVATE \<equiv> 0"
abbreviation (input) IPC_CREAT :: int where "IPC_CREAT \<equiv> 0x200"
abbreviation (input) IPC_EXCL :: int where "IPC_EXCL \<equiv> 0x400"
abbreviation (input) IPC_NOWAIT :: u16 where "IPC_NOWAIT \<equiv> 0x800"
abbreviation (input) IPC_R :: int where "IPC_R \<equiv> 0x100"
abbreviation (input) IPC_W :: int where "IPC_W \<equiv> 0x80"
abbreviation (input) IPC_M :: int where "IPC_M \<equiv> 0x1000"

text \<open>\<open>IPC_PERM_ALWAYS_SUCCEED\<close> is defined.\<close>

definition ipcperm :: "ucred \<Rightarrow> ipc_perm \<Rightarrow> int \<Rightarrow> int" where
  "ipcperm cred perm m = 0"

definition zero_perm :: ipc_perm where
  "zero_perm = \<lparr>cuid = 0, cgid = 0, uid = 0, gid = 0, mode = 0, seq = 0, key = 0\<rparr>"

lemma ipcid_ix_mod: "IPCID_TO_IX i = i mod 65536"
  unfolding IPCID_TO_IX_def using take_bit_eq_mask [of 16 i] by (simp add: take_bit_eq_mod mask_eq_exp_minus_1)

lemma ipcid_seq_div: "IPCID_TO_SEQ i = i div 65536 mod 65536"
  unfolding IPCID_TO_SEQ_def using take_bit_eq_mask [of 16 "drop_bit 16 i"]
  by (simp add: take_bit_eq_mod mask_eq_exp_minus_1 drop_bit_eq_div)

lemma ipcid_ix_bounds: "0 \<le> IPCID_TO_IX i" "IPCID_TO_IX i < 65536"
  by (simp_all add: ipcid_ix_mod)

text \<open>The sequence number of an index is zero: the high half has been cut off.\<close>

lemma ipcid_seq_ix: "IPCID_TO_SEQ (IPCID_TO_IX i) = 0"
  by (simp add: ipcid_ix_mod ipcid_seq_div)

lemma ipcid_round:
  assumes "0 \<le> ix" "ix < 65536" "uint (seq perm) < 2 ^ 15"
  shows "IXSEQ_TO_IPCID ix perm = uint (seq perm) * 65536 + ix"
    and "IPCID_TO_IX (IXSEQ_TO_IPCID ix perm) = ix"
    and "IPCID_TO_SEQ (IXSEQ_TO_IPCID ix perm) = uint (seq perm)"
proof -
  have ix: "ix AND 0xffff = ix" using ipcid_ix_mod [of ix] assms by (simp add: IPCID_TO_IX_def)
  have "take_bit 16 ix = ix" using assms by (simp add: take_bit_int_eq_self)
  then have "push_bit 16 (uint (seq perm)) AND ix = push_bit 16 (uint (seq perm)) AND take_bit 16 ix" by simp
  also have "\<dots> = 0" by (rule bit_eqI) (auto simp: bit_simps)
  finally have "push_bit 16 (uint (seq perm)) OR ix = uint (seq perm) * 65536 + ix"
    by (simp add: disjunctive_add_eq_or [symmetric] push_bit_eq_mult)
  moreover have "s32 (uint (seq perm) * 65536 + ix) = uint (seq perm) * 65536 + ix"
  proof (rule s32_id)
    show "- (2 ^ 31) \<le> uint (seq perm) * 65536 + ix" by (rule order_trans [of _ 0]) (use assms in simp_all)
    show "uint (seq perm) * 65536 + ix < 2 ^ 31" using assms by simp
  qed
  ultimately show r: "IXSEQ_TO_IPCID ix perm = uint (seq perm) * 65536 + ix" using ix by (simp add: IXSEQ_TO_IPCID_def)
  show "IPCID_TO_IX (IXSEQ_TO_IPCID ix perm) = ix" "IPCID_TO_SEQ (IXSEQ_TO_IPCID ix perm) = uint (seq perm)"
    using assms by (simp_all add: r ipcid_ix_mod ipcid_seq_div)
qed

end
