(* ===== verification/Ix_Sem.thy ===== *)
theory Ix_Sem
  imports Ix_Ipc
begin

text \<open>
  System V semaphores: \<open>library/sysv_sem.c\<close> with \<open>include/sys/sem.h\<close>.  The pools \<open>sema\<close>, \<open>sem\<close>
  and \<open>semu\<close> are lists of fixed length; \<open>sem_base\<close> is an index into the pool \<open>sem\<close>, and the chain
  \<open>semu_list\<close> the list of the indices of the active undo structures.  An undo structure carries
  its active entries \<open>un_ent[0 .. un_cnt - 1]\<close>.  The operations run under \<open>Forbid\<close>, so each piece
  of code between two sleeps is one function; a call that goes to sleep returns what it waits for,
  and what runs after the sleep is a function of its own.
\<close>

abbreviation (input) SEMMNI :: nat where "SEMMNI \<equiv> 10"
abbreviation (input) SEMMNS :: nat where "SEMMNS \<equiv> 60"
abbreviation (input) SEMMSL :: nat where "SEMMSL \<equiv> 60"
abbreviation (input) SEMUME :: nat where "SEMUME \<equiv> 10"
abbreviation (input) SEMMNU :: nat where "SEMMNU \<equiv> 30"
abbreviation (input) MAX_SOPS :: nat where "MAX_SOPS \<equiv> 5"
abbreviation (input) SEM_ALLOC :: u16 where "SEM_ALLOC \<equiv> 0x200"
abbreviation (input) SEM_UNDO :: u16 where "SEM_UNDO \<equiv> 0x1000"

section \<open>Data\<close>

record sem =
  semval :: u16
  sempid :: nat
  semncnt :: u16
  semzcnt :: u16

record semid_ds =
  sem_perm :: ipc_perm
  sem_base :: nat
  sem_nsems :: u16
  sem_otime :: int
  sem_ctime :: int

record sembuf =
  sem_num :: u16
  sem_op :: u16
  sem_flg :: u16

record undo =
  un_adjval :: u16
  un_num :: int
  un_id :: int

record sem_undo =
  un_proc :: "nat option"
  un_ent :: "undo list"

datatype sem_event = WakeSet nat | WakeLock

record sem_sys =
  sema :: "semid_ds list"
  sem_pool :: "sem list"
  semtot :: int
  semu :: "sem_undo list"
  semu_list :: "nat list"
  semlock_holder :: "nat option"
  sem_errno :: int
  sem_trace :: "sem_event list"

text \<open>What a sleeping \<open>semop\<close> keeps: \<open>semid\<close>, \<open>sops\<close>, \<open>sopptr\<close>, \<open>semptr\<close> and \<open>do_undos\<close>.\<close>

record sem_wait =
  w_semid :: nat
  w_sops :: "sembuf list"
  w_sop :: sembuf
  w_semptr :: nat
  w_undos :: bool

datatype sem_out = SemRet int sem_sys | SemLockWait sem_sys | SemSleep sem_wait sem_sys

definition zero_sem :: sem where
  "zero_sem = \<lparr>semval = 0, sempid = 0, semncnt = 0, semzcnt = 0\<rparr>"

definition sem_allocated :: "semid_ds \<Rightarrow> bool" where
  "sem_allocated ds \<longleftrightarrow> mode (sem_perm ds) AND SEM_ALLOC \<noteq> 0"

definition sem_error :: "int \<Rightarrow> sem_sys \<Rightarrow> sem_out exec" where
  "sem_error e st = Ok (SemRet e (st\<lparr>sem_errno := -1\<rparr>))"

definition sem_wakeup :: "sem_event \<Rightarrow> sem_sys \<Rightarrow> sem_sys" where
  "sem_wakeup e st = st\<lparr>sem_trace := sem_trace st @ [e]\<rparr>"

definition sem_blocked :: "nat \<Rightarrow> sem_sys \<Rightarrow> bool" where
  "sem_blocked p st \<longleftrightarrow> semlock_holder st \<noteq> None \<and> semlock_holder st \<noteq> Some p"

definition seminit :: "sem_sys \<Rightarrow> sem_sys" where
  "seminit st = st\<lparr>sema := map (\<lambda>ds. ds\<lparr>sem_base := 0, sem_perm := (sem_perm ds)\<lparr>mode := 0\<rparr>\<rparr>) (sema st),
     semu := map (\<lambda>su. su\<lparr>un_proc := None\<rparr>) (semu st), semu_list := []\<rparr>"

section \<open>Undo structures\<close>

text \<open>\<open>semu_alloc\<close>: the scan for a free structure, and the purge of empty ones between the two
  attempts.\<close>

definition semu_take :: "nat \<Rightarrow> sem_sys \<Rightarrow> (nat \<times> sem_sys) option" where
  "semu_take p st =
     (case scan (\<lambda>su. un_proc su = None) 0 (semu st) of
        None \<Rightarrow> None
      | Some i \<Rightarrow> Some (i, st\<lparr>semu := (semu st)[i := \<lparr>un_proc = Some p, un_ent = []\<rparr>], semu_list := i # semu_list st\<rparr>))"

fun semu_purge :: "nat list \<Rightarrow> sem_undo list \<Rightarrow> nat list \<times> sem_undo list" where
  "semu_purge [] us = ([], us)"
| "semu_purge (k # ks) us =
     (if un_ent (us ! k) = [] then semu_purge ks (us[k := (us ! k)\<lparr>un_proc := None\<rparr>])
      else case semu_purge ks us of (ks', us') \<Rightarrow> (k # ks', us'))"

definition semu_alloc :: "nat \<Rightarrow> sem_sys \<Rightarrow> (nat option \<times> sem_sys) exec" where
  "semu_alloc p st =
     (case semu_take p st of
        Some (i, st1) \<Rightarrow> Ok (Some i, st1)
      | None \<Rightarrow>
          let (ks, us) = semu_purge (semu_list st) (semu st) in
          if length ks = length (semu_list st) then Ok (None, st)
          else (case semu_take p (st\<lparr>semu_list := ks, semu := us\<rparr>) of
                  Some (i, st1) \<Rightarrow> Ok (Some i, st1)
                | None \<Rightarrow> Panic ''semu_alloc - second attempt failed''))"

definition undo_of :: "nat \<Rightarrow> sem_sys \<Rightarrow> nat option" where
  "undo_of p st = List.find (\<lambda>k. un_proc (semu st ! k) = Some p) (semu_list st)"

text \<open>Removal of entry \<open>i\<close>: the last entry takes its place.\<close>

definition del_ent :: "nat \<Rightarrow> undo list \<Rightarrow> undo list" where
  "del_ent i es = (let n = length es - 1 in if i < n then (take n es)[i := es ! n] else take n es)"

definition adjust_ents :: "int \<Rightarrow> int \<Rightarrow> int \<Rightarrow> undo list \<Rightarrow> int \<times> undo list" where
  "adjust_ents semid semnum adjval es =
     (case scan (\<lambda>e. \<not> (un_id e \<noteq> semid \<or> un_num e \<noteq> semnum)) 0 es of
        Some i \<Rightarrow>
          let v = (if adjval = 0 then 0 else un_adjval (es ! i) + word_of_int adjval);
              es1 = es[i := (es ! i)\<lparr>un_adjval := v\<rparr>]
          in (0, if v = 0 then del_ent i es1 else es1)
      | None \<Rightarrow>
          if adjval = 0 then (0, es)
          else if length es = SEMUME then (EINVAL, es)
          else (0, es @ [\<lparr>un_adjval = word_of_int adjval, un_num = s16 semnum, un_id = semid\<rparr>]))"

definition semundo_adjust ::
    "nat \<Rightarrow> nat option \<Rightarrow> int \<Rightarrow> int \<Rightarrow> int \<Rightarrow> sem_sys \<Rightarrow> (int \<times> nat option \<times> sem_sys) exec" where
  "semundo_adjust p supptr semid semnum adjval st =
     (let found = (if supptr = None then undo_of p st else supptr) in
      if found = None \<and> adjval = 0 then Ok (0, supptr, st)
      else exec_bind (if found = None then semu_alloc p st else Ok (found, st)) (\<lambda>(supptr', st1).
        case supptr' of
          None \<Rightarrow> Ok (ENOSPC, supptr, st1)
        | Some k \<Rightarrow>
            (case adjust_ents semid semnum adjval (un_ent (semu st1 ! k)) of
               (e, es) \<Rightarrow> Ok (e, Some k, st1\<lparr>semu := (semu st1)[k := (semu st1 ! k)\<lparr>un_ent := es\<rparr>]\<rparr>))))"

text \<open>\<open>semundo_clear\<close> on one structure, from entry \<open>i\<close> on.\<close>

function clear_ents :: "int \<Rightarrow> int \<Rightarrow> nat \<Rightarrow> undo list \<Rightarrow> undo list" where
  "clear_ents semid semnum i es =
     (if i < length es then
        if un_id (es ! i) = semid then
          if semnum = -1 then
            clear_ents semid semnum (if i < length es - 1 then i else Suc i) (del_ent i es)
          else if un_num (es ! i) = semnum then del_ent i es
          else es
        else clear_ents semid semnum (Suc i) es
      else es)"
  by pat_completeness auto
termination
  by (relation "measure (\<lambda>(a, b, i, es). 2 * length es - i)") (auto simp: del_ent_def Let_def)

declare clear_ents.simps [simp del]

definition semundo_clear :: "int \<Rightarrow> int \<Rightarrow> sem_sys \<Rightarrow> sem_sys" where
  "semundo_clear semid semnum st =
     st\<lparr>semu := fold (\<lambda>k us. us[k := (us ! k)\<lparr>un_ent := clear_ents semid semnum 0 (un_ent (us ! k))\<rparr>])
                  (semu_list st) (semu st)\<rparr>"

section \<open>\<open>semget\<close>\<close>

definition semget_found :: "nat \<Rightarrow> sem_sys \<Rightarrow> sem_out exec" where
  "semget_found i st = Ok (SemRet (IXSEQ_TO_IPCID (int i) (sem_perm (sema st ! i))) st)"

definition semget_create :: "ucred \<Rightarrow> int \<Rightarrow> int \<Rightarrow> int \<Rightarrow> int \<Rightarrow> sem_sys \<Rightarrow> sem_out exec" where
  "semget_create cred now k nsems semflg st =
     (if nsems \<le> 0 \<or> nsems > int SEMMSL then sem_error EINVAL st
      else if nsems > int SEMMNS - semtot st then sem_error ENOSPC st
      else case scan (\<lambda>ds. \<not> sem_allocated ds) 0 (sema st) of
        None \<Rightarrow> sem_error ENOSPC st
      | Some i \<Rightarrow>
          let old = sema st ! i; t = nat (semtot st); n = nat nsems;
              perm = \<lparr>cuid = cr_uid cred, cgid = cr_gid cred, uid = cr_uid cred, gid = cr_gid cred,
                      mode = (word_of_int semflg AND 0x1ff) OR SEM_ALLOC, seq = (seq (sem_perm old) + 1) AND 0x7fff, key = k\<rparr>;
              ds = \<lparr>sem_perm = perm, sem_base = t, sem_nsems = word_of_int nsems, sem_otime = 0, sem_ctime = now\<rparr>
          in semget_found i (st\<lparr>sema := (sema st)[i := ds], semtot := semtot st + nsems,
               sem_pool := take t (sem_pool st) @ replicate n zero_sem @ drop (t + n) (sem_pool st)\<rparr>))"

definition semget :: "ucred \<Rightarrow> int \<Rightarrow> nat \<Rightarrow> int \<Rightarrow> int \<Rightarrow> int \<Rightarrow> sem_sys \<Rightarrow> sem_out exec" where
  "semget cred now p k nsems semflg st =
     (if sem_blocked p st then Ok (SemLockWait st)
      else case (if k \<noteq> IPC_PRIVATE then scan (\<lambda>ds. sem_allocated ds \<and> key (sem_perm ds) = k) 0 (sema st) else None) of
        Some i \<Rightarrow>
          let ds = sema st ! i; eval = ipcperm cred (sem_perm ds) (semflg AND 0x1c0) in
          if eval \<noteq> 0 then sem_error eval st
          else if nsems > 0 \<and> uint (sem_nsems ds) < nsems then sem_error EINVAL st
          else if semflg AND IPC_CREAT \<noteq> 0 \<and> semflg AND IPC_EXCL \<noteq> 0 then sem_error EEXIST st
          else semget_found i st
      | None \<Rightarrow>
          if k = IPC_PRIVATE \<or> semflg AND IPC_CREAT \<noteq> 0 then semget_create cred now k nsems semflg st
          else sem_error ENOENT st)"

section \<open>\<open>semctl\<close>\<close>

datatype semctl_cmd = C_RMID | C_SET ipc_perm | C_STAT | GETNCNT | GETPID | GETVAL | GETALL | GETZCNT
  | SETVAL int | SETALL "nat \<Rightarrow> u16" | SEMLCK | SEMUNLK | C_other

datatype semctl_data = NoData | StatData semid_ds | AllData "u16 list"

definition on_sem :: "semid_ds \<Rightarrow> nat \<Rightarrow> sem_sys \<Rightarrow> (nat \<Rightarrow> 'a exec) \<Rightarrow> 'a exec" where
  "on_sem ds num st f = (if sem_base ds + num < length (sem_pool st) then f (sem_base ds + num) else Wild)"

definition upd_sem :: "nat \<Rightarrow> (sem \<Rightarrow> sem) \<Rightarrow> sem_sys \<Rightarrow> sem_sys" where
  "upd_sem k f st = st\<lparr>sem_pool := (sem_pool st)[k := f (sem_pool st ! k)]\<rparr>"

text \<open>\<open>IPC_RMID\<close> closes the gap in the pool and moves the sets above it down.\<close>

definition sem_rmid :: "ucred \<Rightarrow> nat \<Rightarrow> sem_sys \<Rightarrow> sem_sys" where
  "sem_rmid cred i st =
     (let ds = sema st ! i; n = unat (sem_nsems ds); tot = semtot st - int n;
          pool = fold (\<lambda>j pool. pool[j := pool ! (j + n)]) [sem_base ds..<nat tot] (sem_pool st);
          tab = (sema st)[i := ds\<lparr>sem_perm := (sem_perm ds)\<lparr>cuid := cr_uid cred, uid := cr_uid cred\<rparr>\<rparr>];
          tab1 = map (\<lambda>d. if sem_allocated d \<and> sem_base d > sem_base ds then d\<lparr>sem_base := sem_base d - n\<rparr> else d) tab;
          tab2 = tab1[i := (tab1 ! i)\<lparr>sem_perm := (sem_perm (tab1 ! i))\<lparr>mode := 0\<rparr>\<rparr>]
      in sem_wakeup (WakeSet i) (semundo_clear (int i) (-1) (st\<lparr>semtot := tot, sem_pool := pool, sema := tab2\<rparr>)))"

definition sem_setall :: "semid_ds \<Rightarrow> (nat \<Rightarrow> u16) \<Rightarrow> sem_sys \<Rightarrow> sem_sys" where
  "sem_setall ds v st = fold (\<lambda>j. upd_sem (sem_base ds + j) (\<lambda>s. s\<lparr>semval := v j\<rparr>)) [0..<unat (sem_nsems ds)] st"

definition ix_semctl ::
    "ucred \<Rightarrow> int \<Rightarrow> int \<Rightarrow> int \<Rightarrow> semctl_cmd \<Rightarrow> sem_sys \<Rightarrow> (semctl_data \<times> sem_out) exec" where
  "ix_semctl cred now semid0 semnum cmd st =
     (let semid = IPCID_TO_IX semid0; i = nat semid;
          err = (\<lambda>e. exec_bind (sem_error e st) (\<lambda>r. Ok (NoData, r)));
          ret = (\<lambda>v st'. Ok (NoData, SemRet v st')) in
      if semid < 0 \<or> semid \<ge> int SEMMSL then err EINVAL
      else if i \<ge> length (sema st) then Wild
      else
        let ds = sema st ! i; n = unat (sem_nsems ds); num = nat semnum;
            checked = (\<lambda>m act. let eval = ipcperm cred (sem_perm ds) m in if eval \<noteq> 0 then err eval else act);
            numbered = (\<lambda>m act. checked m (if semnum < 0 \<or> semnum \<ge> int n then err EINVAL else on_sem ds num st act)) in
        if \<not> sem_allocated ds \<or> uint (seq (sem_perm ds)) \<noteq> IPCID_TO_SEQ semid then err EINVAL
        else case cmd of
          C_RMID \<Rightarrow> checked IPC_M (if nat (semtot st) > length (sem_pool st) then Wild else ret 0 (sem_rmid cred i st))
        | C_SET buf \<Rightarrow> checked IPC_M (ret 0 (st\<lparr>sema := (sema st)[i := ds\<lparr>sem_ctime := now,
              sem_perm := (sem_perm ds)\<lparr>uid := uid buf, gid := gid buf,
                mode := (mode (sem_perm ds) AND NOT 0x1ff) OR (mode buf AND 0x1ff)\<rparr>\<rparr>]\<rparr>))
        | C_STAT \<Rightarrow> checked IPC_R (Ok (StatData ds, SemRet 0 st))
        | GETNCNT \<Rightarrow> numbered IPC_R (\<lambda>k. ret (uint (semncnt (sem_pool st ! k))) st)
        | GETPID \<Rightarrow> numbered IPC_R (\<lambda>k. ret (int (sempid (sem_pool st ! k))) st)
        | GETVAL \<Rightarrow> numbered IPC_R (\<lambda>k. ret (uint (semval (sem_pool st ! k))) st)
        | GETZCNT \<Rightarrow> numbered IPC_R (\<lambda>k. ret (uint (semzcnt (sem_pool st ! k))) st)
        | GETALL \<Rightarrow> checked IPC_R (if sem_base ds + n > length (sem_pool st) then Wild
              else Ok (AllData (map semval (take n (drop (sem_base ds) (sem_pool st)))), SemRet 0 st))
        | SETVAL v \<Rightarrow> numbered IPC_W (\<lambda>k. ret 0 (sem_wakeup (WakeSet i)
              (semundo_clear semid semnum (upd_sem k (\<lambda>s. s\<lparr>semval := word_of_int v\<rparr>) st))))
        | SETALL v \<Rightarrow> checked IPC_W (if sem_base ds + n > length (sem_pool st) then Wild
              else ret 0 (sem_wakeup (WakeSet i) (semundo_clear semid (-1) (sem_setall ds v st))))
        | _ \<Rightarrow> err EINVAL)"

definition semctl ::
    "ucred \<Rightarrow> int \<Rightarrow> nat \<Rightarrow> int \<Rightarrow> int \<Rightarrow> semctl_cmd \<Rightarrow> sem_sys \<Rightarrow> (semctl_data \<times> sem_out) exec" where
  "semctl cred now p semid semnum cmd st =
     (case cmd of
        SEMLCK \<Rightarrow> if sem_blocked p st then Ok (NoData, SemLockWait st)
                  else Ok (NoData, SemRet 0 (st\<lparr>semlock_holder := Some p\<rparr>))
      | SEMUNLK \<Rightarrow> Ok (NoData, SemRet 0 (sem_wakeup WakeLock (st\<lparr>semlock_holder := None\<rparr>)))
      | _ \<Rightarrow> if sem_blocked p st then Ok (NoData, SemLockWait st) else ix_semctl cred now semid semnum cmd st)"

section \<open>\<open>semop\<close>\<close>

text \<open>One request: it is satisfied, must wait, names no semaphore of the set, or (never, as is
  shown) lies outside the pool.\<close>

datatype sem_try = Granted bool bool "sem list" | Break | BadNum | Outside

definition semop_one :: "semid_ds \<Rightarrow> sembuf \<Rightarrow> bool \<Rightarrow> bool \<Rightarrow> sem list \<Rightarrow> sem_try" where
  "semop_one ds op wake undos pool =
     (if sem_num op \<ge> sem_nsems ds then BadNum
      else let k = sem_base ds + unat (sem_num op) in
        if k \<ge> length pool then Outside
        else
          let s = pool ! k; s' = s\<lparr>semval := semval s + sem_op op\<rparr>;
              undos' = (undos \<or> sem_flg op AND SEM_UNDO \<noteq> 0) in
          if sint (sem_op op) < 0 then
            if uint (semval s) + sint (sem_op op) < 0 then Break
            else Granted (wake \<or> semval s' = 0 \<and> semzcnt s' > 0) undos' (pool[k := s'])
          else if sem_op op = 0 then if semval s > 0 then Break else Granted wake undos pool
          else Granted (wake \<or> semncnt s > 0) undos' (pool[k := s']))"

datatype sem_pass = PassDone bool bool "sem list" | PassBad "sem list" | PassStop nat bool "sem list"

fun semop_pass :: "semid_ds \<Rightarrow> nat \<Rightarrow> sembuf list \<Rightarrow> bool \<Rightarrow> bool \<Rightarrow> sem list \<Rightarrow> sem_pass exec" where
  "semop_pass ds i [] wake undos pool = Ok (PassDone wake undos pool)"
| "semop_pass ds i (op # ops) wake undos pool =
     (case semop_one ds op wake undos pool of
        Outside \<Rightarrow> Wild
      | BadNum \<Rightarrow> Ok (PassBad pool)
      | Break \<Rightarrow> Ok (PassStop i undos pool)
      | Granted wake' undos' pool' \<Rightarrow> semop_pass ds (Suc i) ops wake' undos' pool')"

text \<open>Taking back the changes of the requests \<open>ops\<close>.\<close>

definition semop_back :: "semid_ds \<Rightarrow> sembuf list \<Rightarrow> sem list \<Rightarrow> sem list" where
  "semop_back ds ops pool =
     fold (\<lambda>op pool. let k = sem_base ds + unat (sem_num op) in
             pool[k := (pool ! k)\<lparr>semval := semval (pool ! k) - sem_op op\<rparr>]) ops pool"

definition wants_undo :: "sembuf \<Rightarrow> bool" where
  "wants_undo op \<longleftrightarrow> \<not> (sem_flg op AND SEM_UNDO = 0) \<and> \<not> (sint (sem_op op) = 0)"

text \<open>The requests \<open>done\<close> come in reverse order.\<close>

fun semop_revert :: "nat \<Rightarrow> nat \<Rightarrow> sembuf list \<Rightarrow> nat option \<Rightarrow> sem_sys \<Rightarrow> sem_sys exec" where
  "semop_revert p semid [] supptr st = Ok st"
| "semop_revert p semid (op # done) supptr st =
     (if \<not> wants_undo op then semop_revert p semid done supptr st
      else exec_bind (semundo_adjust p supptr (int semid) (uint (sem_num op)) (sint (sem_op op)) st) (\<lambda>(e, supptr', st').
        if e \<noteq> 0 then Panic ''semop - can't undo undos'' else semop_revert p semid done supptr' st'))"

fun semop_undos :: "nat \<Rightarrow> nat \<Rightarrow> sembuf list \<Rightarrow> sembuf list \<Rightarrow> nat option \<Rightarrow> sem_sys \<Rightarrow> (int \<times> sem_sys) exec" where
  "semop_undos p semid done [] supptr st = Ok (0, st)"
| "semop_undos p semid done (op # ops) supptr st =
     (if \<not> wants_undo op then semop_undos p semid (op # done) ops supptr st
      else exec_bind (semundo_adjust p supptr (int semid) (uint (sem_num op)) (- sint (sem_op op)) st) (\<lambda>(e, supptr', st').
        if e = 0 then semop_undos p semid (op # done) ops supptr' st'
        else exec_bind (semop_revert p semid done supptr' st') (\<lambda>st''. Ok (e, st''))))"

definition semop_done :: "nat \<Rightarrow> nat \<Rightarrow> sembuf list \<Rightarrow> bool \<Rightarrow> bool \<Rightarrow> sem_sys \<Rightarrow> sem_out exec" where
  "semop_done p i sops wake undos st =
     exec_bind (if undos then semop_undos p i [] sops None st else Ok (0, st)) (\<lambda>(e, st1).
       let ds = sema st1 ! i in
       if e \<noteq> 0 then sem_error e (st1\<lparr>sem_pool := semop_back ds sops (sem_pool st1)\<rparr>)
       else
         let st2 = fold (\<lambda>op. upd_sem (sem_base ds + unat (sem_num op)) (\<lambda>s. s\<lparr>sempid := p\<rparr>)) sops st1
         in Ok (SemRet 0 (if wake then sem_wakeup (WakeSet i) st2 else st2)))"

definition semop_loop :: "nat \<Rightarrow> nat \<Rightarrow> sembuf list \<Rightarrow> bool \<Rightarrow> sem_sys \<Rightarrow> sem_out exec" where
  "semop_loop p i sops undos st =
     (let ds = sema st ! i in
      exec_bind (semop_pass ds 0 sops False undos (sem_pool st)) (\<lambda>r.
        case r of
          PassBad pool \<Rightarrow> sem_error EFBIG (st\<lparr>sem_pool := pool\<rparr>)
        | PassDone wake undos' pool \<Rightarrow> semop_done p i sops wake undos' (st\<lparr>sem_pool := pool\<rparr>)
        | PassStop j undos' pool \<Rightarrow>
            let st1 = st\<lparr>sem_pool := semop_back ds (take j sops) pool\<rparr>; op = sops ! j;
                k = sem_base ds + unat (sem_num op) in
            if sem_flg op AND IPC_NOWAIT \<noteq> 0 then sem_error EAGAIN st1
            else Ok (SemSleep \<lparr>w_semid = i, w_sops = sops, w_sop = op, w_semptr = k, w_undos = undos'\<rparr>
                   (upd_sem k (\<lambda>s. if sem_op op = 0 then s\<lparr>semzcnt := semzcnt s + 1\<rparr>
                                   else s\<lparr>semncnt := semncnt s + 1\<rparr>) st1))))"

definition semop :: "ucred \<Rightarrow> nat \<Rightarrow> int \<Rightarrow> sembuf list \<Rightarrow> sem_sys \<Rightarrow> sem_out exec" where
  "semop cred p semid0 sops st =
     (let semid = IPCID_TO_IX semid0; i = nat semid in
      if sem_blocked p st then Ok (SemLockWait st)
      else if semid < 0 \<or> semid \<ge> int SEMMSL then sem_error EINVAL st
      else if i \<ge> length (sema st) then Wild
      else
        let ds = sema st ! i; eval = ipcperm cred (sem_perm ds) IPC_W in
        if \<not> sem_allocated ds \<or> uint (seq (sem_perm ds)) \<noteq> IPCID_TO_SEQ semid then sem_error EINVAL st
        else if eval \<noteq> 0 then sem_error eval st
        else if length sops > MAX_SOPS then sem_error E2BIG st
        else semop_loop p i sops False st)"

text \<open>After the sleep, which returned \<open>eval\<close>.\<close>

definition semop_resume :: "nat \<Rightarrow> sem_wait \<Rightarrow> int \<Rightarrow> sem_sys \<Rightarrow> sem_out exec" where
  "semop_resume p w eval st =
     (let i = w_semid w; ds = sema st ! i in
      if eval \<noteq> 0 then sem_error EINTR st
      else if \<not> sem_allocated ds \<or> uint (seq (sem_perm ds)) \<noteq> IPCID_TO_SEQ (int i) then sem_error EINVAL st
      else semop_loop p i (w_sops w) (w_undos w)
             (upd_sem (w_semptr w) (\<lambda>s. if sem_op (w_sop w) = 0 then s\<lparr>semzcnt := semzcnt s - 1\<rparr>
                                        else s\<lparr>semncnt := semncnt s - 1\<rparr>) st))"

section \<open>\<open>semexit\<close>\<close>

datatype sem_exit = Exited sem_sys | ExitSleep sem_sys

fun semexit_ents :: "undo list \<Rightarrow> sem_sys \<Rightarrow> sem_sys exec" where
  "semexit_ents [] st = Ok st"
| "semexit_ents (e # es) st =
     (let i = nat (un_id e); ds = sema st ! i; adjval = sint (un_adjval e) in
      if un_id e < 0 \<or> i \<ge> length (sema st) then Wild
      else if \<not> sem_allocated ds then Panic ''semexit - semid not allocated''
      else if un_num e \<ge> uint (sem_nsems ds) then Panic ''semexit - semnum out of range''
      else if un_num e < 0 then Wild
      else on_sem ds (nat (un_num e)) st (\<lambda>k.
        semexit_ents es (sem_wakeup (WakeSet i)
          (upd_sem k (\<lambda>s. s\<lparr>semval := if adjval < 0 \<and> uint (semval s) < - adjval then 0
                                       else semval s + un_adjval e\<rparr>) st))))"

definition semexit_undo :: "nat \<Rightarrow> sem_sys \<Rightarrow> sem_sys exec" where
  "semexit_undo k st =
     exec_bind (semexit_ents (un_ent (semu st ! k)) st) (\<lambda>st1.
       Ok (st1\<lparr>semu := (semu st1)[k := (semu st1 ! k)\<lparr>un_proc := None\<rparr>], semu_list := remove1 k (semu_list st1)\<rparr>))"

definition semexit_unlock :: "nat \<Rightarrow> sem_sys \<Rightarrow> sem_sys" where
  "semexit_unlock p st =
     (if semlock_holder st = Some p then sem_wakeup WakeLock (st\<lparr>semlock_holder := None\<rparr>) else st)"

definition semexit :: "nat \<Rightarrow> sem_sys \<Rightarrow> sem_exit exec" where
  "semexit p st =
     (if sem_blocked p st then Ok (if undo_of p st = None then Exited st else ExitSleep st)
      else case undo_of p st of
        None \<Rightarrow> Ok (Exited (semexit_unlock p st))
      | Some k \<Rightarrow> exec_bind (semexit_undo k st) (\<lambda>st1. Ok (Exited (semexit_unlock p st1))))"

text \<open>After the sleep, when nobody holds the lock.\<close>

definition semexit_woken :: "nat \<Rightarrow> sem_sys \<Rightarrow> sem_exit exec" where
  "semexit_woken p st =
     (if semlock_holder st \<noteq> None then Ok (ExitSleep st)
      else case undo_of p st of
        None \<Rightarrow> Panic ''semexit: undo vector disappeared''
      | Some k \<Rightarrow> exec_bind (semexit_undo k st) (\<lambda>st1. Ok (Exited (semexit_unlock p st1))))"

end
