(* ===== verification/Ix_Sem_Undo.thy ===== *)
theory Ix_Sem_Undo
  imports Ix_Sem "HOL-Library.Multiset"
begin

text \<open>
  The undo structures of the semaphores.  The entries of a structure are abstracted to a function
  from semaphores to adjustments, the whole pool to one such function per process; the invariant
  says that the chain links exactly the structures in use, one per process, with at most \<open>SEMUME\<close>
  entries each.  \<open>semundo_adjust\<close> adds to the function, and the roll back of a failed \<open>semop\<close>
  undoes its additions without ever running out of entries.
\<close>

section \<open>Entries\<close>

definition ent_key :: "undo \<Rightarrow> int \<times> int" where
  "ent_key e = (un_id e, un_num e)"

definition adj :: "undo list \<Rightarrow> int \<times> int \<Rightarrow> u16" where
  "adj es k = sum_list (map un_adjval (filter (\<lambda>e. ent_key e = k) es))"

definition supp :: "(int \<times> int \<Rightarrow> u16) \<Rightarrow> (int \<times> int) set" where
  "supp f = {k. f k \<noteq> 0}"

definition ents_ok :: "undo list \<Rightarrow> bool" where
  "ents_ok es \<longleftrightarrow> distinct (map ent_key es) \<and> (\<forall>e\<in>set es. un_adjval e \<noteq> 0) \<and> length es \<le> SEMUME"

lemma ents_okI:
  "distinct (map ent_key es) \<Longrightarrow> (\<And>e. e \<in> set es \<Longrightarrow> un_adjval e \<noteq> 0) \<Longrightarrow> length es \<le> SEMUME \<Longrightarrow> ents_ok es"
  by (simp add: ents_ok_def)

lemma ents_okD:
  assumes "ents_ok es"
  shows "distinct (map ent_key es)" and "e \<in> set es \<Longrightarrow> un_adjval e \<noteq> 0" and "length es \<le> SEMUME"
  using assms by (simp_all add: ents_ok_def)

lemma adj_Nil [simp]: "adj [] k = 0"
  by (simp add: adj_def)

lemma adj_mset: "adj es k = sum_mset (image_mset un_adjval (filter_mset (\<lambda>e. ent_key e = k) (mset es)))"
  by (metis adj_def mset_filter mset_map sum_mset_sum_list)

lemma adj_append [simp]: "adj (es @ fs) k = adj es k + adj fs k"
  by (simp add: adj_def)

lemma adj_absent: "k \<notin> ent_key ` set es \<Longrightarrow> adj es k = 0"
  by (induction es) (auto simp: adj_def)

lemma adj_present:
  assumes "distinct (map ent_key es)" "e \<in> set es"
  shows "adj es (ent_key e) = un_adjval e"
  using assms
proof (induction es)
  case (Cons x xs)
  then show ?case
    using adj_absent [of "ent_key e" xs] by (auto simp: adj_def image_iff)
qed simp

lemma ents_supp:
  assumes "ents_ok es"
  shows "supp (adj es) = ent_key ` set es" and "card (supp (adj es)) = length es"
proof -
  show s: "supp (adj es) = ent_key ` set es"
  proof (rule set_eqI)
    show "k \<in> supp (adj es) \<longleftrightarrow> k \<in> ent_key ` set es" for k
      using assms adj_absent [of k es] adj_present [of es] by (auto simp: supp_def ents_ok_def)
  qed
  show "card (supp (adj es)) = length es"
    using distinct_card [OF ents_okD(1) [OF assms]] by (simp add: s)
qed

lemma mset_del_ent:
  assumes "i < length es"
  shows "mset (del_ent i es) = mset es - {#es ! i#}"
proof -
  define n where "n = length es - 1"
  have es: "es = take n es @ [es ! n]" using assms by (simp add: n_def take_Suc_conv_app_nth [symmetric])
  have m: "mset es = add_mset (es ! n) (mset (take n es))" by (subst es) simp
  show ?thesis
  proof (cases "i < n")
    case True
    then have "mset ((take n es)[i := es ! n]) = add_mset (es ! n) (mset (take n es) - {#es ! i#})"
      using assms by (subst mset_update) (simp_all add: n_def)
    moreover have "es ! i \<in># mset (take n es)" using True assms by (auto simp: in_set_conv_nth n_def)
    ultimately show ?thesis using True m by (simp add: del_ent_def n_def Let_def)
  next
    case False
    then have "i = n" using assms by (simp add: n_def)
    then show ?thesis using m by (simp add: del_ent_def n_def Let_def)
  qed
qed

lemma distinct_mset_sub:
  assumes "mset xs \<subseteq># mset ys" "distinct (map f ys)"
  shows "distinct (map f xs)"
proof -
  obtain zs where "mset ys = mset xs + mset zs" by (metis assms(1) ex_mset subset_mset.le_iff_add)
  then have "mset (map f ys) = mset (map f xs @ map f zs)" by simp
  then have "distinct (map f xs @ map f zs)" using assms(2) mset_eq_imp_distinct_iff by blast
  then show ?thesis by simp
qed

lemma del_ent_ok:
  assumes "i < length es" "distinct (map ent_key es)" "length es \<le> SEMUME" "\<And>e. e \<in> set es \<Longrightarrow> e \<noteq> es ! i \<Longrightarrow> un_adjval e \<noteq> 0"
  shows "ents_ok (del_ent i es)" and "adj (del_ent i es) = (adj es)(ent_key (es ! i) := 0)"
    and "set (del_ent i es) \<subseteq> set es - {es ! i}"
proof -
  note m = mset_del_ent [OF assms(1)]
  have dk: "distinct (map ent_key (del_ent i es))" by (rule distinct_mset_sub [OF _ assms(2)]) (simp add: m)
  have de: "distinct es" using assms(2) by (simp add: distinct_map)
  have set_eq: "set (del_ent i es) = set es - {es ! i}"
  proof -
    have "mset (del_ent i es) = mset (remove1 (es ! i) es)" by (simp add: m)
    then have "set (del_ent i es) = set (remove1 (es ! i) es)" by (rule mset_eq_setD)
    also have "\<dots> = set es - {es ! i}" by (rule set_remove1_eq [OF de])
    finally show ?thesis .
  qed
  then show "set (del_ent i es) \<subseteq> set es - {es ! i}" by simp
  show "ents_ok (del_ent i es)"
    by (rule ents_okI [OF dk]) (use assms(3,4) set_eq in \<open>auto simp: del_ent_def Let_def\<close>)
  show "adj (del_ent i es) = (adj es)(ent_key (es ! i) := 0)"
  proof (rule ext)
    fix k
    have add: "adj es k = adj (del_ent i es) k + (if k = ent_key (es ! i) then un_adjval (es ! i) else 0)"
    proof -
      have "mset es = add_mset (es ! i) (mset (del_ent i es))" using assms(1) by (simp add: m)
      then show ?thesis by (auto simp: adj_mset)
    qed
    show "adj (del_ent i es) k = ((adj es)(ent_key (es ! i) := 0)) k"
    proof (cases "k = ent_key (es ! i)")
      case True
      have "k \<notin> ent_key ` set (del_ent i es)"
        using True set_eq assms(1,2) nth_mem [OF assms(1)] by (auto simp: distinct_map inj_on_def)
      then show ?thesis using True by (simp add: adj_absent)
    next
      case False
      then show ?thesis using add by simp
    qed
  qed
qed

section \<open>\<open>semundo_adjust\<close> on the entries\<close>

lemma scan_key:
  "scan (\<lambda>e. \<not> (un_id e \<noteq> i \<or> un_num e \<noteq> n)) 0 es = Some k \<Longrightarrow> k < length es \<and> ent_key (es ! k) = (i, n)"
  "scan (\<lambda>e. \<not> (un_id e \<noteq> i \<or> un_num e \<noteq> n)) 0 es = None \<Longrightarrow> (i, n) \<notin> ent_key ` set es"
  by (auto simp: scan_Some scan_None ent_key_def in_set_conv_nth)

lemma adj_update:
  assumes "distinct (map ent_key es)" "k < length es"
  shows "adj (es[k := (es ! k)\<lparr>un_adjval := v\<rparr>]) = (adj es)(ent_key (es ! k) := v)"
    and "map ent_key (es[k := (es ! k)\<lparr>un_adjval := v\<rparr>]) = map ent_key es"
proof -
  let ?fs = "es[k := (es ! k)\<lparr>un_adjval := v\<rparr>]"
  have key: "ent_key ((es ! k)\<lparr>un_adjval := v\<rparr>) = ent_key (es ! k)" by (simp add: ent_key_def)
  show m: "map ent_key ?fs = map ent_key es"
    using assms(2) by (simp add: map_update key) (metis list_update_id nth_map)
  have d: "distinct (map ent_key ?fs)" using assms(1) by (simp add: m)
  show "adj ?fs = (adj es)(ent_key (es ! k) := v)"
  proof (rule ext)
    fix x
    show "adj ?fs x = ((adj es)(ent_key (es ! k) := v)) x"
    proof (cases "x = ent_key (es ! k)")
      case True
      have "(es ! k)\<lparr>un_adjval := v\<rparr> \<in> set ?fs" using assms(2) by (simp add: set_update_memI)
      from adj_present [OF d this] show ?thesis using True key by simp
    next
      case False
      let ?P = "\<lambda>e. ent_key e = x"
      have "filter ?P ?fs = filter ?P (take k es) @ filter ?P (drop (Suc k) es)"
        using False assms(2) key by (simp add: upd_conv_take_nth_drop)
      also have "\<dots> = filter ?P es"
        by (subst (3) id_take_nth_drop [OF assms(2)]) (use False in simp)
      finally have "filter ?P ?fs = filter ?P es" .
      then show ?thesis using False by (simp add: adj_def)
    qed
  qed
qed

lemma adjust_ents_ok:
  assumes ok: "ents_ok es" and a: "adjust_ents i n a es = (e, es')" and n: "s16 n = n"
    and w: "a \<noteq> 0 \<Longrightarrow> (word_of_int a :: u16) \<noteq> 0"
  shows "ents_ok es'" and "e = 0 \<Longrightarrow> adj es' = (adj es)((i, n) := if a = 0 then 0 else adj es (i, n) + word_of_int a)"
    and "e \<noteq> 0 \<Longrightarrow> es' = es \<and> adj es (i, n) = 0 \<and> length es = SEMUME" and "ent_key ` set es' \<subseteq> insert (i, n) (ent_key ` set es)"
    and "e \<noteq> 0 \<Longrightarrow> e = EINVAL"
proof -
  note d = ents_okD [OF ok]
  let ?all = "ents_ok es' \<and> (e = 0 \<longrightarrow> adj es' = (adj es)((i, n) := if a = 0 then 0 else adj es (i, n) + word_of_int a))
    \<and> (e \<noteq> 0 \<longrightarrow> es' = es \<and> adj es (i, n) = 0 \<and> length es = SEMUME) \<and> ent_key ` set es' \<subseteq> insert (i, n) (ent_key ` set es)
    \<and> (e \<noteq> 0 \<longrightarrow> e = EINVAL)"
  have ?all
  proof (cases "scan (\<lambda>e. \<not> (un_id e \<noteq> i \<or> un_num e \<noteq> n)) 0 es")
    case None
    note absent = scan_key(2) [OF None]
    let ?new = "\<lparr>un_adjval = word_of_int a, un_num = s16 n, un_id = i\<rparr>"
    consider "a = 0" "e = 0" "es' = es" | "a \<noteq> 0" "length es = SEMUME" "e = EINVAL" "es' = es"
      | "a \<noteq> 0" "length es < SEMUME" "e = 0" "es' = es @ [?new]"
      using a None d(3) by (auto simp: adjust_ents_def split: if_splits)
    then show ?thesis
    proof cases
      case 3
      have "ents_ok es'"
        by (rule ents_okI) (use 3 d w absent n in \<open>auto simp: ent_key_def\<close>)
      moreover have "adj es' = (adj es)((i, n) := adj es (i, n) + word_of_int a)"
        using 3 n by (auto simp: fun_eq_iff adj_def ent_key_def)
      ultimately show ?thesis using 3 n by (auto simp: ent_key_def)
    qed (use ok absent adj_absent in \<open>auto simp: fun_eq_iff\<close>)
  next
    case (Some k)
    note k = scan_key(1) [OF Some]
    define v where "v = (if a = 0 then 0 else un_adjval (es ! k) + word_of_int a)"
    define fs where "fs = es[k := (es ! k)\<lparr>un_adjval := v\<rparr>]"
    have e: "e = 0" "es' = (if v = 0 then del_ent k fs else fs)"
      using a Some by (auto simp: adjust_ents_def Let_def v_def fs_def split: if_splits)
    have fs: "adj fs = (adj es)((i, n) := v)" "map ent_key fs = map ent_key es" "length fs = length es" "fs ! k = (es ! k)\<lparr>un_adjval := v\<rparr>"
      using adj_update [OF d(1), of k v] k by (simp_all add: fs_def)
    have old: "adj es (i, n) = un_adjval (es ! k)" using adj_present [OF d(1)] k by (metis nth_mem)
    have nz: "un_adjval x \<noteq> 0" if "x \<in> set fs" "x \<noteq> fs ! k" for x
    proof -
      have "x \<in> insert (fs ! k) (set es)" using that(1) fs(4) set_update_subset_insert [of es k] by (auto simp: fs_def)
      then show ?thesis using that(2) d(2) by blast
    qed
    have keys: "ent_key ` set fs = ent_key ` set es" using fs(2) by (metis set_map)
    have kk: "ent_key (fs ! k) = (i, n)" using k by (simp add: fs(4) ent_key_def)
    show ?thesis
    proof (cases "v = 0")
      case True
      note de = del_ent_ok [of k fs, OF _ _ _ nz]
      have "ents_ok (del_ent k fs)" "adj (del_ent k fs) = (adj fs)((i, n) := 0)" "set (del_ent k fs) \<subseteq> set fs - {fs ! k}"
        using de k d(1,3) by (simp_all add: fs(2,3) kk)
      then show ?thesis using True e fs(1) keys old by (auto simp: v_def)
    next
      case False
      have "ents_ok fs"
      proof (rule ents_okI)
        show "un_adjval x \<noteq> 0" if "x \<in> set fs" for x
          using nz [OF that] fs(4) False by (cases "x = fs ! k") simp_all
      qed (use d(1,3) fs(2,3) in simp_all)
      then show ?thesis using False e fs(1) keys old by (auto simp: v_def)
    qed
  qed
  then show "ents_ok es'" "e = 0 \<Longrightarrow> adj es' = (adj es)((i, n) := if a = 0 then 0 else adj es (i, n) + word_of_int a)"
    "e \<noteq> 0 \<Longrightarrow> es' = es \<and> adj es (i, n) = 0 \<and> length es = SEMUME" "ent_key ` set es' \<subseteq> insert (i, n) (ent_key ` set es)"
    "e \<noteq> 0 \<Longrightarrow> e = EINVAL" by blast+
qed

section \<open>The chain of structures\<close>

definition chain_ok :: "nat list \<Rightarrow> sem_undo list \<Rightarrow> bool" where
  "chain_ok ks us \<longleftrightarrow> length us = SEMMNU \<and> distinct ks
     \<and> (\<forall>k. k \<in> set ks \<longleftrightarrow> k < SEMMNU \<and> un_proc (us ! k) \<noteq> None)
     \<and> (\<forall>k l. k \<in> set ks \<longrightarrow> l \<in> set ks \<longrightarrow> un_proc (us ! k) = un_proc (us ! l) \<longrightarrow> k = l)
     \<and> (\<forall>k. k \<in> set ks \<longrightarrow> ents_ok (un_ent (us ! k)))"

definition undo_ok :: "sem_sys \<Rightarrow> bool" where
  "undo_ok st \<longleftrightarrow> chain_ok (semu_list st) (semu st)"

lemma chain_okI:
  assumes "length us = SEMMNU" "distinct ks" "\<And>k. k \<in> set ks \<longleftrightarrow> k < SEMMNU \<and> un_proc (us ! k) \<noteq> None"
    "\<And>k l. k \<in> set ks \<Longrightarrow> l \<in> set ks \<Longrightarrow> un_proc (us ! k) = un_proc (us ! l) \<Longrightarrow> k = l"
    "\<And>k. k \<in> set ks \<Longrightarrow> ents_ok (un_ent (us ! k))"
  shows "chain_ok ks us"
  unfolding chain_ok_def using assms by blast

lemma chain_okD:
  assumes "chain_ok ks us"
  shows "length us = SEMMNU" and "distinct ks" and "k \<in> set ks \<longleftrightarrow> k < SEMMNU \<and> un_proc (us ! k) \<noteq> None"
    and "k \<in> set ks \<Longrightarrow> l \<in> set ks \<Longrightarrow> un_proc (us ! k) = un_proc (us ! l) \<Longrightarrow> k = l"
    and "k \<in> set ks \<Longrightarrow> ents_ok (un_ent (us ! k))"
  using assms by (simp_all add: chain_ok_def)

text \<open>The pending adjustments of a process.\<close>

definition padj :: "sem_sys \<Rightarrow> nat \<Rightarrow> int \<times> int \<Rightarrow> u16" where
  "padj st p = (case undo_of p st of None \<Rightarrow> (\<lambda>_. 0) | Some k \<Rightarrow> adj (un_ent (semu st ! k)))"

lemma undo_of_Some:
  assumes "undo_ok st"
  shows "undo_of p st = Some k \<longleftrightarrow> k \<in> set (semu_list st) \<and> un_proc (semu st ! k) = Some p"
proof
  assume "undo_of p st = Some k"
  then show "k \<in> set (semu_list st) \<and> un_proc (semu st ! k) = Some p"
    by (auto simp: undo_of_def find_Some_iff)
next
  assume k: "k \<in> set (semu_list st) \<and> un_proc (semu st ! k) = Some p"
  then obtain l where l: "undo_of p st = Some l" by (cases "undo_of p st") (auto simp: undo_of_def find_None_iff)
  then have "l \<in> set (semu_list st)" "un_proc (semu st ! l) = Some p" by (auto simp: undo_of_def find_Some_iff)
  then have "l = k" using k chain_okD(4) [of "semu_list st" "semu st" l k] assms by (simp add: undo_ok_def)
  with l show "undo_of p st = Some k" by simp
qed

lemma undo_of_None: "undo_of p st = None \<longleftrightarrow> (\<forall>k\<in>set (semu_list st). un_proc (semu st ! k) \<noteq> Some p)"
  by (auto simp: undo_of_def find_None_iff)

lemma padj_owner:
  "undo_ok st \<Longrightarrow> k \<in> set (semu_list st) \<Longrightarrow> un_proc (semu st ! k) = Some p \<Longrightarrow> padj st p = adj (un_ent (semu st ! k))"
  using undo_of_Some [of st p k] by (simp add: padj_def)

lemma padj_supp:
  assumes "undo_ok st"
  shows "card (supp (padj st p)) \<le> SEMUME" and "finite (supp (padj st p))"
proof -
  have "card (supp (padj st p)) \<le> SEMUME \<and> finite (supp (padj st p))"
  proof (cases "undo_of p st")
    case None
    then show ?thesis by (simp add: padj_def supp_def)
  next
    case (Some k)
    then have "ents_ok (un_ent (semu st ! k))"
      using assms undo_of_Some [OF assms] by (auto simp: undo_ok_def chain_ok_def)
    then show ?thesis using Some ents_supp [of "un_ent (semu st ! k)"] by (simp add: padj_def ents_ok_def)
  qed
  then show "card (supp (padj st p)) \<le> SEMUME" "finite (supp (padj st p))" by simp_all
qed

lemma padj_cong:
  "semu st' = semu st \<Longrightarrow> semu_list st' = semu_list st \<Longrightarrow> padj st' = padj st \<and> undo_ok st' = undo_ok st \<and> undo_of p st' = undo_of p st"
  by (simp add: padj_def undo_of_def undo_ok_def fun_eq_iff cong: option.case_cong)

section \<open>Allocation of a structure\<close>

lemma semu_purge_spec:
  assumes "distinct ks" "\<forall>k\<in>set ks. k < length us" "semu_purge ks us = (ks', us')"
  shows "ks' = filter (\<lambda>k. un_ent (us ! k) \<noteq> []) ks" and "length us' = length us"
    and "us' ! j = (if j \<in> set ks \<and> un_ent (us ! j) = [] then (us ! j)\<lparr>un_proc := None\<rparr> else us ! j)"
proof -
  have "ks' = filter (\<lambda>k. un_ent (us ! k) \<noteq> []) ks \<and> length us' = length us
    \<and> (\<forall>j. us' ! j = (if j \<in> set ks \<and> un_ent (us ! j) = [] then (us ! j)\<lparr>un_proc := None\<rparr> else us ! j))"
    using assms
  proof (induction ks us arbitrary: ks' us' rule: semu_purge.induct)
    case (2 k ks us)
    show ?case
    proof (cases "un_ent (us ! k) = []")
      case True
      let ?us = "us[k := (us ! k)\<lparr>un_proc := None\<rparr>]"
      have e: "un_ent (?us ! j) = un_ent (us ! j)" for j using 2(4) by (cases "j = k") simp_all
      have IH: "ks' = filter (\<lambda>k. un_ent (?us ! k) \<noteq> []) ks" "length us' = length ?us"
        "\<forall>j. us' ! j = (if j \<in> set ks \<and> un_ent (?us ! j) = [] then (?us ! j)\<lparr>un_proc := None\<rparr> else ?us ! j)"
        using 2(1) [OF True, of ks' us'] 2(3-5) True by simp_all
      have "us' ! j = (if j \<in> set (k # ks) \<and> un_ent (us ! j) = [] then (us ! j)\<lparr>un_proc := None\<rparr> else us ! j)" for j
        using IH(3) [rule_format, of j] True 2(3,4) e [of j] by (cases "j = k") (auto simp del: nth_list_update simp: nth_list_update_eq nth_list_update_neq)
      then show ?thesis using IH(1,2) True e by simp
    next
      case False
      obtain k2 u2 where r: "semu_purge ks us = (k2, u2)" by fastforce
      have IH: "k2 = filter (\<lambda>k. un_ent (us ! k) \<noteq> []) ks" "length u2 = length us"
        "\<forall>j. u2 ! j = (if j \<in> set ks \<and> un_ent (us ! j) = [] then (us ! j)\<lparr>un_proc := None\<rparr> else us ! j)"
        using 2(2) [OF False, of k2 u2] 2(3,4) r by simp_all
      have "ks' = k # k2" "us' = u2" using 2(5) False r by simp_all
      then show ?thesis using IH False by auto
    qed
  qed simp
  then show "ks' = filter (\<lambda>k. un_ent (us ! k) \<noteq> []) ks" "length us' = length us"
    "us' ! j = (if j \<in> set ks \<and> un_ent (us ! j) = [] then (us ! j)\<lparr>un_proc := None\<rparr> else us ! j)" by simp_all
qed

text \<open>The structures with entries determine the adjustments.\<close>

definition live :: "sem_sys \<Rightarrow> (nat \<times> undo list) set" where
  "live st = {(p, es). es \<noteq> [] \<and> (\<exists>k\<in>set (semu_list st). un_proc (semu st ! k) = Some p \<and> un_ent (semu st ! k) = es)}"

lemma padj_live:
  assumes "undo_ok st"
  shows "(p, es) \<in> live st \<Longrightarrow> padj st p = adj es" and "(\<And>es. (p, es) \<notin> live st) \<Longrightarrow> padj st p = (\<lambda>_. 0)"
proof -
  show "padj st p = adj es" if "(p, es) \<in> live st"
    using that padj_owner [OF assms] by (auto simp: live_def)
  show "padj st p = (\<lambda>_. 0)" if none: "\<And>es. (p, es) \<notin> live st"
  proof (cases "undo_of p st")
    case (Some k)
    then have "k \<in> set (semu_list st) \<and> un_proc (semu st ! k) = Some p" using undo_of_Some [OF assms] by simp
    then have "un_ent (semu st ! k) = []" using none [of "un_ent (semu st ! k)"] by (auto simp: live_def)
    then show ?thesis using Some by (auto simp: padj_def)
  qed (simp add: padj_def)
qed

lemma live_padj:
  assumes "undo_ok st" "undo_ok st'" "live st' = live st"
  shows "padj st' = padj st"
proof
  fix p
  show "padj st' p = padj st p"
    using padj_live [OF assms(1), of p] padj_live [OF assms(2), of p] assms(3) by metis
qed

lemma semu_take_ok:
  assumes ok: "undo_ok st" and new: "undo_of p st = None" and t: "semu_take p st = Some (i, st1)"
  shows "undo_ok st1" and "padj st1 = padj st" and "undo_of p st1 = Some i"
    and "st1 = st\<lparr>semu := semu st1, semu_list := semu_list st1\<rparr>"
proof -
  have i: "i < length (semu st)" "un_proc (semu st ! i) = None"
    and st1: "st1 = st\<lparr>semu := (semu st)[i := \<lparr>un_proc = Some p, un_ent = []\<rparr>], semu_list := i # semu_list st\<rparr>"
    using t by (auto simp: semu_take_def scan_Some split: option.splits)
  then show "st1 = st\<lparr>semu := semu st1, semu_list := semu_list st1\<rparr>" by simp
  have c: "chain_ok (semu_list st) (semu st)" using ok by (simp add: undo_ok_def)
  note d = chain_okD [OF c]
  have ni: "i \<notin> set (semu_list st)" using i d(3) by simp
  have np: "k \<in> set (semu_list st) \<Longrightarrow> un_proc (semu st ! k) \<noteq> Some p" for k using new by (auto simp: undo_of_None)
  have us: "semu st1 ! k = (if k = i then \<lparr>un_proc = Some p, un_ent = []\<rparr> else semu st ! k)" for k
    using i(1) by (simp add: st1 nth_list_update)
  show ok1: "undo_ok st1"
    unfolding undo_ok_def
  proof (rule chain_okI)
    show "k \<in> set (semu_list st1) \<longleftrightarrow> k < SEMMNU \<and> un_proc (semu st1 ! k) \<noteq> None" for k
      using d(1) d(3) [of k] i(1) by (auto simp: st1 nth_list_update)
    show "k = l" if "k \<in> set (semu_list st1)" "l \<in> set (semu_list st1)" "un_proc (semu st1 ! k) = un_proc (semu st1 ! l)" for k l
    proof (cases "k = i \<or> l = i")
      case True
      then show ?thesis using that np [of k] np [of l] unfolding us by (auto simp: st1 split: if_splits)
    next
      case False
      then show ?thesis using that d(4) [of k l] by (simp add: us) (simp add: st1)
    qed
    show "ents_ok (un_ent (semu st1 ! k))" if "k \<in> set (semu_list st1)" for k
      using that d(5) [of k] unfolding us by (auto simp: st1 ents_ok_def split: if_splits)
  qed (use d(1,2) ni in \<open>simp_all add: st1\<close>)
  have "live st1 = live st" unfolding live_def us using ni by (auto simp: st1)
  then show "padj st1 = padj st" by (rule live_padj [OF ok ok1])
  show "undo_of p st1 = Some i" using undo_of_Some [OF ok1] us by (simp add: st1)
qed

lemma semu_purge_ok:
  assumes ok: "undo_ok st" and u: "semu_purge (semu_list st) (semu st) = (ks, us)"
  defines "st1 \<equiv> st\<lparr>semu_list := ks, semu := us\<rparr>"
  shows "undo_ok st1" and "padj st1 = padj st" and "undo_of p st = None \<Longrightarrow> undo_of p st1 = None"
    and "length ks \<noteq> length (semu_list st) \<Longrightarrow> semu_take p st1 \<noteq> None"
proof -
  have c: "chain_ok (semu_list st) (semu st)" using ok by (simp add: undo_ok_def)
  note d = chain_okD [OF c]
  have lt: "\<forall>k\<in>set (semu_list st). k < length (semu st)" using d(1,3) by simp
  note pg = semu_purge_spec [OF d(2) lt u]
  have s1: "semu_list st1 = filter (\<lambda>k. un_ent (semu st ! k) \<noteq> []) (semu_list st)" "length (semu st1) = SEMMNU"
    "semu st1 ! j = (if j \<in> set (semu_list st) \<and> un_ent (semu st ! j) = [] then (semu st ! j)\<lparr>un_proc := None\<rparr> else semu st ! j)" for j
    using pg d(1) by (simp_all add: st1_def)
  show ok1: "undo_ok st1"
    unfolding undo_ok_def
  proof (rule chain_okI)
    show "k \<in> set (semu_list st1) \<longleftrightarrow> k < SEMMNU \<and> un_proc (semu st1 ! k) \<noteq> None" for k
      using d(3) [of k] unfolding s1 by auto
    show "k = l" if "k \<in> set (semu_list st1)" "l \<in> set (semu_list st1)" "un_proc (semu st1 ! k) = un_proc (semu st1 ! l)" for k l
      using that d(4) [of k l] unfolding s1 by auto
    show "ents_ok (un_ent (semu st1 ! k))" if "k \<in> set (semu_list st1)" for k
      using that d(5) [of k] unfolding s1 by auto
  qed (use d(2) s1 in simp_all)
  have "live st1 = live st" unfolding live_def s1 by auto
  then show "padj st1 = padj st" by (rule live_padj [OF ok ok1])
  show "undo_of p st = None \<Longrightarrow> undo_of p st1 = None" unfolding undo_of_None s1 by auto
  show "semu_take p st1 \<noteq> None" if "length ks \<noteq> length (semu_list st)"
  proof -
    have "\<exists>k\<in>set (semu_list st). un_ent (semu st ! k) = []"
    proof (rule ccontr)
      assume "\<not> ?thesis"
      then have "filter (\<lambda>k. un_ent (semu st ! k) \<noteq> []) (semu_list st) = semu_list st" by (simp add: filter_id_conv)
      then show False using that pg(1) by simp
    qed
    then obtain k where k: "k \<in> set (semu_list st)" "un_ent (semu st ! k) = []" by blast
    then have "un_proc (semu st1 ! k) = None" "k < length (semu st1)" using s1 d(3) by simp_all
    then have "scan (\<lambda>su. un_proc su = None) 0 (semu st1) \<noteq> None" by (auto simp: scan_None)
    then show ?thesis by (auto simp: semu_take_def)
  qed
qed

lemma semu_alloc_ok:
  assumes ok: "undo_ok st" and new: "undo_of p st = None"
  shows "\<exists>r st1. semu_alloc p st = Ok (r, st1) \<and> undo_ok st1 \<and> padj st1 = padj st
    \<and> st1 = st\<lparr>semu := semu st1, semu_list := semu_list st1\<rparr> \<and> (\<forall>i. r = Some i \<longrightarrow> undo_of p st1 = Some i) \<and> (r = None \<longrightarrow> st1 = st)"
proof (cases "semu_take p st")
  case (Some x)
  obtain i st1 where x: "x = (i, st1)" by fastforce
  note t = semu_take_ok [OF ok new Some [unfolded x]]
  then show ?thesis using Some x by (auto simp: semu_alloc_def)
next
  case None
  obtain ks us where u: "semu_purge (semu_list st) (semu st) = (ks, us)" by fastforce
  define st1 where "st1 = st\<lparr>semu_list := ks, semu := us\<rparr>"
  note pg = semu_purge_ok [OF ok u, folded st1_def]
  show ?thesis
  proof (cases "length ks = length (semu_list st)")
    case True
    then show ?thesis using None u ok by (auto simp: semu_alloc_def)
  next
    case False
    then obtain i st2 where t: "semu_take p st1 = Some (i, st2)" using pg(4) [of p] by fastforce
    note tk = semu_take_ok [OF pg(1) pg(3) [OF new] t]
    have "semu_alloc p st = Ok (Some i, st2)" using None u False t by (simp add: semu_alloc_def st1_def)
    moreover have "st2 = st\<lparr>semu := semu st2, semu_list := semu_list st2\<rparr>" by (subst tk(4)) (simp add: st1_def)
    ultimately show ?thesis using tk pg(2) by auto
  qed
qed

section \<open>\<open>semundo_adjust\<close> and \<open>semundo_clear\<close> on the pool\<close>

text \<open>Replacing the entries of one structure.\<close>

definition set_ents :: "nat \<Rightarrow> undo list \<Rightarrow> sem_sys \<Rightarrow> sem_sys" where
  "set_ents k es st = st\<lparr>semu := (semu st)[k := (semu st ! k)\<lparr>un_ent := es\<rparr>]\<rparr>"

lemma set_ents_ok:
  assumes ok: "undo_ok st" and k: "undo_of p st = Some k" and es: "ents_ok es"
  shows "undo_ok (set_ents k es st)" and "padj (set_ents k es st) = (padj st)(p := adj es)"
    and "undo_of q (set_ents k es st) = undo_of q st"
proof -
  have c: "chain_ok (semu_list st) (semu st)" using ok by (simp add: undo_ok_def)
  note d = chain_okD [OF c]
  have k': "k \<in> set (semu_list st)" "un_proc (semu st ! k) = Some p" "k < length (semu st)"
    using k undo_of_Some [OF ok] d(1,3) by auto
  have us: "semu (set_ents k es st) ! j = (if j = k then (semu st ! k)\<lparr>un_ent := es\<rparr> else semu st ! j)" for j
    using k'(3) by (simp add: set_ents_def nth_list_update)
  have pr: "un_proc (semu (set_ents k es st) ! j) = un_proc (semu st ! j)" for j by (simp add: us)
  have sl: "semu_list (set_ents k es st) = semu_list st" "length (semu (set_ents k es st)) = length (semu st)"
    by (simp_all add: set_ents_def)
  show ok1: "undo_ok (set_ents k es st)"
    unfolding undo_ok_def sl(1)
  proof (rule chain_okI)
    show "ents_ok (un_ent (semu (set_ents k es st) ! j))" if "j \<in> set (semu_list st)" for j
      using that d(5) es by (simp add: us)
  qed (use d(1-4) in \<open>simp_all add: pr sl\<close>)
  show uo: "undo_of q (set_ents k es st) = undo_of q st" for q by (simp add: undo_of_def pr sl)
  show "padj (set_ents k es st) = (padj st)(p := adj es)"
  proof (rule ext)
    fix q
    show "padj (set_ents k es st) q = ((padj st)(p := adj es)) q"
    proof (cases "q = p")
      case True
      then show ?thesis using k by (simp add: padj_def uo us)
    next
      case False
      then have "undo_of q st \<noteq> Some k" using k' undo_of_Some [OF ok, of q k] by simp
      then show ?thesis using False by (auto simp: padj_def uo us split: option.splits)
    qed
  qed
qed

lemma semundo_adjust_ok:
  assumes ok: "undo_ok st" and sp: "supptr = None \<or> supptr = undo_of p st" and n: "s16 n = n"
    and a: "a \<noteq> 0" and w: "(word_of_int a :: u16) \<noteq> 0"
  shows "\<exists>e sp' st'. semundo_adjust p supptr i n a st = Ok (e, sp', st') \<and> undo_ok st'
    \<and> st' = st\<lparr>semu := semu st', semu_list := semu_list st'\<rparr> \<and> (sp' = None \<or> sp' = undo_of p st') \<and> (supptr \<noteq> None \<longrightarrow> sp' \<noteq> None)
    \<and> (e = 0 \<longrightarrow> sp' \<noteq> None \<and> padj st' = (padj st)(p := (padj st p)((i, n) := padj st p (i, n) + word_of_int a)))
    \<and> (e \<noteq> 0 \<longrightarrow> padj st' = padj st \<and> (e = ENOSPC \<or> e = EINVAL))
    \<and> (supptr \<noteq> None \<and> (padj st p (i, n) \<noteq> 0 \<or> card (supp (padj st p)) < SEMUME) \<longrightarrow> e = 0)"
proof -
  define found where "found = (if supptr = None then undo_of p st else supptr)"
  have f: "found = undo_of p st" using sp by (auto simp: found_def)
  obtain r st1 where r: "(if found = None then semu_alloc p st else Ok (found, st)) = Ok (r, st1)"
    and st1: "undo_ok st1" "padj st1 = padj st" "st1 = st\<lparr>semu := semu st1, semu_list := semu_list st1\<rparr>"
      "r \<noteq> None \<Longrightarrow> undo_of p st1 = r" "r = None \<Longrightarrow> st1 = st" "supptr \<noteq> None \<Longrightarrow> r \<noteq> None"
    using semu_alloc_ok [OF ok, of p] f ok by (cases "found = None") (auto simp: found_def split: if_splits)
  have eq: "semundo_adjust p supptr i n a st = (case r of None \<Rightarrow> Ok (ENOSPC, supptr, st1)
      | Some k \<Rightarrow> (case adjust_ents i n a (un_ent (semu st1 ! k)) of (e, es) \<Rightarrow> Ok (e, Some k, set_ents k es st1)))"
    using r a by (simp add: semundo_adjust_def found_def [symmetric] Let_def set_ents_def split: option.split prod.split)
  show ?thesis
  proof (cases r)
    case None
    then show ?thesis using eq st1(5,6) ok sp by auto
  next
    case (Some k)
    obtain e es where adj: "adjust_ents i n a (un_ent (semu st1 ! k)) = (e, es)" by fastforce
    have k: "undo_of p st1 = Some k" using st1(4) Some by simp
    then have eo: "ents_ok (un_ent (semu st1 ! k))"
      using st1(1) undo_of_Some [OF st1(1)] by (auto simp: undo_ok_def chain_ok_def)
    have pk: "adj (un_ent (semu st1 ! k)) = padj st p" using k st1(2) by (metis padj_def option.simps(5))
    note ae = adjust_ents_ok [OF eo adj n w]
    note se = set_ents_ok [OF st1(1) k ae(1)]
    have run: "semundo_adjust p supptr i n a st = Ok (e, Some k, set_ents k es st1)" using eq Some adj by simp
    have st': "set_ents k es st1 = st\<lparr>semu := semu (set_ents k es st1), semu_list := semu_list (set_ents k es st1)\<rparr>"
      by (subst st1(3)) (simp add: set_ents_def)
    have z: "e = 0" if "padj st p (i, n) \<noteq> 0 \<or> card (supp (padj st p)) < SEMUME"
      by (rule ccontr) (use ae(3) ents_supp(2) [OF eo] that pk in auto)
    have "padj (set_ents k es st1) = padj st" if "e \<noteq> 0" using se(2) ae(3) [OF that] pk st1(2) by simp
    then show ?thesis
      using run st' se(1,2) se(3) [of p] k ae(2,5) z pk st1(2) a by (intro exI [of _ e] exI [of _ "Some k"] exI [of _ "set_ents k es st1"]) auto
  qed
qed

definition cleared :: "int \<Rightarrow> int \<Rightarrow> (int \<times> int \<Rightarrow> u16) \<Rightarrow> (int \<times> int \<Rightarrow> u16) \<Rightarrow> bool" where
  "cleared i n f g \<longleftrightarrow> (\<forall>k. g k = f k \<or> g k = 0 \<and> fst k = i \<and> (n = -1 \<or> snd k = n)) \<and> (n = -1 \<longrightarrow> (\<forall>m. g (i, m) = 0))"

lemma cleared_upd:
  assumes "cleared i n (f(k := 0)) g" "fst k = i" "n = -1 \<or> snd k = n"
  shows "cleared i n f g"
  unfolding cleared_def
proof (intro conjI allI)
  show "g x = f x \<or> g x = 0 \<and> fst x = i \<and> (n = -1 \<or> snd x = n)" for x
  proof -
    have "g x = (f(k := 0)) x \<or> g x = 0 \<and> fst x = i \<and> (n = -1 \<or> snd x = n)" using assms(1) unfolding cleared_def by blast
    then show ?thesis using assms(2,3) by (cases "x = k") simp_all
  qed
qed (use assms in \<open>simp add: cleared_def\<close>)

lemma clear_ents_ok:
  assumes "ents_ok es" "n = -1 \<Longrightarrow> (\<forall>m<j. m < length es \<longrightarrow> un_id (es ! m) \<noteq> i)"
  shows "ents_ok (clear_ents i n j es) \<and> cleared i n (adj es) (adj (clear_ents i n j es))"
  using assms
proof (induction i n j es rule: clear_ents.induct)
  case (1 i n j es)
  note ok = 1(3) and before = 1(4) and d = ents_okD [OF 1(3)]
  consider (stop) "\<not> j < length es" | (skip) "j < length es" "un_id (es ! j) \<noteq> i"
    | (all) "j < length es" "un_id (es ! j) = i" "n = -1" | (hit) "j < length es" "un_id (es ! j) = i" "n \<noteq> -1" "un_num (es ! j) = n"
    | (miss) "j < length es" "un_id (es ! j) = i" "n \<noteq> -1" "un_num (es ! j) \<noteq> n" by blast
  then show ?case
  proof cases
    case stop
    then have c: "clear_ents i n j es = es" by (simp add: clear_ents.simps)
    have "adj es (i, m) = 0" if "n = -1" for m
    proof (rule adj_absent)
      have "un_id e \<noteq> i" if "e \<in> set es" for e
        using that before [OF \<open>n = -1\<close>] stop by (metis in_set_conv_nth less_trans not_less_iff_gr_or_eq)
      then show "(i, m) \<notin> ent_key ` set es" by (auto simp: ent_key_def)
    qed
    then show ?thesis using ok by (simp add: c cleared_def)
  next
    case skip
    then have c: "clear_ents i n j es = clear_ents i n (Suc j) es" by (simp add: clear_ents.simps [of i n j])
    have "n = -1 \<Longrightarrow> \<forall>m<Suc j. m < length es \<longrightarrow> un_id (es ! m) \<noteq> i"
      using before skip by (auto simp: less_Suc_eq)
    then show ?thesis using 1(2) [OF skip ok] c by simp
  next
    case all
    let ?j = "if j < length es - 1 then j else Suc j"
    have c: "clear_ents i n j es = clear_ents i n ?j (del_ent j es)" using all by (subst clear_ents.simps) simp
    have de: "ents_ok (del_ent j es)" "adj (del_ent j es) = (adj es)(ent_key (es ! j) := 0)"
      using del_ent_ok [OF all(1) d(1,3)] d(2) by blast+
    have len: "length (del_ent j es) = length es - 1" by (simp add: del_ent_def Let_def)
    have "del_ent j es ! m = es ! m" if "m < j" "m < length es - 1" for m
      using that by (simp add: del_ent_def Let_def)
    then have "\<forall>m<?j. m < length (del_ent j es) \<longrightarrow> un_id (del_ent j es ! m) \<noteq> i"
      using before all len by auto
    then have IH: "ents_ok (clear_ents i n ?j (del_ent j es))" "cleared i n (adj (del_ent j es)) (adj (clear_ents i n ?j (del_ent j es)))"
      using 1(1) [OF all de(1)] by blast+
    have "cleared i n (adj es) (adj (clear_ents i n ?j (del_ent j es)))"
      by (rule cleared_upd [OF IH(2) [unfolded de(2)]]) (use all in \<open>simp_all add: ent_key_def\<close>)
    then show ?thesis using IH(1) unfolding c by (rule conjI [rotated])
  next
    case hit
    then have c: "clear_ents i n j es = del_ent j es" by (simp add: clear_ents.simps)
    have de: "ents_ok (del_ent j es)" "adj (del_ent j es) = (adj es)(ent_key (es ! j) := 0)"
      using del_ent_ok [OF hit(1) d(1,3)] d(2) by blast+
    then show ?thesis using hit by (auto simp: c cleared_def ent_key_def)
  next
    case miss
    then have "clear_ents i n j es = es" by (simp add: clear_ents.simps)
    then show ?thesis using ok miss by (simp add: cleared_def)
  qed
qed

lemma fold_set_ents:
  assumes "distinct ks" "\<forall>k\<in>set ks. k < length us"
  shows "fold (\<lambda>k us. us[k := (us ! k)\<lparr>un_ent := f (un_ent (us ! k))\<rparr>]) ks us ! j
      = (if j \<in> set ks then (us ! j)\<lparr>un_ent := f (un_ent (us ! j))\<rparr> else us ! j)"
    and "length (fold (\<lambda>k us. us[k := (us ! k)\<lparr>un_ent := f (un_ent (us ! k))\<rparr>]) ks us) = length us"
  using assms by (induction ks arbitrary: us) (auto simp: nth_list_update)

lemma semundo_clear_ok:
  fixes i n :: int
  assumes ok: "undo_ok st"
  defines "st' \<equiv> semundo_clear i n st"
  shows "undo_ok st'" and "cleared i n (padj st p) (padj st' p)" and "st' = st\<lparr>semu := semu st'\<rparr>"
proof -
  have c: "chain_ok (semu_list st) (semu st)" using ok by (simp add: undo_ok_def)
  note d = chain_okD [OF c]
  have lt: "\<forall>k\<in>set (semu_list st). k < length (semu st)" using d(1,3) by simp
  have us: "semu st' ! j = (if j \<in> set (semu_list st) then (semu st ! j)\<lparr>un_ent := clear_ents i n 0 (un_ent (semu st ! j))\<rparr> else semu st ! j)" for j
    unfolding st'_def semundo_clear_def by (simp add: fold_set_ents [OF d(2) lt, of "clear_ents i n 0"])
  have len: "length (semu st') = length (semu st)" and sl: "semu_list st' = semu_list st"
    unfolding st'_def semundo_clear_def by (simp_all add: fold_set_ents [OF d(2) lt, of "clear_ents i n 0"])
  show "st' = st\<lparr>semu := semu st'\<rparr>" by (simp add: st'_def semundo_clear_def)
  have pr: "un_proc (semu st' ! j) = un_proc (semu st ! j)" for j by (simp add: us)
  show ok1: "undo_ok st'"
    unfolding undo_ok_def sl
  proof (rule chain_okI)
    show "ents_ok (un_ent (semu st' ! j))" if "j \<in> set (semu_list st)" for j
      using that clear_ents_ok [OF d(5) [OF that], of n 0 i] by (simp add: us)
  qed (use d(1-4) len in \<open>simp_all add: pr\<close>)
  have uo: "undo_of p st' = undo_of p st" by (simp add: undo_of_def pr sl)
  show "cleared i n (padj st p) (padj st' p)"
  proof (cases "undo_of p st")
    case None
    then show ?thesis by (simp add: padj_def uo cleared_def)
  next
    case (Some k)
    then have k: "k \<in> set (semu_list st)" using undo_of_Some [OF ok] by simp
    show ?thesis using Some clear_ents_ok [OF d(5) [OF k], of n 0 i] k by (simp add: padj_def uo us)
  qed
qed

section \<open>The undo pass of \<open>semop\<close>\<close>

text \<open>The adjustments after the requests \<open>done\<close> (most recent first).\<close>

fun undo_fun :: "nat \<Rightarrow> (int \<times> int \<Rightarrow> u16) \<Rightarrow> sembuf list \<Rightarrow> int \<times> int \<Rightarrow> u16" where
  "undo_fun i f [] = f"
| "undo_fun i f (op # done) =
     (let g = undo_fun i f done; k = (int i, uint (sem_num op)) in if wants_undo op then g(k := g k - sem_op op) else g)"

fun fits :: "nat \<Rightarrow> (int \<times> int \<Rightarrow> u16) \<Rightarrow> sembuf list \<Rightarrow> bool" where
  "fits i f [] = (card (supp f) \<le> SEMUME \<and> finite (supp f))"
| "fits i f (op # done) = (fits i f done \<and> card (supp (undo_fun i f (op # done))) \<le> SEMUME \<and> finite (supp (undo_fun i f (op # done))))"

lemma fits_last: "fits i f done \<Longrightarrow> card (supp (undo_fun i f done)) \<le> SEMUME \<and> finite (supp (undo_fun i f done))"
  by (cases "done") simp_all

lemma wants_undo_val:
  assumes "wants_undo op"
  shows "sint (sem_op op) \<noteq> 0" and "(word_of_int (sint (sem_op op)) :: u16) \<noteq> 0" and "(word_of_int (- sint (sem_op op)) :: u16) = - sem_op op"
    and "sem_op op \<noteq> 0" and "(word_of_int (- sint (sem_op op)) :: u16) \<noteq> 0"
proof -
  show s: "sint (sem_op op) \<noteq> 0" using assms by (simp add: wants_undo_def)
  then show nz: "sem_op op \<noteq> 0" by (metis signed_0)
  then show "(word_of_int (sint (sem_op op)) :: u16) \<noteq> 0" by simp
  show m: "(word_of_int (- sint (sem_op op)) :: u16) = - sem_op op" by (simp add: word_of_int_minus)
  show "(word_of_int (- sint (sem_op op)) :: u16) \<noteq> 0" using nz by (simp add: m)
qed

lemma num_s16: "uint (n :: u16) < 2 ^ 15 \<Longrightarrow> s16 (uint n) = uint n"
  by (rule s16_id) (rule order_trans [of _ 0], simp_all)

lemma supp_drop:
  assumes "finite (supp g)" "card (supp g) \<le> SEMUME" "g k \<noteq> 0"
  shows "card (supp (g(k := 0))) < SEMUME"
proof -
  have "supp (g(k := 0)) = supp g - {k}" by (auto simp: supp_def)
  moreover have "k \<in> supp g" using assms(3) by (simp add: supp_def)
  ultimately show ?thesis using assms card_Diff1_less [of "supp g" k] by simp
qed

lemma semop_revert_ok:
  assumes "undo_ok st" "fits i f done" "padj st p = undo_fun i f done" "supptr = None \<or> supptr = undo_of p st"
    "\<exists>op\<in>set done. wants_undo op \<Longrightarrow> supptr \<noteq> None" "\<forall>op\<in>set done. uint (sem_num op) < 2 ^ 15"
  shows "\<exists>st'. semop_revert p i done supptr st = Ok st' \<and> undo_ok st' \<and> padj st' = (padj st)(p := f)
    \<and> st' = st\<lparr>semu := semu st', semu_list := semu_list st'\<rparr>"
  using assms
proof (induction p i "done" supptr st rule: semop_revert.induct)
  case (1 p i supptr st)
  then show ?case by auto
next
  case (2 p i op "done" supptr st)
  show ?case
  proof (cases "wants_undo op")
    case False
    then have "\<exists>st'. semop_revert p i done supptr st = Ok st' \<and> undo_ok st' \<and> padj st' = (padj st)(p := f)
        \<and> st' = st\<lparr>semu := semu st', semu_list := semu_list st'\<rparr>"
      by (intro 2(1)) (use False 2(3-8) in \<open>simp_all add: Let_def\<close>)
    moreover have "semop_revert p i (op # done) supptr st = semop_revert p i done supptr st" using False by simp
    ultimately show ?thesis by (simp only:)
  next
    case True
    let ?g = "undo_fun i f done" let ?k = "(int i, uint (sem_num op))"
    note w = wants_undo_val [OF True]
    have n: "s16 (uint (sem_num op)) = uint (sem_num op)" using 2(8) by (intro num_s16) simp
    have h: "padj st p = ?g(?k := ?g ?k - sem_op op)" using 2(5) True by (simp add: Let_def fun_upd_def)
    have sp: "supptr \<noteq> None" using 2(7) True by simp
    have room: "padj st p ?k \<noteq> 0 \<or> card (supp (padj st p)) < SEMUME"
    proof (cases "?g ?k = sem_op op")
      case True
      then have "?g ?k \<noteq> 0" "padj st p = ?g(?k := 0)" using w(4) by (simp_all add: h)
      then show ?thesis using supp_drop [of ?g ?k] fits_last [of i f "done"] 2(4) by simp
    next
      case False
      then show ?thesis by (simp add: h)
    qed
    obtain e sp' st' where run': "semundo_adjust p supptr (int i) (uint (sem_num op)) (sint (sem_op op)) st = Ok (e, sp', st')"
      and st1: "undo_ok st'" "st' = st\<lparr>semu := semu st', semu_list := semu_list st'\<rparr>" "sp' = None \<or> sp' = undo_of p st'" "sp' \<noteq> None"
        "e = 0 \<longrightarrow> sp' \<noteq> None \<and> padj st' = (padj st)(p := (padj st p)(?k := padj st p ?k + word_of_int (sint (sem_op op))))" and e: "e = 0"
      using semundo_adjust_ok [OF 2(3,6) n w(1,2), of "int i"] sp room by blast
    have run: "semundo_adjust p supptr (int i) (uint (sem_num op)) (sint (sem_op op)) st = Ok (0, sp', st')" using run' e by simp
    have st': "undo_ok st'" "st' = st\<lparr>semu := semu st', semu_list := semu_list st'\<rparr>" "sp' = undo_of p st'" "sp' \<noteq> None"
      "padj st' = (padj st)(p := (padj st p)(?k := padj st p ?k + sem_op op))"
      using st1 e by simp_all
    have p': "padj st' p = ?g" using h by (simp add: st'(5))
    have "\<exists>st''. semop_revert p i done sp' st' = Ok st'' \<and> undo_ok st'' \<and> padj st'' = (padj st')(p := f)
        \<and> st'' = st'\<lparr>semu := semu st'', semu_list := semu_list st''\<rparr>"
      by (rule 2(2) [where x = 0 and xa = sp' and xb = st']) (use True st'(1,3,4) p' 2(4,8) in simp_all)
    then obtain st'' where rev: "semop_revert p i done sp' st' = Ok st''" "undo_ok st''" "padj st'' = (padj st')(p := f)"
      "st'' = st'\<lparr>semu := semu st'', semu_list := semu_list st''\<rparr>" by blast
    have "st'' = st\<lparr>semu := semu st'', semu_list := semu_list st''\<rparr>" by (subst rev(4), subst st'(2)) simp
    moreover have "semop_revert p i (op # done) supptr st = Ok st''" using True run rev(1) by simp
    moreover have "padj st'' = (padj st)(p := f)" using rev(3) st'(5) by simp
    ultimately show ?thesis using rev(2) by blast
  qed
qed

lemma semop_undos_ok:
  assumes "undo_ok st" "fits i f done" "padj st p = undo_fun i f done" "supptr = None \<or> supptr = undo_of p st"
    "\<exists>op\<in>set done. wants_undo op \<Longrightarrow> supptr \<noteq> None" "\<forall>op\<in>set (done @ ops). uint (sem_num op) < 2 ^ 15"
  shows "\<exists>e st'. semop_undos p i done ops supptr st = Ok (e, st') \<and> undo_ok st'
    \<and> padj st' = (padj st)(p := if e = 0 then undo_fun i f (rev ops @ done) else f)
    \<and> (e = 0 \<or> e = ENOSPC \<or> e = EINVAL) \<and> st' = st\<lparr>semu := semu st', semu_list := semu_list st'\<rparr>"
  using assms
proof (induction p i "done" ops supptr st rule: semop_undos.induct)
  case (1 p i "done" supptr st)
  then show ?case by (auto simp: fun_eq_iff)
next
  case (2 p i "done" op ops supptr st)
  show ?case
  proof (cases "wants_undo op")
    case False
    have fits: "fits i f (op # done)" using 2(4) fits_last [OF 2(4)] False by (simp add: Let_def)
    have "\<exists>e st'. semop_undos p i (op # done) ops supptr st = Ok (e, st') \<and> undo_ok st'
        \<and> padj st' = (padj st)(p := if e = 0 then undo_fun i f (rev ops @ op # done) else f)
        \<and> (e = 0 \<or> e = ENOSPC \<or> e = EINVAL) \<and> st' = st\<lparr>semu := semu st', semu_list := semu_list st'\<rparr>"
      by (intro 2(1)) (use False fits 2(3-8) in \<open>simp_all add: Let_def\<close>)
    moreover have "semop_undos p i done (op # ops) supptr st = semop_undos p i (op # done) ops supptr st" using False by simp
    ultimately show ?thesis by (simp only: rev.simps append.assoc append.simps)
  next
    case True
    let ?g = "undo_fun i f done" let ?k = "(int i, uint (sem_num op))"
    note w = wants_undo_val [OF True]
    have n: "s16 (uint (sem_num op)) = uint (sem_num op)" using 2(8) by (intro num_s16) simp
    have a: "- sint (sem_op op) \<noteq> 0" using w(1) by simp
    obtain e sp' st' where run: "semundo_adjust p supptr (int i) (uint (sem_num op)) (- sint (sem_op op)) st = Ok (e, sp', st')"
      and st': "undo_ok st'" "st' = st\<lparr>semu := semu st', semu_list := semu_list st'\<rparr>" "sp' = None \<or> sp' = undo_of p st'"
      and good: "e = 0 \<Longrightarrow> sp' \<noteq> None \<and> padj st' = (padj st)(p := ?g(?k := ?g ?k - sem_op op))"
      and bad: "e \<noteq> 0 \<Longrightarrow> padj st' = padj st \<and> (e = ENOSPC \<or> e = EINVAL)" and keep: "supptr \<noteq> None \<Longrightarrow> sp' \<noteq> None"
    proof -
      have m: "(word_of_int (- sint (sem_op op)) :: u16) = - sem_op op" by (rule w(3))
      show thesis
        using semundo_adjust_ok [OF 2(3,6) n a w(5), of "int i"] that unfolding m 2(5) by (auto simp del: fun_upd_apply)
    qed
    show ?thesis
    proof (cases "e = 0")
      case e: True
      have pf: "padj st' p = undo_fun i f (op # done)" using good [OF e] True by (simp add: Let_def)
      have fits: "fits i f (op # done)" using 2(4) padj_supp [OF st'(1), of p] by (simp only: fits.simps pf)
      have g: "sp' \<noteq> None" using good [OF e] by blast
      have nums: "\<forall>op\<in>set ((op # done) @ ops). uint (sem_num op) < 2 ^ 15" using 2(8) by simp
      have "\<exists>e st''. semop_undos p i (op # done) ops sp' st' = Ok (e, st'') \<and> undo_ok st''
          \<and> padj st'' = (padj st')(p := if e = 0 then undo_fun i f (rev ops @ op # done) else f)
          \<and> (e = 0 \<or> e = ENOSPC \<or> e = EINVAL) \<and> st'' = st'\<lparr>semu := semu st'', semu_list := semu_list st''\<rparr>"
        by (rule 2(2) [where x = e and xa = sp' and xb = st']) (use True e g nums st'(1,3) pf fits in blast)+
      then obtain e2 st'' where r: "semop_undos p i (op # done) ops sp' st' = Ok (e2, st'')" "undo_ok st''"
        "padj st'' = (padj st')(p := if e2 = 0 then undo_fun i f (rev ops @ op # done) else f)" "e2 = 0 \<or> e2 = ENOSPC \<or> e2 = EINVAL"
        "st'' = st'\<lparr>semu := semu st'', semu_list := semu_list st''\<rparr>" by blast
      have "st'' = st\<lparr>semu := semu st'', semu_list := semu_list st''\<rparr>" by (subst r(5), subst st'(2)) simp
      moreover have "padj st'' = (padj st)(p := if e2 = 0 then undo_fun i f (rev (op # ops) @ done) else f)"
        using r(3) good [OF e] by simp
      ultimately show ?thesis using True e run r(1,2,4) by (intro exI [of _ e2] exI [of _ st'']) simp
    next
      case e: False
      have pf: "padj st' p = undo_fun i f done" using bad [OF e] 2(5) by simp
      have more: "sp' \<noteq> None" if "\<exists>op\<in>set done. wants_undo op"
        using 2(7) [OF that] keep by blast
      obtain st'' where r: "semop_revert p i done sp' st' = Ok st''" "undo_ok st''" "padj st'' = (padj st')(p := f)"
        "st'' = st'\<lparr>semu := semu st'', semu_list := semu_list st''\<rparr>"
        using semop_revert_ok [OF st'(1) 2(4) pf st'(3) more] 2(8) by auto
      have "st'' = st\<lparr>semu := semu st'', semu_list := semu_list st''\<rparr>" by (subst r(4), subst st'(2)) simp
      then show ?thesis using True e run r(1-3) bad [OF e] by (intro exI [of _ e] exI [of _ st'']) simp
    qed
  qed
qed

end
