(* ===== verification/Ix_Sem_Safety.thy ===== *)
theory Ix_Sem_Safety
  imports Ix_Sem_Undo
begin

text \<open>
  Correctness of the semaphore facility: the invariant \<open>sem_ok\<close> (the sets in use tile the first
  \<open>semtot\<close> semaphores of the pool without overlap, the undo structures are sound, and every
  pending adjustment belongs to a semaphore that exists), its preservation by every call, and the
  properties of the calls.
\<close>

section \<open>The invariant\<close>

definition set_size :: "semid_ds \<Rightarrow> int" where
  "set_size ds = (if sem_allocated ds then uint (sem_nsems ds) else 0)"

definition apart :: "semid_ds \<Rightarrow> semid_ds \<Rightarrow> bool" where
  "apart c d \<longleftrightarrow> sem_base c + unat (sem_nsems c) \<le> sem_base d \<or> sem_base d + unat (sem_nsems d) \<le> sem_base c"

definition sets_ok :: "sem_sys \<Rightarrow> bool" where
  "sets_ok st \<longleftrightarrow> length (sema st) = SEMMNI \<and> length (sem_pool st) = SEMMNS
     \<and> semtot st = (\<Sum>i<SEMMNI. set_size (sema st ! i)) \<and> semtot st \<le> int SEMMNS
     \<and> (\<forall>i<SEMMNI. sem_allocated (sema st ! i) \<longrightarrow>
          0 < sem_nsems (sema st ! i) \<and> int (sem_base (sema st ! i)) + uint (sem_nsems (sema st ! i)) \<le> semtot st)
     \<and> (\<forall>i<SEMMNI. \<forall>j<SEMMNI. i \<noteq> j \<longrightarrow> sem_allocated (sema st ! i) \<longrightarrow> sem_allocated (sema st ! j) \<longrightarrow> apart (sema st ! i) (sema st ! j))"

definition key_ok :: "sem_sys \<Rightarrow> int \<times> int \<Rightarrow> bool" where
  "key_ok st k \<longleftrightarrow> 0 \<le> fst k \<and> fst k < int SEMMNI \<and> sem_allocated (sema st ! nat (fst k))
     \<and> 0 \<le> snd k \<and> snd k < uint (sem_nsems (sema st ! nat (fst k)))"

definition sem_ok :: "sem_sys \<Rightarrow> bool" where
  "sem_ok st \<longleftrightarrow> sets_ok st \<and> undo_ok st \<and> (\<forall>p k. padj st p k \<noteq> 0 \<longrightarrow> key_ok st k)"

lemma sets_okI:
  assumes "length (sema st) = SEMMNI" "length (sem_pool st) = SEMMNS"
    "semtot st = (\<Sum>i<SEMMNI. set_size (sema st ! i))" "semtot st \<le> int SEMMNS"
    "\<And>i. i < SEMMNI \<Longrightarrow> sem_allocated (sema st ! i) \<Longrightarrow>
       0 < sem_nsems (sema st ! i) \<and> int (sem_base (sema st ! i)) + uint (sem_nsems (sema st ! i)) \<le> semtot st"
    "\<And>i j. i < SEMMNI \<Longrightarrow> j < SEMMNI \<Longrightarrow> i \<noteq> j \<Longrightarrow> sem_allocated (sema st ! i) \<Longrightarrow> sem_allocated (sema st ! j) \<Longrightarrow>
       apart (sema st ! i) (sema st ! j)"
  shows "sets_ok st"
  unfolding sets_ok_def using assms by blast

lemma sets_okD:
  assumes "sets_ok st"
  shows "length (sema st) = SEMMNI" and "length (sem_pool st) = SEMMNS" and "semtot st = (\<Sum>i<SEMMNI. set_size (sema st ! i))"
    and "semtot st \<le> int SEMMNS" and "0 \<le> semtot st"
    and "i < SEMMNI \<Longrightarrow> sem_allocated (sema st ! i) \<Longrightarrow> 0 < sem_nsems (sema st ! i)"
    and "i < SEMMNI \<Longrightarrow> sem_allocated (sema st ! i) \<Longrightarrow> int (sem_base (sema st ! i)) + uint (sem_nsems (sema st ! i)) \<le> semtot st"
    and "i < SEMMNI \<Longrightarrow> j < SEMMNI \<Longrightarrow> i \<noteq> j \<Longrightarrow> sem_allocated (sema st ! i) \<Longrightarrow> sem_allocated (sema st ! j) \<Longrightarrow>
      apart (sema st ! i) (sema st ! j)"
proof -
  show "0 \<le> semtot st" using assms by (simp add: sets_ok_def set_size_def sum_nonneg)
qed (use assms in \<open>unfold sets_ok_def, blast\<close>)+

lemma set_in_pool:
  assumes "sets_ok st" "i < SEMMNI" "sem_allocated (sema st ! i)"
  shows "sem_base (sema st ! i) + unat (sem_nsems (sema st ! i)) \<le> SEMMNS" and "unat (sem_nsems (sema st ! i)) \<le> SEMMNS"
    and "sem_base (sema st ! i) + unat (sem_nsems (sema st ! i)) \<le> nat (semtot st)"
proof -
  have "int (sem_base (sema st ! i)) + int (unat (sem_nsems (sema st ! i))) \<le> semtot st"
    using sets_okD(7) [OF assms] by simp
  then show "sem_base (sema st ! i) + unat (sem_nsems (sema st ! i)) \<le> nat (semtot st)"
    "sem_base (sema st ! i) + unat (sem_nsems (sema st ! i)) \<le> SEMMNS" "unat (sem_nsems (sema st ! i)) \<le> SEMMNS"
    using sets_okD(4) [OF assms(1)] by linarith+
qed

lemma sem_okD:
  assumes "sem_ok st"
  shows "sets_ok st" and "undo_ok st" and "padj st p k \<noteq> 0 \<Longrightarrow> key_ok st k"
  using assms unfolding sem_ok_def by blast+

lemma sem_okI: "sets_ok st \<Longrightarrow> undo_ok st \<Longrightarrow> (\<And>p k. padj st p k \<noteq> 0 \<Longrightarrow> key_ok st k) \<Longrightarrow> sem_ok st"
  unfolding sem_ok_def by blast

lemma key_ok_cong: "sema st' = sema st \<Longrightarrow> key_ok st' k = key_ok st k"
  by (simp add: key_ok_def)

lemma sets_ok_cong:
  assumes "sema st' = sema st" "semtot st' = semtot st" "length (sem_pool st') = length (sem_pool st)" "sets_ok st"
  shows "sets_ok st'"
  using assms(4) unfolding sets_ok_def assms(1-3) .

lemma sem_ok_cong:
  assumes "sem_ok st" "sema st' = sema st" "semtot st' = semtot st" "length (sem_pool st') = length (sem_pool st)"
    "semu st' = semu st" "semu_list st' = semu_list st"
  shows "sem_ok st'" and "padj st' = padj st"
proof -
  show p: "padj st' = padj st" using padj_cong [OF assms(5,6)] by blast
  have "undo_ok st'" using padj_cong [OF assms(5,6)] sem_okD(2) [OF assms(1)] by blast
  moreover have "sets_ok st'" by (rule sets_ok_cong [OF assms(2-4) sem_okD(1) [OF assms(1)]])
  ultimately show "sem_ok st'" using sem_okD(3) [OF assms(1)] by (intro sem_okI) (simp_all add: p key_ok_cong [OF assms(2)])
qed

lemma sem_ok_undo:
  assumes "sem_ok st" "undo_ok st'" "sema st' = sema st" "semtot st' = semtot st" "length (sem_pool st') = length (sem_pool st)"
    "\<And>p k. padj st' p k \<noteq> 0 \<Longrightarrow> key_ok st k"
  shows "sem_ok st'"
  using assms(2,6) sets_ok_cong [OF assms(3-5) sem_okD(1) [OF assms(1)]] by (intro sem_okI) (simp_all add: key_ok_cong [OF assms(3)])

lemma sum_upd:
  fixes f g :: "nat \<Rightarrow> int"
  assumes "i < n" "\<And>j. j < n \<Longrightarrow> j \<noteq> i \<Longrightarrow> g j = f j"
  shows "(\<Sum>j<n. g j) = (\<Sum>j<n. f j) - f i + g i"
proof -
  have "(\<Sum>j\<in>{..<n} - {i}. g j) = (\<Sum>j\<in>{..<n} - {i}. f j)" by (rule sum.cong) (use assms(2) in auto)
  then show ?thesis using assms(1) by (simp add: sum.remove [of "{..<n}" i])
qed

section \<open>\<open>semget\<close>\<close>

lemma alloc_bit: "((w AND 0x1ff) OR SEM_ALLOC) AND SEM_ALLOC \<noteq> (0 :: u16)"
  by (simp add: bit.conj_disj_distrib2)

lemma sem_error_ok: "sem_ok st \<Longrightarrow> \<exists>st'. sem_error e st = Ok (SemRet e st') \<and> sem_ok st' \<and> sem_pool st' = sem_pool st \<and> padj st' = padj st"
  using sem_ok_cong [of st "st\<lparr>sem_errno := -1\<rparr>"] by (simp add: sem_error_def)

text \<open>The table after a set of \<open>n\<close> semaphores has been put into the free entry \<open>i\<close>.\<close>

lemma sets_ok_add:
  assumes ok: "sets_ok st" and i: "i < SEMMNI" "\<not> sem_allocated (sema st ! i)" and ds: "sem_allocated ds" "sem_base ds = nat (semtot st)"
    and n: "0 < sem_nsems ds" "uint (sem_nsems ds) \<le> int SEMMNS - semtot st" and p: "length pool = SEMMNS"
  shows "sets_ok (st\<lparr>sema := (sema st)[i := ds], semtot := semtot st + uint (sem_nsems ds), sem_pool := pool\<rparr>)" (is "sets_ok ?st")
proof -
  note d = sets_okD [OF ok]
  have tab: "sema ?st ! j = (if j = i then ds else sema st ! j)" if "j < SEMMNI" for j using that d(1) by simp
  have "(\<Sum>j<SEMMNI. set_size (sema ?st ! j)) = (\<Sum>j<SEMMNI. set_size (sema st ! j)) - set_size (sema st ! i) + set_size (sema ?st ! i)"
    by (rule sum_upd [OF i(1)]) (use tab in simp)
  then have sum: "(\<Sum>j<SEMMNI. set_size (sema ?st ! j)) = semtot st + uint (sem_nsems ds)"
    unfolding tab [OF i(1)] using i(2) ds(1) d(3) by (simp add: set_size_def)
  have old: "sem_base (sema st ! j) + unat (sem_nsems (sema st ! j)) \<le> sem_base ds" if "j < SEMMNI" "sem_allocated (sema st ! j)" for j
    using set_in_pool(3) [OF ok that] by (simp add: ds(2))
  show ?thesis
  proof (rule sets_okI)
    show "0 < sem_nsems (sema ?st ! j) \<and> int (sem_base (sema ?st ! j)) + uint (sem_nsems (sema ?st ! j)) \<le> semtot ?st"
      if "j < SEMMNI" "sem_allocated (sema ?st ! j)" for j
    proof (cases "j = i")
      case True
      then show ?thesis unfolding tab [OF that(1)] using n(1) ds(2) d(5) by simp
    next
      case False
      then show ?thesis using that(2) d(6,7) [OF that(1)] unfolding tab [OF that(1)] by (simp add: order_trans)
    qed
    show "apart (sema ?st ! j) (sema ?st ! k)"
      if "j < SEMMNI" "k < SEMMNI" "j \<noteq> k" "sem_allocated (sema ?st ! j)" "sem_allocated (sema ?st ! k)" for j k
      using that old [OF that(1)] old [OF that(2)] d(8) [OF that(1-3)] unfolding tab [OF that(1)] tab [OF that(2)]
      by (auto simp: apart_def split: if_splits)
  qed (use d(1,4) p n(2) sum in simp_all)
qed

lemma semget_create_new:
  assumes ok: "sem_ok st" and new: "0 < nsems" "nsems \<le> int SEMMSL" "nsems \<le> int SEMMNS - semtot st"
    "scan (\<lambda>ds. \<not> sem_allocated ds) 0 (sema st) = Some i"
  shows "\<exists>st'. semget_create cred now k nsems flg st = Ok (SemRet (IXSEQ_TO_IPCID (int i) (sem_perm (sema st' ! i))) st') \<and> i < SEMMNI \<and> sem_ok st'
         \<and> \<not> sem_allocated (sema st ! i) \<and> sem_allocated (sema st' ! i) \<and> key (sem_perm (sema st' ! i)) = k
         \<and> seq (sem_perm (sema st' ! i)) = (seq (sem_perm (sema st ! i)) + 1) AND 0x7fff
         \<and> uint (sem_nsems (sema st' ! i)) = nsems \<and> padj st' = padj st \<and> semlock_holder st' = semlock_holder st
         \<and> (\<forall>j. j \<noteq> i \<longrightarrow> sema st' ! j = sema st ! j) \<and> (\<forall>m < nat (semtot st). sem_pool st' ! m = sem_pool st ! m)
         \<and> (\<forall>m < nat nsems. sem_pool st' ! (sem_base (sema st' ! i) + m) = zero_sem)"
proof -
  note d = sets_okD [OF sem_okD(1) [OF ok]]
  define t where "t = nat (semtot st)"
  define n where "n = nat nsems"
  define ds where "ds = \<lparr>sem_perm = \<lparr>cuid = cr_uid cred, cgid = cr_gid cred, uid = cr_uid cred, gid = cr_gid cred,
      mode = (word_of_int flg AND 0x1ff) OR SEM_ALLOC, seq = (seq (sem_perm (sema st ! i)) + 1) AND 0x7fff, key = k\<rparr>,
    sem_base = t, sem_nsems = word_of_int nsems, sem_otime = 0, sem_ctime = now\<rparr>"
  define pool where "pool = take t (sem_pool st) @ replicate n zero_sem @ drop (t + n) (sem_pool st)"
  define st' where "st' = st\<lparr>sema := (sema st)[i := ds], semtot := semtot st + nsems, sem_pool := pool\<rparr>"
  have i: "i < SEMMNI" "\<not> sem_allocated (sema st ! i)" using new(4) d(1) by (simp_all add: scan_Some)
  have out: "semget_create cred now k nsems flg st = Ok (SemRet (IXSEQ_TO_IPCID (int i) (sem_perm (sema st' ! i))) st')"
    using new by (simp add: semget_create_def Let_def semget_found_def st'_def ds_def pool_def t_def n_def)
  have nn: "uint (word_of_int nsems :: u16) = nsems" using new by (simp add: uint_word_of_int)
  have tn: "t + n \<le> SEMMNS" using new d(5) by (simp add: t_def n_def)
  have len: "length pool = SEMMNS" using tn d(2) by (simp add: pool_def)
  have al: "sem_allocated ds" using alloc_bit by (simp add: ds_def sem_allocated_def)
  have "0 < (word_of_int nsems :: u16)" using new(1) nn by (simp add: word_less_def)
  then have "sets_ok st'"
    using sets_ok_add [OF sem_okD(1) [OF ok] i al _ _ _ len] new(3) nn by (simp add: st'_def ds_def t_def)
  moreover have p: "padj st' = padj st" "undo_ok st'"
    using padj_cong [of st' st] sem_okD(2) [OF ok] by (simp_all add: st'_def)
  moreover have "key_ok st' x" if "key_ok st x" for x
  proof -
    have "nat (fst x) \<noteq> i" using that i(2) by (auto simp: key_ok_def)
    then show ?thesis using that by (simp add: key_ok_def st'_def)
  qed
  ultimately have "sem_ok st'" using sem_okD(3) [OF ok] by (intro sem_okI) simp_all
  moreover have "sema st' ! i = ds" "\<forall>j. j \<noteq> i \<longrightarrow> sema st' ! j = sema st ! j" using i(1) d(1) by (simp_all add: st'_def)
  moreover have "\<forall>m<t. sem_pool st' ! m = sem_pool st ! m" using tn d(2) by (simp add: st'_def pool_def nth_append)
  moreover have "\<forall>m<n. sem_pool st' ! (sem_base ds + m) = zero_sem"
    using tn d(2) by (simp add: st'_def pool_def nth_append ds_def)
  moreover have "semlock_holder st' = semlock_holder st" by (simp add: st'_def)
  ultimately show ?thesis
    using out i al nn p(1) by (intro exI [of _ st'] conjI) (simp_all add: t_def n_def, simp_all add: ds_def)
qed

lemma semget_create_ok:
  assumes ok: "sem_ok st"
  shows "(\<exists>e. semget_create cred now k nsems flg st = sem_error e st)
    \<or> (\<exists>r st'. semget_create cred now k nsems flg st = Ok (SemRet r st') \<and> sem_ok st')"
proof (cases "nsems \<le> 0 \<or> nsems > int SEMMSL \<or> nsems > int SEMMNS - semtot st \<or> scan (\<lambda>ds. \<not> sem_allocated ds) 0 (sema st) = None")
  case True
  then show ?thesis by (auto simp: semget_create_def)
next
  case False
  then obtain i where "scan (\<lambda>ds. \<not> sem_allocated ds) 0 (sema st) = Some i" by blast
  then show ?thesis using semget_create_new [OF ok, of nsems i cred now k flg] False by auto
qed

fun sem_state :: "sem_out \<Rightarrow> sem_sys" where
  "sem_state (SemRet r st) = st"
| "sem_state (SemLockWait st) = st"
| "sem_state (SemSleep w st) = st"

lemma semget_ok:
  assumes ok: "sem_ok st"
  shows "\<exists>out. semget cred now p k nsems flg st = Ok out \<and> sem_ok (sem_state out)"
proof -
  have err: "\<exists>out. sem_error e st = Ok out \<and> sem_ok (sem_state out)" for e using sem_error_ok [OF ok, of e] by auto
  obtain out where c: "semget_create cred now k nsems flg st = Ok out" "sem_ok (sem_state out)"
    using semget_create_ok [OF ok, of cred now k nsems flg] err by (metis sem_state.simps(1))
  define hit where "hit = (if k \<noteq> IPC_PRIVATE then scan (\<lambda>ds. sem_allocated ds \<and> key (sem_perm ds) = k) 0 (sema st) else None)"
  show ?thesis
  proof (cases "sem_blocked p st")
    case True
    then show ?thesis using ok by (simp add: semget_def)
  next
    case False
    then show ?thesis
      using c err ok
      by (cases hit) (simp_all add: semget_def hit_def [symmetric] Let_def semget_found_def)
  qed
qed

section \<open>\<open>semctl\<close>\<close>

lemma fold_shift:
  assumes "b + n \<le> length pool"
  shows "fold (\<lambda>j pool. pool[j := pool ! (j + n)]) [a..<b] pool ! m = (if a \<le> m \<and> m < b then pool ! (m + n) else pool ! m)"
    and "length (fold (\<lambda>j pool. pool[j := pool ! (j + n)]) [a..<b] pool) = length pool"
proof -
  have "length (fold (\<lambda>j pool. pool[j := pool ! (j + n)]) [a..<b] pool) = length pool
    \<and> (\<forall>m. fold (\<lambda>j pool. pool[j := pool ! (j + n)]) [a..<b] pool ! m = (if a \<le> m \<and> m < b then pool ! (m + n) else pool ! m))"
    using assms
  proof (induction b)
    case (Suc b)
    then show ?case by (cases "a \<le> b") (auto simp: nth_list_update)
  qed simp
  then show "fold (\<lambda>j pool. pool[j := pool ! (j + n)]) [a..<b] pool ! m = (if a \<le> m \<and> m < b then pool ! (m + n) else pool ! m)"
    "length (fold (\<lambda>j pool. pool[j := pool ! (j + n)]) [a..<b] pool) = length pool" by simp_all
qed

text \<open>The tables after \<open>IPC_RMID\<close>.\<close>

lemma sem_rmid_tables:
  fixes cred :: ucred
  assumes ok: "sets_ok st" and i: "i < SEMMNI" "sem_allocated (sema st ! i)"
  defines "st' \<equiv> sem_rmid cred i st" and "n \<equiv> unat (sem_nsems (sema st ! i))" and "b \<equiv> sem_base (sema st ! i)"
  shows "length (sema st') = SEMMNI" and "\<not> sem_allocated (sema st' ! i)"
    and "j < SEMMNI \<Longrightarrow> j \<noteq> i \<Longrightarrow> sema st' ! j = (if sem_allocated (sema st ! j) \<and> sem_base (sema st ! j) > b
           then (sema st ! j)\<lparr>sem_base := sem_base (sema st ! j) - n\<rparr> else sema st ! j)"
    and "semtot st' = semtot st - int n" and "length (sem_pool st') = SEMMNS"
    and "sem_pool st' ! m = (if b \<le> m \<and> m < nat (semtot st) - n then sem_pool st ! (m + n) else sem_pool st ! m)"
    and "semu st' = semu (semundo_clear (int i) (-1) st)" and "semu_list st' = semu_list st"
proof -
  note d = sets_okD [OF ok]
  have bn: "b + n \<le> nat (semtot st)" "nat (semtot st) \<le> SEMMNS" using set_in_pool(3) [OF ok i] d(4) by (simp_all add: b_def n_def)
  have t: "nat (semtot st - int n) = nat (semtot st) - n" by simp
  have "nat (semtot st) - n + n \<le> length (sem_pool st)" using bn d(2) by simp
  note fs = fold_shift [OF this, of b]
  show "semtot st' = semtot st - int n" "semu st' = semu (semundo_clear (int i) (-1) st)" "semu_list st' = semu_list st"
    by (simp_all add: st'_def sem_rmid_def Let_def sem_wakeup_def semundo_clear_def n_def)
  have pool: "sem_pool st' = fold (\<lambda>j pool. pool[j := pool ! (j + n)]) [b..<nat (semtot st) - n] (sem_pool st)"
    by (simp add: st'_def sem_rmid_def Let_def sem_wakeup_def semundo_clear_def t [symmetric] n_def [symmetric] b_def [symmetric]
        del: of_nat_unat nat_minus_as_int)
  show "length (sem_pool st') = SEMMNS"
    "sem_pool st' ! m = (if b \<le> m \<and> m < nat (semtot st) - n then sem_pool st ! (m + n) else sem_pool st ! m)"
    using fs d(2) by (simp_all add: pool)
  show "length (sema st') = SEMMNI" using d(1) by (simp add: st'_def sem_rmid_def Let_def sem_wakeup_def semundo_clear_def)
  show "\<not> sem_allocated (sema st' ! i)"
    using i(1) d(1) by (simp add: st'_def sem_rmid_def Let_def sem_wakeup_def semundo_clear_def sem_allocated_def)
  show "sema st' ! j = (if sem_allocated (sema st ! j) \<and> sem_base (sema st ! j) > b
           then (sema st ! j)\<lparr>sem_base := sem_base (sema st ! j) - n\<rparr> else sema st ! j)" if "j < SEMMNI" "j \<noteq> i"
    using that d(1) by (simp add: st'_def sem_rmid_def Let_def sem_wakeup_def semundo_clear_def n_def b_def)
qed

lemma sem_rmid_sets_ok:
  assumes ok: "sets_ok st" and i: "i < SEMMNI" "sem_allocated (sema st ! i)"
  shows "sets_ok (sem_rmid cred i st)"
proof -
  define st' where "st' = sem_rmid cred i st"
  define n where "n = unat (sem_nsems (sema st ! i))"
  define b where "b = sem_base (sema st ! i)"
  note d = sets_okD [OF ok] and t = sem_rmid_tables [OF ok i, where cred = cred, folded st'_def n_def b_def]
  have n0: "0 < n" using d(6) [OF i] by (simp add: n_def unat_gt_0 word_gt_0)
  have al: "sem_allocated (sema st' ! j) \<longleftrightarrow> sem_allocated (sema st ! j)" "sem_nsems (sema st' ! j) = sem_nsems (sema st ! j)"
    if "j < SEMMNI" "j \<noteq> i" for j using t(3) [OF that] by (simp_all add: sem_allocated_def)
  have "(\<Sum>j<SEMMNI. set_size (sema st' ! j)) = (\<Sum>j<SEMMNI. set_size (sema st ! j)) - set_size (sema st ! i) + set_size (sema st' ! i)"
    by (rule sum_upd [OF i(1)]) (use al in \<open>simp add: set_size_def\<close>)
  then have sum: "semtot st' = (\<Sum>j<SEMMNI. set_size (sema st' ! j))"
    using t(2,4) i(2) d(3) by (simp add: set_size_def n_def)
  have pos: "sem_base (sema st ! j) + unat (sem_nsems (sema st ! j)) \<le> b \<and> sema st' ! j = sema st ! j
      \<or> b + n \<le> sem_base (sema st ! j) \<and> sema st' ! j = (sema st ! j)\<lparr>sem_base := sem_base (sema st ! j) - n\<rparr>"
    if "j < SEMMNI" "j \<noteq> i" "sem_allocated (sema st ! j)" for j
  proof -
    have "0 < unat (sem_nsems (sema st ! j))" using d(6) [OF that(1,3)] by (simp add: unat_gt_0 word_gt_0)
    then show ?thesis
      using d(8) [OF i(1) that(1) that(2) [symmetric] i(2) that(3)] t(3) [OF that(1,2)] that(3) n0
      by (auto simp: apart_def n_def b_def)
  qed
  have "sets_ok st'"
  proof (rule sets_okI)
    show "0 < sem_nsems (sema st' ! j) \<and> int (sem_base (sema st' ! j)) + uint (sem_nsems (sema st' ! j)) \<le> semtot st'"
      if j: "j < SEMMNI" "sem_allocated (sema st' ! j)" for j
    proof -
      have ji: "j \<noteq> i" using j t(2) by auto
      have a: "sem_allocated (sema st ! j)" using al(1) [OF j(1) ji] j by simp
      have "int (sem_base (sema st ! j)) + int (unat (sem_nsems (sema st ! j))) \<le> semtot st" using d(7) [OF j(1) a] by simp
      moreover have "int b + int n \<le> semtot st" using d(7) [OF i] by (simp add: b_def n_def)
      ultimately have "int (sem_base (sema st' ! j)) + int (unat (sem_nsems (sema st ! j))) \<le> semtot st'"
        using pos [OF j(1) ji a] t(4) by (auto simp del: of_nat_unat)
      then show ?thesis using d(6) [OF j(1) a] al(2) [OF j(1) ji] by simp
    qed
    show "apart (sema st' ! j) (sema st' ! k)"
      if h: "j < SEMMNI" "k < SEMMNI" "j \<noteq> k" "sem_allocated (sema st' ! j)" "sem_allocated (sema st' ! k)" for j k
    proof -
      have ne: "j \<noteq> i" "k \<noteq> i" using h t(2) by auto
      have a: "sem_allocated (sema st ! j)" "sem_allocated (sema st ! k)" using al(1) h ne by simp_all
      show ?thesis
        using d(8) [OF h(1-3) a] pos [OF h(1) ne(1) a(1)] pos [OF h(2) ne(2) a(2)] by (auto simp: apart_def)
    qed
  qed (use t(1,4,5) sum d(4) in simp_all)
  then show ?thesis by (simp add: st'_def)
qed

lemma sem_rmid_ok:
  assumes ok: "sem_ok st" and i: "i < SEMMNI" "sem_allocated (sema st ! i)"
  shows "sem_ok (sem_rmid cred i st)"
proof -
  define st' where "st' = sem_rmid cred i st"
  note s = sem_okD(1) [OF ok] and t = sem_rmid_tables [OF sem_okD(1) [OF ok] i, where cred = cred, folded st'_def]
  define st1 where "st1 = semundo_clear (int i) (-1) st"
  note c = semundo_clear_ok [OF sem_okD(2) [OF ok], of "int i" "-1", folded st1_def]
  have "semu_list st1 = semu_list st" by (simp add: st1_def semundo_clear_def)
  then have p: "padj st' = padj st1" "undo_ok st' = undo_ok st1"
    using padj_cong [of st' st1] t(7,8) by (simp_all add: st1_def)
  have "key_ok st' k" if "padj st' q k \<noteq> 0" for q k
  proof -
    have "padj st1 q k \<noteq> 0" using that p by simp
    then have k: "padj st q k \<noteq> 0" "fst k \<noteq> int i"
      using c(2) [of q] unfolding cleared_def by (metis prod.collapse)+
    then have ko: "key_ok st k" using sem_okD(3) [OF ok] by blast
    then have j: "nat (fst k) < SEMMNI" "nat (fst k) \<noteq> i" using k(2) by (auto simp: key_ok_def)
    show ?thesis using ko t(3) [OF j] by (simp add: key_ok_def sem_allocated_def)
  qed
  then have "sem_ok st'"
    using sem_rmid_sets_ok [OF s i, of cred] p c(1) by (intro sem_okI) (simp_all add: st'_def)
  then show ?thesis by (simp add: st'_def)
qed

lemma semundo_clear_sem_ok:
  assumes "sem_ok st"
  shows "sem_ok (semundo_clear i n st)"
proof (rule sem_ok_undo [OF assms])
  note c = semundo_clear_ok [OF sem_okD(2) [OF assms], of i n]
  show "undo_ok (semundo_clear i n st)" by (rule c(1))
  show "key_ok st k" if "padj (semundo_clear i n st) p k \<noteq> 0" for p k
  proof -
    have "padj st p k \<noteq> 0" using c(2) [of p] that unfolding cleared_def by metis
    then show ?thesis by (rule sem_okD(3) [OF assms])
  qed
qed (simp_all add: semundo_clear_def)

lemma sem_wakeup_ok [simp]: "sem_ok (sem_wakeup e st) = sem_ok st"
  using sem_ok_cong(1) [of st "sem_wakeup e st"] sem_ok_cong(1) [of "sem_wakeup e st" st] by (auto simp: sem_wakeup_def)

lemma upd_sem_ok: "sem_ok st \<Longrightarrow> sem_ok (upd_sem k f st)"
  by (rule sem_ok_cong(1)) (simp_all add: upd_sem_def)

lemma fold_upd_sem:
  fixes g :: "'a \<Rightarrow> nat" and f :: "'a \<Rightarrow> sem \<Rightarrow> sem"
  defines "st' xs st \<equiv> fold (\<lambda>x. upd_sem (g x) (f x)) xs st"
  shows "sema (st' xs st) = sema st" "semtot (st' xs st) = semtot st" "length (sem_pool (st' xs st)) = length (sem_pool st)"
    "semu (st' xs st) = semu st" "semu_list (st' xs st) = semu_list st" "semlock_holder (st' xs st) = semlock_holder st"
  unfolding st'_def by (induction xs arbitrary: st) (simp_all add: upd_sem_def)

lemma fold_upd_sem_ok: "sem_ok st \<Longrightarrow> sem_ok (fold (\<lambda>x. upd_sem (g x) (f x)) xs st)"
  by (rule sem_ok_cong(1)) (simp_all add: fold_upd_sem)

lemma sem_set_ok:
  assumes ok: "sem_ok st" and i: "i < SEMMNI" and same: "sem_allocated d = sem_allocated (sema st ! i)"
    "sem_base d = sem_base (sema st ! i)" "sem_nsems d = sem_nsems (sema st ! i)"
  shows "sem_ok (st\<lparr>sema := (sema st)[i := d]\<rparr>)" (is "sem_ok ?st")
proof -
  note d = sets_okD [OF sem_okD(1) [OF ok]]
  have tab: "sem_allocated (sema ?st ! j) = sem_allocated (sema st ! j) \<and> sem_base (sema ?st ! j) = sem_base (sema st ! j)
      \<and> sem_nsems (sema ?st ! j) = sem_nsems (sema st ! j)" if "j < SEMMNI" for j
    using that same d(1) by (cases "j = i") simp_all
  have size: "set_size (sema ?st ! j) = set_size (sema st ! j)" if "j < SEMMNI" for j using tab [OF that] by (simp add: set_size_def)
  have "sets_ok ?st"
  proof (rule sets_okI)
    show "semtot ?st = (\<Sum>j<SEMMNI. set_size (sema ?st ! j))" using d(3) size by (simp add: sum.cong [OF refl, of "{..<SEMMNI}" "\<lambda>j. set_size ((sema st)[i := d] ! j)"])
    show "apart (sema ?st ! j) (sema ?st ! k)"
      if "j < SEMMNI" "k < SEMMNI" "j \<noteq> k" "sem_allocated (sema ?st ! j)" "sem_allocated (sema ?st ! k)" for j k
      using d(8) [OF that(1-3)] that(4,5) tab [OF that(1)] tab [OF that(2)] by (simp add: apart_def)
    show "0 < sem_nsems (sema ?st ! j) \<and> int (sem_base (sema ?st ! j)) + uint (sem_nsems (sema ?st ! j)) \<le> semtot ?st"
      if "j < SEMMNI" "sem_allocated (sema ?st ! j)" for j
    proof -
      have "sem_allocated (sema st ! j)" using tab [OF that(1)] that(2) by simp
      from d(6,7) [OF that(1) this] show ?thesis using tab [OF that(1)] by simp
    qed
  qed (use d(1,2,4) in simp_all)
  moreover have "padj ?st = padj st" "undo_ok ?st" using padj_cong [of ?st st] sem_okD(2) [OF ok] by simp_all
  moreover have "key_ok ?st k" if "key_ok st k" for k
  proof -
    have "nat (fst k) < SEMMNI" using that by (auto simp: key_ok_def)
    from tab [OF this] show ?thesis using that by (simp add: key_ok_def del: nth_list_update)
  qed
  ultimately show ?thesis using sem_okD(3) [OF ok] by (intro sem_okI) simp_all
qed

lemma keep_alloc: "((m AND - 512) OR (b AND 511)) AND 512 = m AND (512 :: u16)"
  by (simp add: bit.conj_disj_distrib2 and.assoc)

lemma ix_semctl_ok:
  assumes ok: "sem_ok st" and id: "IPCID_TO_IX semid < int SEMMNI \<or> IPCID_TO_IX semid \<ge> int SEMMSL"
  shows "\<exists>v out. ix_semctl cred now semid semnum cmd st = Ok (v, out) \<and> sem_ok (sem_state out)"
proof -
  define i where "i = nat (IPCID_TO_IX semid)"
  note d = sets_okD [OF sem_okD(1) [OF ok]]
  have err: "\<exists>v out. exec_bind (sem_error e st) (\<lambda>r. Ok (NoData, r)) = Ok (v, out) \<and> sem_ok (sem_state out)" for e
    using sem_error_ok [OF ok, of e] by auto
  show ?thesis
  proof (cases "IPCID_TO_IX semid \<ge> int SEMMSL \<or> \<not> sem_allocated (sema st ! i) \<or> uint (seq (sem_perm (sema st ! i))) \<noteq> IPCID_TO_SEQ (IPCID_TO_IX semid)")
    case True
    have "ix_semctl cred now semid semnum cmd st = exec_bind (sem_error EINVAL st) (\<lambda>r. Ok (NoData, r))"
    proof (cases "IPCID_TO_IX semid \<ge> int SEMMSL")
      case True
      then show ?thesis by (simp add: ix_semctl_def Let_def)
    next
      case False
      then have "\<not> IPCID_TO_IX semid < 0" "\<not> i \<ge> length (sema st)" using id d(1) ipcid_ix_bounds [of semid] by (simp_all add: i_def)
      then show ?thesis using True False by (simp add: ix_semctl_def Let_def i_def [symmetric])
    qed
    then show ?thesis using err [of EINVAL] by (simp only:)
  next
    case False
    then have i: "i < SEMMNI" "sem_allocated (sema st ! i)" "int i = IPCID_TO_IX semid" using id ipcid_ix_bounds [of semid] by (auto simp: i_def)
    have p: "sem_base (sema st ! i) + unat (sem_nsems (sema st ! i)) \<le> SEMMNS" "nat (semtot st) \<le> SEMMNS"
      using set_in_pool(1) [OF sem_okD(1) [OF ok] i(1,2)] d(4) by simp_all
    have num: "sem_base (sema st ! i) + nat semnum < SEMMNS" if "0 \<le> semnum" "semnum < uint (sem_nsems (sema st ! i))"
    proof -
      have "nat semnum < unat (sem_nsems (sema st ! i))" using that by (simp add: nat_less_iff)
      then show ?thesis using p(1) by simp
    qed
    have set_ok: "sem_ok (st\<lparr>sema := (sema st)[i := (sema st ! i)\<lparr>sem_ctime := t, sem_perm := (sem_perm (sema st ! i))\<lparr>uid := a, gid := b,
        mode := (mode (sem_perm (sema st ! i)) AND NOT 0x1ff) OR (m AND 0x1ff)\<rparr>\<rparr>]\<rparr>)" for t a b m
      by (rule sem_set_ok [OF ok i(1)]) (simp_all add: sem_allocated_def keep_alloc)
    have "sem_ok (sem_setall (sema st ! i) v st)" for v unfolding sem_setall_def by (rule fold_upd_sem_ok [OF ok])
    note keep = sem_rmid_ok [OF ok i(1,2)] semundo_clear_sem_ok [OF upd_sem_ok [OF ok]] semundo_clear_sem_ok [OF this] set_ok ok
    have eq: "\<not> (IPCID_TO_IX semid < 0 \<or> IPCID_TO_IX semid \<ge> int SEMMSL)" "\<not> i \<ge> length (sema st)"
      "\<not> (\<not> sem_allocated (sema st ! i) \<or> uint (seq (sem_perm (sema st ! i))) \<noteq> IPCID_TO_SEQ (IPCID_TO_IX semid))"
      using False i d(1) ipcid_ix_bounds [of semid] by auto
    show ?thesis
      using eq keep p num err d(2)
      by (cases cmd) (simp_all add: ix_semctl_def Let_def i_def [symmetric] i(3) [symmetric] ipcperm_def on_sem_def)
  qed
qed

end
