(* ===== verification/Ix_Sem_Op.thy ===== *)
theory Ix_Sem_Op
  imports Ix_Sem_Safety
begin

text \<open>
  \<open>semop\<close> and \<open>semexit\<close>.  A vector of requests is specified by \<open>sem_grant\<close>, a function on the values
  of the set that either grants all requests in turn or none; the code, with its pass over the
  requests, its roll back and its undo bookkeeping, is shown to implement it.
\<close>

section \<open>Passes over the requests\<close>

definition add_val :: "nat \<Rightarrow> u16 \<Rightarrow> sem list \<Rightarrow> sem list" where
  "add_val k a pool = pool[k := (pool ! k)\<lparr>semval := semval (pool ! k) + a\<rparr>]"

definition op_pos :: "semid_ds \<Rightarrow> sembuf \<Rightarrow> nat" where
  "op_pos ds op = sem_base ds + unat (sem_num op)"

definition semop_fwd :: "semid_ds \<Rightarrow> sembuf list \<Rightarrow> sem list \<Rightarrow> sem list" where
  "semop_fwd ds ops pool = fold (\<lambda>op. add_val (op_pos ds op) (sem_op op)) ops pool"

lemma add_val_commute: "add_val k a (add_val l b pool) = add_val l b (add_val k a pool)"
proof (cases "k = l")
  case True
  show ?thesis
    by (cases "k < length pool") (simp_all add: True add_val_def add_ac list_update_beyond)
next
  case False
  then show ?thesis by (simp add: add_val_def list_update_swap)
qed

lemma add_val_zero [simp]: "add_val k 0 pool = pool"
  by (simp add: add_val_def)

lemma add_val_inverse: "add_val k (- a) (add_val k a pool) = pool"
proof (cases "k < length pool")
  case True
  then show ?thesis by (simp add: add_val_def)
next
  case False
  then show ?thesis by (simp add: add_val_def list_update_beyond)
qed

lemma semop_back_fold: "semop_back ds ops pool = fold (\<lambda>op. add_val (op_pos ds op) (- sem_op op)) ops pool"
  by (simp add: semop_back_def Let_def add_val_def [abs_def] op_pos_def)

lemma add_val_fold: "add_val k a (fold (\<lambda>op. add_val (g op) (h op)) ops pool) = fold (\<lambda>op. add_val (g op) (h op)) ops (add_val k a pool)"
  by (induction ops arbitrary: pool) (simp_all add: add_val_commute)

lemma back_fwd: "semop_back ds ops (semop_fwd ds ops pool) = pool"
proof (induction ops arbitrary: pool)
  case (Cons op ops)
  let ?b = "add_val (op_pos ds op) (- sem_op op)" and ?f = "add_val (op_pos ds op) (sem_op op)"
  have "?b (semop_fwd ds ops (?f pool)) = semop_fwd ds ops (?b (?f pool))" unfolding semop_fwd_def by (rule add_val_fold)
  then show ?case using Cons [of pool] by (simp add: semop_back_fold semop_fwd_def add_val_inverse)
qed (simp add: semop_back_fold semop_fwd_def)

lemma fwd_length [simp]: "length (semop_fwd ds ops pool) = length pool"
  unfolding semop_fwd_def by (induction ops arbitrary: pool) (simp_all add: add_val_def)

lemma back_length: "length (semop_back ds ops pool) = length pool"
  unfolding semop_back_fold by (induction ops arbitrary: pool) (simp_all add: add_val_def)

lemma fwd_other: "(\<And>op. op \<in> set ops \<Longrightarrow> op_pos ds op \<noteq> k) \<Longrightarrow> semop_fwd ds ops pool ! k = pool ! k"
  unfolding semop_fwd_def by (induction ops arbitrary: pool) (simp_all add: add_val_def)

lemma fwd_Cons: "semop_fwd ds (op # ops) pool = semop_fwd ds ops (add_val (op_pos ds op) (sem_op op) pool)"
  by (simp add: semop_fwd_def)

lemma fwd_Nil [simp]: "semop_fwd ds [] pool = pool"
  by (simp add: semop_fwd_def)

lemma wants_undo_iff: "wants_undo op \<longleftrightarrow> sem_flg op AND SEM_UNDO \<noteq> 0 \<and> sem_op op \<noteq> 0"
  unfolding wants_undo_def by (metis signed_0 signed_word_eqI)

lemma semop_one_cases:
  assumes "sem_base ds + unat (sem_nsems ds) \<le> length pool"
  shows "(sem_num op \<ge> sem_nsems ds \<and> semop_one ds op w u pool = BadNum)
    \<or> (sem_num op < sem_nsems ds \<and> semop_one ds op w u pool = Break)
    \<or> (sem_num op < sem_nsems ds \<and> (\<exists>w'. semop_one ds op w u pool
          = Granted w' (u \<or> wants_undo op) (add_val (op_pos ds op) (sem_op op) pool)))"
proof (cases "sem_num op \<ge> sem_nsems ds")
  case True
  then show ?thesis by (simp add: semop_one_def)
next
  case False
  then have "sem_base ds + unat (sem_num op) < length pool" using assms by (simp add: not_le word_less_nat_alt)
  then show ?thesis
    using False by (auto simp: semop_one_def Let_def add_val_def op_pos_def wants_undo_iff not_le)
qed

fun pass_ok :: "semid_ds \<Rightarrow> nat \<Rightarrow> sembuf list \<Rightarrow> bool \<Rightarrow> sem list \<Rightarrow> sem_pass \<Rightarrow> bool" where
  "pass_ok ds i ops u pool (PassDone w' u' pool') =
     (pool' = semop_fwd ds ops pool \<and> (\<forall>op\<in>set ops. sem_num op < sem_nsems ds) \<and> u' = (u \<or> (\<exists>op\<in>set ops. wants_undo op)))"
| "pass_ok ds i ops u pool (PassBad pool') = (\<exists>j<length ops. pool' = semop_fwd ds (take j ops) pool \<and> sem_nsems ds \<le> sem_num (ops ! j))"
| "pass_ok ds i ops u pool (PassStop j u' pool') =
     (i \<le> j \<and> j - i < length ops \<and> pool' = semop_fwd ds (take (j - i) ops) pool \<and> sem_num (ops ! (j - i)) < sem_nsems ds)"

lemma semop_pass_ok:
  assumes "sem_base ds + unat (sem_nsems ds) \<le> length pool"
  shows "\<exists>r. semop_pass ds i ops w u pool = Ok r \<and> pass_ok ds i ops u pool r"
  using assms
proof (induction ds i ops w u pool rule: semop_pass.induct)
  case (2 ds i op ops w u pool)
  show ?case
  proof (cases "\<exists>w' u' pool'. semop_one ds op w u pool = Granted w' u' pool'")
    case True
    then obtain w' where g: "semop_one ds op w u pool = Granted w' (u \<or> wants_undo op) (add_val (op_pos ds op) (sem_op op) pool)"
      and n: "sem_num op < sem_nsems ds" using semop_one_cases [OF 2(2), of op w u] by auto
    obtain r where r: "semop_pass ds (Suc i) ops w' (u \<or> wants_undo op) (add_val (op_pos ds op) (sem_op op) pool) = Ok r"
      "pass_ok ds (Suc i) ops (u \<or> wants_undo op) (add_val (op_pos ds op) (sem_op op) pool) r"
      using 2(1) [OF g] 2(2) by (auto simp: add_val_def)
    have "pass_ok ds i (op # ops) u pool r"
    proof (cases r)
      case (PassDone w2 u2 pool2)
      then show ?thesis using r(2) n by (auto simp: fwd_Cons)
    next
      case (PassBad pool2)
      then obtain j where "j < length ops" "pool2 = semop_fwd ds (take j ops) (add_val (op_pos ds op) (sem_op op) pool)" "sem_nsems ds \<le> sem_num (ops ! j)"
        using r(2) by auto
      then show ?thesis using PassBad by (auto simp: fwd_Cons intro!: exI [of _ "Suc j"])
    next
      case (PassStop j u2 pool2)
      then have "j - i = Suc (j - Suc i)" using r(2) by (simp add: Suc_diff_Suc Suc_le_eq)
      then show ?thesis using PassStop r(2) by (auto simp: fwd_Cons)
    qed
    then show ?thesis using g r(1) by simp
  next
    case False
    then show ?thesis using semop_one_cases [OF 2(2), of op w u] by (auto intro!: exI [of _ 0])
  qed
qed simp

section \<open>The abstract vector operation\<close>

text \<open>The requests are granted in turn on the values \<open>v\<close> of the set, or not at all.\<close>

fun sem_grant :: "(u16 \<Rightarrow> u16) \<Rightarrow> sembuf list \<Rightarrow> (u16 \<Rightarrow> u16) option" where
  "sem_grant v [] = Some v"
| "sem_grant v (op # ops) =
     (let x = v (sem_num op) in
      if sint (sem_op op) < 0 \<and> uint x + sint (sem_op op) < 0 then None
      else if sem_op op = 0 \<and> x \<noteq> 0 then None
      else sem_grant (v(sem_num op := x + sem_op op)) ops)"

definition vals :: "sem_sys \<Rightarrow> nat \<Rightarrow> u16 \<Rightarrow> u16" where
  "vals st i n = semval (sem_pool st ! (sem_base (sema st ! i) + unat n))"

lemma semop_one_grant:
  assumes "sem_base ds + unat (sem_nsems ds) \<le> length pool" "sem_num op < sem_nsems ds"
  shows "semop_one ds op w u pool = Break \<longleftrightarrow>
    sint (sem_op op) < 0 \<and> uint (semval (pool ! op_pos ds op)) + sint (sem_op op) < 0 \<or> sem_op op = 0 \<and> semval (pool ! op_pos ds op) \<noteq> 0"
proof -
  have "sem_base ds + unat (sem_num op) < length pool" using assms by (simp add: word_less_nat_alt)
  then show ?thesis using assms(2) by (simp add: semop_one_def Let_def op_pos_def word_gt_0 not_le)
qed

lemma semop_pass_grant:
  assumes "sem_base ds + unat (sem_nsems ds) \<le> length pool" "\<forall>op\<in>set ops. sem_num op < sem_nsems ds"
    "\<forall>n < sem_nsems ds. v n = semval (pool ! (sem_base ds + unat n))"
  shows "case sem_grant v ops of
      None \<Rightarrow> \<exists>j u' pool'. semop_pass ds i ops w u pool = Ok (PassStop j u' pool')
    | Some v' \<Rightarrow> (\<exists>w' u'. semop_pass ds i ops w u pool = Ok (PassDone w' u' (semop_fwd ds ops pool)))
        \<and> (\<forall>n < sem_nsems ds. v' n = semval (semop_fwd ds ops pool ! (sem_base ds + unat n)))"
  using assms
proof (induction v ops arbitrary: i w u pool rule: sem_grant.induct)
  case (2 v op ops)
  have n: "sem_num op < sem_nsems ds" using 2(3) by simp
  have x: "v (sem_num op) = semval (pool ! op_pos ds op)" using 2(4) n by (simp add: op_pos_def)
  have k: "op_pos ds op < length pool" using 2(2) n by (simp add: op_pos_def word_less_nat_alt)
  show ?case
  proof (cases "semop_one ds op w u pool = Break")
    case True
    then have "sem_grant v (op # ops) = None" using semop_one_grant [OF 2(2) n, of w u] x by (auto simp: Let_def)
    then show ?thesis using True by simp
  next
    case False
    then obtain w' where g: "semop_one ds op w u pool = Granted w' (u \<or> wants_undo op) (add_val (op_pos ds op) (sem_op op) pool)"
      using semop_one_cases [OF 2(2), of op w u] n by auto
    let ?x = "v (sem_num op)"
    have b: "\<not> (sint (sem_op op) < 0 \<and> uint ?x + sint (sem_op op) < 0)" "\<not> (sem_op op = 0 \<and> ?x \<noteq> 0)"
      using False semop_one_grant [OF 2(2) n, of w u] x by auto
    have v: "\<forall>m < sem_nsems ds. (v(sem_num op := ?x + sem_op op)) m = semval (add_val (op_pos ds op) (sem_op op) pool ! (sem_base ds + unat m))"
      using 2(4) k x by (auto simp: add_val_def nth_list_update op_pos_def dest: unsigned_word_eqI)
    have pre: "sem_base ds + unat (sem_nsems ds) \<le> length (add_val (op_pos ds op) (sem_op op) pool)" "\<forall>op\<in>set ops. sem_num op < sem_nsems ds"
      using 2(2,3) by (simp_all add: add_val_def)
    note IH = 2(1) [OF refl b pre v, of "Suc i" w' "u \<or> wants_undo op"]
    have gr: "sem_grant v (op # ops) = sem_grant (v(sem_num op := ?x + sem_op op)) ops" using b by (simp only: sem_grant.simps Let_def if_False)
    have step: "semop_pass ds i (op # ops) w u pool = semop_pass ds (Suc i) ops w' (u \<or> wants_undo op) (add_val (op_pos ds op) (sem_op op) pool)"
      using g by simp
    show ?thesis using IH unfolding gr fwd_Cons step .
  qed
qed simp

section \<open>\<open>semop\<close>\<close>

lemma undo_fun_keys: "undo_fun i f done k \<noteq> 0 \<Longrightarrow> f k \<noteq> 0 \<or> (\<exists>op\<in>set done. k = (int i, uint (sem_num op)))"
  by (induction "done") (auto simp: Let_def split: if_splits)

lemma undo_fun_none: "\<forall>op\<in>set done. \<not> wants_undo op \<Longrightarrow> undo_fun i f done = f"
  by (induction "done") (simp_all add: Let_def)

lemma upd_sem_vals: "(\<And>s. semval (f s) = semval s) \<Longrightarrow> map semval (sem_pool (upd_sem k f st)) = map semval (sem_pool st)"
  by (cases "k < length (sem_pool st)") (auto intro!: nth_equalityI simp: upd_sem_def nth_list_update list_update_beyond)

lemma fold_upd_vals:
  "(\<And>x s. semval (f x s) = semval s) \<Longrightarrow> map semval (sem_pool (fold (\<lambda>x. upd_sem (g x) (f x)) xs st)) = map semval (sem_pool st)"
  by (induction xs arbitrary: st) (simp_all add: upd_sem_vals)

lemma semop_done_ok:
  assumes ok: "sem_ok st" and i: "i < SEMMNI" "sem_allocated (sema st ! i)" and nums: "\<forall>op\<in>set sops. sem_num op < sem_nsems (sema st ! i)"
    and u: "(\<exists>op\<in>set sops. wants_undo op) \<Longrightarrow> undos"
  shows "\<exists>e st'. semop_done p i sops wake undos st = Ok (SemRet e st') \<and> (e = 0 \<or> e = ENOSPC \<or> e = EINVAL) \<and> sem_ok st' \<and> sema st' = sema st
    \<and> map semval (sem_pool st') = map semval (if e = 0 then sem_pool st else semop_back (sema st ! i) sops (sem_pool st))
    \<and> padj st' = (if e = 0 then (padj st)(p := undo_fun i (padj st p) (rev sops)) else padj st)"
proof -
  note s = sem_okD(1) [OF ok]
  have "uint (sem_num op) < 2 ^ 15" if "op \<in> set sops" for op
  proof -
    have "sem_num op < sem_nsems (sema st ! i)" using nums that by blast
    then have "unat (sem_num op) < SEMMNS" using set_in_pool(2) [OF s i] by (simp add: word_less_nat_alt)
    then have "int (unat (sem_num op)) < int SEMMNS" by linarith
    then show ?thesis by simp
  qed
  then have n15: "\<forall>op\<in>set ([] @ sops). uint (sem_num op) < 2 ^ 15" by simp
  have fits: "fits i (padj st p) []" using padj_supp [OF sem_okD(2) [OF ok]] by simp
  obtain e st1 where run: "(if undos then semop_undos p i [] sops None st else Ok (0, st)) = Ok (e, st1)"
    and st1: "undo_ok st1" "padj st1 = (padj st)(p := if e = 0 then undo_fun i (padj st p) (rev sops) else padj st p)"
      "e = 0 \<or> e = ENOSPC \<or> e = EINVAL" "st1 = st\<lparr>semu := semu st1, semu_list := semu_list st1\<rparr>"
  proof (cases undos)
    case True
    have pre: "padj st p = undo_fun i (padj st p) []" "None = None \<or> None = undo_of p st" "\<exists>op\<in>set []. wants_undo op \<Longrightarrow> None \<noteq> None" by simp_all
    obtain e st1 where r: "semop_undos p i [] sops None st = Ok (e, st1)" "undo_ok st1"
      "padj st1 = (padj st)(p := if e = 0 then undo_fun i (padj st p) (rev sops @ []) else padj st p)"
      "e = 0 \<or> e = ENOSPC \<or> e = EINVAL" "st1 = st\<lparr>semu := semu st1, semu_list := semu_list st1\<rparr>"
      using semop_undos_ok [OF sem_okD(2) [OF ok] fits pre n15] by blast
    have "(if undos then semop_undos p i [] sops None st else Ok (0, st)) = Ok (e, st1)" using True r(1) by simp
    then show thesis by (rule that [OF _ r(2) _ r(4,5)]) (use r(3) in simp)
  next
    case False
    then have "undo_fun i (padj st p) (rev sops) = padj st p" using u by (intro undo_fun_none) auto
    then show thesis using that [of 0 st] False sem_okD(2) [OF ok] by simp
  qed
  have same: "sema st1 = sema st" "semtot st1 = semtot st" "sem_pool st1 = sem_pool st"
    by (subst st1(4), simp)+
  have keys: "key_ok st k" if "padj st1 q k \<noteq> 0" for q k
  proof (cases "padj st q k = 0")
    case True
    then have "\<exists>op\<in>set sops. k = (int i, uint (sem_num op))"
      using that undo_fun_keys [of i "padj st p" "rev sops" k] by (auto simp: st1(2) split: if_splits)
    then show ?thesis using nums i by (auto simp: key_ok_def word_less_def)
  next
    case False
    then show ?thesis by (rule sem_okD(3) [OF ok])
  qed
  have ok1: "sem_ok st1" by (rule sem_ok_undo [OF ok st1(1) same(1,2)]) (simp add: same(3), rule keys)
  let ?ds = "sema st ! i"
  show ?thesis
  proof (cases "e = 0")
    case False
    define st2 where "st2 = st1\<lparr>sem_pool := semop_back ?ds sops (sem_pool st1), sem_errno := -1\<rparr>"
    have len: "length (semop_back ?ds sops (sem_pool st1)) = length (sem_pool st1)"
      by (rule back_length)
    have "sem_ok st2" "padj st2 = padj st1"
      using sem_ok_cong [OF ok1, of st2] len by (simp_all add: st2_def)
    moreover have "semop_done p i sops wake undos st = Ok (SemRet e st2)"
      using run False same by (simp add: semop_done_def sem_error_def Let_def st2_def)
    ultimately show ?thesis using False st1(2,3) same by (auto simp: st2_def)
  next
    case True
    define st2 where "st2 = fold (\<lambda>op. upd_sem (sem_base ?ds + unat (sem_num op)) (\<lambda>s. s\<lparr>sempid := p\<rparr>)) sops st1"
    define st3 where "st3 = (if wake then sem_wakeup (WakeSet i) st2 else st2)"
    have "sem_ok st2" unfolding st2_def by (rule fold_upd_sem_ok [OF ok1])
    then have "sem_ok st3" by (simp add: st3_def)
    moreover have "map semval (sem_pool st3) = map semval (sem_pool st)"
      using fold_upd_vals [of "\<lambda>op s. s\<lparr>sempid := p\<rparr>" "\<lambda>op. sem_base ?ds + unat (sem_num op)" sops st1] same
      by (simp add: st3_def sem_wakeup_def st2_def)
    moreover have "semu st3 = semu st1" "semu_list st3 = semu_list st1" "sema st3 = sema st"
      by (simp_all add: st3_def sem_wakeup_def st2_def fold_upd_sem same)
    moreover have "semop_done p i sops wake undos st = Ok (SemRet 0 st3)"
      using run True same by (simp add: semop_done_def Let_def st3_def st2_def)
    ultimately show ?thesis using padj_cong [of st3 st1] True st1(2) by (intro exI [of _ 0] exI [of _ st3]) simp
  qed
qed

lemma sem_pool_ok:
  assumes "sem_ok st" "length pool = length (sem_pool st)"
  shows "sem_ok (st\<lparr>sem_pool := pool\<rparr>)" and "padj (st\<lparr>sem_pool := pool\<rparr>) = padj st"
  using sem_ok_cong [OF assms(1), of "st\<lparr>sem_pool := pool\<rparr>"] assms(2) by simp_all

text \<open>The outcome of one run of the loop, by the outcome of its pass.\<close>

lemma semop_loop_cases:
  assumes ok: "sem_ok st" and i: "i < SEMMNI" "sem_allocated (sema st ! i)"
  obtains (bad) pool st' where "semop_pass (sema st ! i) 0 sops False u (sem_pool st) = Ok (PassBad pool)"
      "semop_loop p i sops u st = Ok (SemRet EFBIG st')" "sem_ok st'" "sema st' = sema st" "sem_pool st' = pool" "padj st' = padj st"
  | (stop) j u' pool out where "semop_pass (sema st ! i) 0 sops False u (sem_pool st) = Ok (PassStop j u' pool)"
      "semop_loop p i sops u st = Ok out" "j < length sops"
      "out = SemRet EAGAIN (sem_state out) \<and> sem_flg (sops ! j) AND IPC_NOWAIT \<noteq> 0
       \<or> (\<exists>w. out = SemSleep w (sem_state out) \<and> w_semid w = i \<and> w_sops w = sops) \<and> sem_flg (sops ! j) AND IPC_NOWAIT = 0"
      "sem_ok (sem_state out)" "sema (sem_state out) = sema st" "map semval (sem_pool (sem_state out)) = map semval (sem_pool st)"
      "padj (sem_state out) = padj st"
  | (finish) w' u' e st' where "semop_pass (sema st ! i) 0 sops False u (sem_pool st) = Ok (PassDone w' u' (semop_fwd (sema st ! i) sops (sem_pool st)))"
      "semop_loop p i sops u st = Ok (SemRet e st')" "e = 0 \<or> e = ENOSPC \<or> e = EINVAL" "sem_ok st'" "sema st' = sema st"
      "map semval (sem_pool st') = map semval (if e = 0 then semop_fwd (sema st ! i) sops (sem_pool st) else sem_pool st)"
      "padj st' = (if e = 0 then (padj st)(p := undo_fun i (padj st p) (rev sops)) else padj st)"
proof -
  let ?ds = "sema st ! i"
  have inp: "sem_base ?ds + unat (sem_nsems ?ds) \<le> length (sem_pool st)"
    using set_in_pool(1) [OF sem_okD(1) [OF ok] i] sets_okD(2) [OF sem_okD(1) [OF ok]] by simp
  obtain r where r: "semop_pass ?ds 0 sops False u (sem_pool st) = Ok r" "pass_ok ?ds 0 sops u (sem_pool st) r"
    using semop_pass_ok [OF inp, of 0 sops False u] by blast
  show thesis
  proof (cases r)
    case (PassBad pool)
    then have len: "length pool = length (sem_pool st)" using r(2) by auto
    define st' where "st' = st\<lparr>sem_pool := pool, sem_errno := -1\<rparr>"
    have "sem_ok st'" "padj st' = padj st" using sem_ok_cong [OF ok, of st'] len by (simp_all add: st'_def)
    moreover have "semop_loop p i sops u st = Ok (SemRet EFBIG st')"
      using r(1) PassBad by (simp add: semop_loop_def sem_error_def st'_def)
    ultimately show thesis using bad [of pool st'] r(1) PassBad by (simp add: st'_def)
  next
    case (PassStop j u' pool)
    have j: "j < length sops" "pool = semop_fwd ?ds (take j sops) (sem_pool st)" using r(2) PassStop by simp_all
    then have bk: "semop_back ?ds (take j sops) pool = sem_pool st" by (simp add: back_fwd)
    define k where "k = sem_base ?ds + unat (sem_num (sops ! j))"
    define f where "f = (\<lambda>s :: sem. if sem_op (sops ! j) = 0 then s\<lparr>semzcnt := semzcnt s + 1\<rparr> else s\<lparr>semncnt := semncnt s + 1\<rparr>)"
    define out where "out = (if sem_flg (sops ! j) AND IPC_NOWAIT \<noteq> 0 then SemRet EAGAIN (st\<lparr>sem_errno := -1\<rparr>)
      else SemSleep \<lparr>w_semid = i, w_sops = sops, w_sop = sops ! j, w_semptr = k, w_undos = u'\<rparr> (upd_sem k f st))"
    have eq: "semop_loop p i sops u st = Ok out"
      using r(1) PassStop bk by (simp add: semop_loop_def Let_def sem_error_def out_def k_def f_def)
    have v: "map semval (sem_pool (upd_sem k f st)) = map semval (sem_pool st)" by (rule upd_sem_vals) (simp add: f_def)
    show thesis
      by (rule stop [OF r(1) [unfolded PassStop] eq j(1)])
        (use upd_sem_ok [OF ok, of k f] v ok sem_ok_cong [OF ok, of "st\<lparr>sem_errno := -1\<rparr>"] sem_ok_cong(2) [OF ok, of "upd_sem k f st"]
          in \<open>simp_all add: out_def upd_sem_def\<close>)
  next
    case (PassDone w' u' pool)
    have pd: "pool = semop_fwd ?ds sops (sem_pool st)" "\<forall>op\<in>set sops. sem_num op < sem_nsems ?ds" "u' = (u \<or> (\<exists>op\<in>set sops. wants_undo op))"
      using r(2) PassDone by simp_all
    define st1 where "st1 = st\<lparr>sem_pool := pool\<rparr>"
    have ok1: "sem_ok st1" "padj st1 = padj st" using sem_pool_ok [OF ok, of pool] pd(1) by (simp_all add: st1_def)
    have s1: "sema st1 = sema st" "sem_pool st1 = pool" by (simp_all add: st1_def)
    obtain e st' where d: "semop_done p i sops w' u' st1 = Ok (SemRet e st')" "e = 0 \<or> e = ENOSPC \<or> e = EINVAL" "sem_ok st'" "sema st' = sema st1"
      "map semval (sem_pool st') = map semval (if e = 0 then sem_pool st1 else semop_back (sema st1 ! i) sops (sem_pool st1))"
      "padj st' = (if e = 0 then (padj st1)(p := undo_fun i (padj st1 p) (rev sops)) else padj st1)"
      using semop_done_ok [OF ok1(1) i(1), of sops u' p w'] i(2) pd(2,3) s1 by auto
    have "semop_loop p i sops u st = Ok (SemRet e st')" using r(1) PassDone d(1) by (simp add: semop_loop_def st1_def)
    then show thesis
      using finish [of w' u' e st'] r(1) PassDone pd(1) d(2-6) ok1(2) s1 by (simp add: back_fwd)
  qed
qed

definition id_in_table :: "int \<Rightarrow> bool" where
  "id_in_table semid \<longleftrightarrow> IPCID_TO_IX semid < int SEMMNI \<or> IPCID_TO_IX semid \<ge> int SEMMSL"

lemma semop_loop_ok:
  assumes "sem_ok st" "i < SEMMNI" "sem_allocated (sema st ! i)"
  shows "\<exists>out. semop_loop p i sops u st = Ok out \<and> sem_ok (sem_state out) \<and> (\<forall>w st'. out = SemSleep w st' \<longrightarrow> w_semid w < SEMMNI)"
  using assms by (cases rule: semop_loop_cases [OF assms, of sops u p]) fastforce+

lemma semop_ok:
  assumes ok: "sem_ok st" and id: "id_in_table semid"
  shows "\<exists>out. semop cred p semid sops st = Ok out \<and> sem_ok (sem_state out) \<and> (\<forall>w st'. out = SemSleep w st' \<longrightarrow> w_semid w < SEMMNI)"
proof -
  define i where "i = nat (IPCID_TO_IX semid)"
  note d = sets_okD [OF sem_okD(1) [OF ok]]
  have err: "\<exists>out. sem_error e st = Ok out \<and> sem_ok (sem_state out) \<and> (\<forall>w st'. out = SemSleep w st' \<longrightarrow> w_semid w < SEMMNI)" for e
    using sem_error_ok [OF ok, of e] by auto
  have "IPCID_TO_IX semid = int i" using ipcid_ix_bounds(1) [of semid] by (simp add: i_def)
  moreover from this have "IPCID_TO_IX semid \<ge> int SEMMSL \<or> i < SEMMNI" using id unfolding id_in_table_def by linarith
  ultimately consider (lock) "sem_blocked p st" | (big) "\<not> sem_blocked p st" "IPCID_TO_IX semid \<ge> int SEMMSL"
    | (small) "\<not> sem_blocked p st" "i < SEMMNI" "IPCID_TO_IX semid = int i"
    by blast
  then show ?thesis
  proof cases
    case lock
    then show ?thesis using ok by (simp add: semop_def)
  next
    case big
    then show ?thesis using err by (simp add: semop_def Let_def)
  next
    case small
    show ?thesis
    proof (cases "\<not> sem_allocated (sema st ! i) \<or> uint (seq (sem_perm (sema st ! i))) \<noteq> IPCID_TO_SEQ (int i) \<or> length sops > MAX_SOPS")
      case True
      then show ?thesis using err small d(1) by (simp add: semop_def Let_def ipcperm_def)
    next
      case False
      then have "semop cred p semid sops st = semop_loop p i sops False st"
        using small d(1) by (simp add: semop_def Let_def ipcperm_def)
      then show ?thesis using semop_loop_ok [OF ok small(2)] False by simp
    qed
  qed
qed

lemma semop_resume_ok:
  assumes ok: "sem_ok st" and w: "w_semid w < SEMMNI"
  shows "\<exists>out. semop_resume p w eval st = Ok out \<and> sem_ok (sem_state out)"
proof -
  have err: "\<exists>out. sem_error e st = Ok out \<and> sem_ok (sem_state out)" for e using sem_error_ok [OF ok, of e] by auto
  let ?f = "\<lambda>s :: sem. if sem_op (w_sop w) = 0 then s\<lparr>semzcnt := semzcnt s - 1\<rparr> else s\<lparr>semncnt := semncnt s - 1\<rparr>"
  show ?thesis
  proof (cases "eval \<noteq> 0 \<or> \<not> sem_allocated (sema st ! w_semid w) \<or> uint (seq (sem_perm (sema st ! w_semid w))) \<noteq> IPCID_TO_SEQ (int (w_semid w))")
    case True
    then show ?thesis using err by (simp add: semop_resume_def Let_def)
  next
    case False
    have "sem_allocated (sema (upd_sem (w_semptr w) ?f st) ! w_semid w)" using False by (simp add: upd_sem_def)
    from semop_loop_ok [OF upd_sem_ok [OF ok] w this, of p "w_sops w" "w_undos w"]
    show ?thesis using False by (auto simp: semop_resume_def Let_def)
  qed
qed

section \<open>\<open>semexit\<close>\<close>

definition kpos :: "sem_sys \<Rightarrow> int \<times> int \<Rightarrow> nat" where
  "kpos st k = sem_base (sema st ! nat (fst k)) + nat (snd k)"

definition kval :: "sem_sys \<Rightarrow> int \<times> int \<Rightarrow> u16" where
  "kval st k = semval (sem_pool st ! kpos st k)"

text \<open>The value a pending adjustment leaves.\<close>

definition exit_val :: "u16 \<Rightarrow> u16 \<Rightarrow> u16" where
  "exit_val v a = (if sint a < 0 \<and> uint v < - sint a then 0 else v + a)"

lemma exit_val_zero [simp]: "exit_val v 0 = v"
  by (simp add: exit_val_def)

lemma key_ok_num:
  assumes "sets_ok st" "key_ok st k"
  shows "nat (fst k) < SEMMNI" "sem_allocated (sema st ! nat (fst k))" "nat (snd k) < unat (sem_nsems (sema st ! nat (fst k)))"
    "kpos st k < SEMMNS"
proof -
  show k: "nat (fst k) < SEMMNI" "sem_allocated (sema st ! nat (fst k))" using assms(2) by (auto simp: key_ok_def)
  show n: "nat (snd k) < unat (sem_nsems (sema st ! nat (fst k)))" using assms(2) by (simp add: key_ok_def nat_less_iff)
  show "kpos st k < SEMMNS" using n set_in_pool(1) [OF assms(1) k] by (simp add: kpos_def)
qed

lemma kpos_inj:
  assumes ok: "sets_ok st" and k: "key_ok st k" and l: "key_ok st l" and eq: "kpos st k = kpos st l"
  shows "k = l"
proof -
  note kn = key_ok_num [OF ok k] and ln = key_ok_num [OF ok l]
  have "nat (fst k) = nat (fst l)"
  proof (rule ccontr)
    assume "nat (fst k) \<noteq> nat (fst l)"
    then show False using sets_okD(8) [OF ok kn(1) ln(1) _ kn(2) ln(2)] kn(3) ln(3) eq by (auto simp: apart_def kpos_def)
  qed
  then have "nat (snd k) = nat (snd l)" using eq by (simp add: kpos_def)
  then show ?thesis using \<open>nat (fst k) = nat (fst l)\<close> k l by (simp add: key_ok_def prod_eq_iff eq_nat_nat_iff)
qed

lemma semexit_ents_ok:
  assumes "sem_ok st" "\<forall>e\<in>set es. key_ok st (ent_key e)" "distinct (map ent_key es)"
  shows "\<exists>st'. semexit_ents es st = Ok st' \<and> sem_ok st' \<and> sema st' = sema st \<and> semu st' = semu st \<and> semu_list st' = semu_list st
    \<and> semlock_holder st' = semlock_holder st \<and> (\<forall>k. key_ok st k \<longrightarrow> kval st' k = exit_val (kval st k) (adj es k))"
  using assms
proof (induction es arbitrary: st)
  case (Cons e es)
  note s = sem_okD(1) [OF Cons(2)]
  let ?k = "ent_key e" and ?ds = "sema st ! nat (un_id e)"
  have k: "key_ok st ?k" using Cons(3) by simp
  note kn = key_ok_num [OF s k]
  define f where "f = (\<lambda>s :: sem. s\<lparr>semval := if sint (un_adjval e) < 0 \<and> uint (semval s) < - sint (un_adjval e) then 0 else semval s + un_adjval e\<rparr>)"
  define st1 where "st1 = sem_wakeup (WakeSet (nat (un_id e))) (upd_sem (kpos st ?k) f st)"
  have cond: "\<not> (un_id e < 0 \<or> nat (un_id e) \<ge> length (sema st))" "\<not> \<not> sem_allocated ?ds" "\<not> un_num e \<ge> uint (sem_nsems ?ds)" "\<not> un_num e < 0"
    using k kn(1) sets_okD(1) [OF s] by (auto simp: key_ok_def ent_key_def)
  have pos: "kpos st ?k = sem_base ?ds + nat (un_num e)" "kpos st ?k < length (sem_pool st)"
    using kn(4) sets_okD(2) [OF s] by (simp_all add: kpos_def ent_key_def)
  have step: "semexit_ents (e # es) st = semexit_ents es st1"
    using cond pos by (simp add: on_sem_def st1_def f_def Let_def)
  have s1: "sema st1 = sema st" "semu st1 = semu st" "semu_list st1 = semu_list st" "semlock_holder st1 = semlock_holder st"
    "sem_pool st1 = (sem_pool st)[kpos st ?k := f (sem_pool st ! kpos st ?k)]"
    by (simp_all add: st1_def sem_wakeup_def upd_sem_def)
  have ok1: "sem_ok st1" using upd_sem_ok [OF Cons(2)] by (simp add: st1_def)
  have kv: "kval st1 l = exit_val (kval st l) (if l = ?k then un_adjval e else 0)" if "key_ok st l" for l
  proof (cases "l = ?k")
    case True
    then show ?thesis using pos(2) by (simp add: kval_def kpos_def s1 f_def exit_val_def)
  next
    case False
    then have "kpos st l \<noteq> kpos st ?k" using kpos_inj [OF s that k] by blast
    then show ?thesis using False by (simp add: kval_def kpos_def s1)
  qed
  have "\<forall>e\<in>set es. key_ok st1 (ent_key e)" using Cons(3) key_ok_cong [OF s1(1)] by simp
  then obtain st' where st': "semexit_ents es st1 = Ok st'" "sem_ok st'" "sema st' = sema st1" "semu st' = semu st1" "semu_list st' = semu_list st1"
    "semlock_holder st' = semlock_holder st1" "\<forall>k. key_ok st1 k \<longrightarrow> kval st' k = exit_val (kval st1 k) (adj es k)"
    using Cons(1) [OF ok1] Cons(4) by auto
  have "kval st' l = exit_val (kval st l) (adj (e # es) l)" if "key_ok st l" for l
  proof -
    have "adj (e # es) l = (if l = ?k then un_adjval e else adj es l)"
      using Cons(4) adj_absent [of l es] by (auto simp: adj_def)
    moreover have "l = ?k \<Longrightarrow> adj es l = 0" using Cons(4) adj_absent [of l es] by auto
    moreover have "kval st' l = exit_val (kval st1 l) (adj es l)" using st'(7) that key_ok_cong [OF s1(1)] by blast
    ultimately show ?thesis using kv [OF that] by (cases "l = ?k") simp_all
  qed
  then have all: "\<forall>l. key_ok st l \<longrightarrow> kval st' l = exit_val (kval st l) (adj (e # es) l)" by blast
  show ?case unfolding step by (intro exI [of _ st'] conjI all) (simp_all add: st' s1)
qed simp

lemma semexit_undo_ok:
  assumes ok: "sem_ok st" and k: "undo_of p st = Some k"
  shows "\<exists>st'. semexit_undo k st = Ok st' \<and> sem_ok st' \<and> sema st' = sema st \<and> padj st' = (padj st)(p := (\<lambda>_. 0)) \<and> undo_of p st' = None
    \<and> semlock_holder st' = semlock_holder st \<and> (\<forall>x. key_ok st x \<longrightarrow> kval st' x = exit_val (kval st x) (padj st p x))"
proof -
  note u = sem_okD(2) [OF ok]
  have c: "chain_ok (semu_list st) (semu st)" using u by (simp add: undo_ok_def)
  note d = chain_okD [OF c]
  have k': "k \<in> set (semu_list st)" "un_proc (semu st ! k) = Some p" using k undo_of_Some [OF u] by simp_all
  let ?es = "un_ent (semu st ! k)"
  have es: "ents_ok ?es" by (rule d(5) [OF k'(1)])
  have pk: "padj st p = adj ?es" using k by (simp add: padj_def)
  have "key_ok st (ent_key e)" if "e \<in> set ?es" for e
  proof (rule sem_okD(3) [OF ok])
    show "padj st p (ent_key e) \<noteq> 0" using adj_present [OF ents_okD(1) [OF es] that] ents_okD(2) [OF es that] pk by simp
  qed
  then obtain st1 where st1: "semexit_ents ?es st = Ok st1" "sem_ok st1" "sema st1 = sema st" "semu st1 = semu st" "semu_list st1 = semu_list st"
    "semlock_holder st1 = semlock_holder st" "\<forall>k. key_ok st k \<longrightarrow> kval st1 k = exit_val (kval st k) (adj ?es k)"
    using semexit_ents_ok [OF ok _ ents_okD(1) [OF es]] by blast
  define st' where "st' = st1\<lparr>semu := (semu st1)[k := (semu st1 ! k)\<lparr>un_proc := None\<rparr>], semu_list := remove1 k (semu_list st1)\<rparr>"
  have us: "semu st' ! j = (if j = k then (semu st ! k)\<lparr>un_proc := None\<rparr> else semu st ! j)" for j
    using d(1,3) k'(1) by (simp add: st'_def st1(4) nth_list_update)
  have sl: "set (semu_list st') = set (semu_list st) - {k}" using d(2) by (simp add: st'_def st1(5))
  have ok': "undo_ok st'"
    unfolding undo_ok_def
  proof (rule chain_okI)
    show "distinct (semu_list st')" using d(2) by (simp add: st'_def st1(5) distinct_remove1)
    show "j \<in> set (semu_list st') \<longleftrightarrow> j < SEMMNU \<and> un_proc (semu st' ! j) \<noteq> None" for j
      using d(3) [of j] by (auto simp: sl us)
    show "j = l" if "j \<in> set (semu_list st')" "l \<in> set (semu_list st')" "un_proc (semu st' ! j) = un_proc (semu st' ! l)" for j l
      using that d(4) [of j l] by (simp add: sl us)
    show "ents_ok (un_ent (semu st' ! j))" if "j \<in> set (semu_list st')" for j using that d(5) by (simp add: sl us)
  qed (use d(1) in \<open>simp add: st'_def st1(4)\<close>)
  have np: "undo_of p st' = None"
    unfolding undo_of_None sl using d(4) [OF _ k'(1)] k'(2) by (auto simp: us)
  have pa: "padj st' = (padj st)(p := (\<lambda>_. 0))"
  proof (rule ext)
    fix q
    show "padj st' q = ((padj st)(p := (\<lambda>_. 0))) q"
    proof (cases "q = p")
      case True
      then show ?thesis using np by (simp add: padj_def)
    next
      case False
      have "undo_of q st' = Some l \<longleftrightarrow> undo_of q st = Some l" for l
        unfolding undo_of_Some [OF ok'] undo_of_Some [OF u] using False k'(2) by (auto simp: sl us)
      then have "undo_of q st' = undo_of q st" by (metis not_Some_eq)
      moreover have "undo_of q st \<noteq> Some k" using False k'(2) undo_of_Some [OF u, of q k] by auto
      ultimately show ?thesis using False by (auto simp: padj_def us split: option.split)
    qed
  qed
  have "sem_ok st'"
  proof (rule sem_ok_undo [OF st1(2) ok'])
    show "key_ok st1 x" if "padj st' q x \<noteq> 0" for q x
      using that sem_okD(3) [OF ok, of q x] key_ok_cong [OF st1(3)] by (auto simp: pa split: if_splits)
  qed (simp_all add: st'_def)
  moreover have "semexit_undo k st = Ok st'" using st1(1) by (simp add: semexit_undo_def st'_def)
  moreover have "kval st' x = kval st1 x" for x by (simp add: kval_def kpos_def st'_def)
  ultimately show ?thesis using st1(3,6,7) np pa pk by (intro exI [of _ st']) (simp add: st'_def)
qed

lemma semexit_ok:
  assumes ok: "sem_ok st"
  shows "\<exists>r. semexit p st = Ok r \<and> (case r of Exited st' \<Rightarrow> sem_ok st' | ExitSleep st' \<Rightarrow> st' = st \<and> undo_of p st \<noteq> None)"
    and "undo_of p st \<noteq> None \<Longrightarrow> \<exists>r. semexit_woken p st = Ok r \<and> (case r of Exited st' \<Rightarrow> sem_ok st' | ExitSleep st' \<Rightarrow> st' = st)"
proof -
  have unlock: "sem_ok (semexit_unlock p st')" if "sem_ok st'" for st'
    using that sem_ok_cong(1) [OF that, of "st'\<lparr>semlock_holder := None\<rparr>"] by (simp add: semexit_unlock_def)
  have undo: "\<exists>st'. semexit_undo k st = Ok st' \<and> sem_ok (semexit_unlock p st')" if "undo_of p st = Some k" for k
    using semexit_undo_ok [OF ok that] unlock by blast
  show "\<exists>r. semexit p st = Ok r \<and> (case r of Exited st' \<Rightarrow> sem_ok st' | ExitSleep st' \<Rightarrow> st' = st \<and> undo_of p st \<noteq> None)"
    using ok unlock [OF ok] undo by (cases "undo_of p st") (auto simp: semexit_def)
  show "\<exists>r. semexit_woken p st = Ok r \<and> (case r of Exited st' \<Rightarrow> sem_ok st' | ExitSleep st' \<Rightarrow> st' = st)" if "undo_of p st \<noteq> None"
    using that undo by (auto simp: semexit_woken_def)
qed

end
