(* ===== verification/Ix_Sem_Props.thy ===== *)
theory Ix_Sem_Props
  imports Ix_Sem_Op
begin

text \<open>
  The properties of the semaphore facility: safety of every call, the atomicity of \<open>semop\<close>, what
  \<open>semget\<close>, \<open>IPC_RMID\<close> and \<open>semexit\<close> do, and three defects of the code.
\<close>

section \<open>Calls\<close>






text \<open>The state after \<open>seminit\<close> at the start of the library.\<close>

definition sem_start :: sem_sys where
  "sem_start = \<lparr>sema = replicate SEMMNI \<lparr>sem_perm = zero_perm, sem_base = 0, sem_nsems = 0, sem_otime = 0, sem_ctime = 0\<rparr>,
     sem_pool = replicate SEMMNS zero_sem, semtot = 0, semu = replicate SEMMNU \<lparr>un_proc = None, un_ent = []\<rparr>, semu_list = [],
     semlock_holder = None, sem_errno = 0, sem_trace = []\<rparr>"

lemma sem_start_ok: "sem_ok sem_start" "seminit sem_start = sem_start"
proof -
  have na: "\<not> sem_allocated (sema sem_start ! i)" if "i < SEMMNI" for i
    using that by (simp add: sem_start_def sem_allocated_def zero_perm_def)
  have "sets_ok sem_start"
    by (rule sets_okI) (use na in \<open>simp_all add: set_size_def\<close>, simp_all add: sem_start_def)
  moreover have u: "undo_ok sem_start"
    unfolding undo_ok_def by (rule chain_okI) (simp_all add: sem_start_def)
  moreover have "padj sem_start p k = 0" for p k by (simp add: padj_def undo_of_def sem_start_def)
  ultimately show "sem_ok sem_start" by (intro sem_okI) simp_all
  show "seminit sem_start = sem_start" by (simp add: seminit_def sem_start_def zero_perm_def)
qed

section \<open>Properties\<close>






text \<open>One set of two semaphores in entry 0, with sequence number 0.\<close>

definition demo_ds :: semid_ds where
  "demo_ds = \<lparr>sem_perm = zero_perm\<lparr>mode := SEM_ALLOC\<rparr>, sem_base = 0, sem_nsems = 2, sem_otime = 0, sem_ctime = 0\<rparr>"

definition demo_sys :: sem_sys where
  "demo_sys = sem_start\<lparr>sema := (sema sem_start)[0 := demo_ds], semtot := 2\<rparr>"

definition request :: "u16 \<Rightarrow> u16 \<Rightarrow> sembuf" where
  "request n x = \<lparr>sem_num = n, sem_op = x, sem_flg = 0\<rparr>"

lemma demo_sys_ok: "sem_ok demo_sys" "sema demo_sys ! 0 = demo_ds" "sem_allocated demo_ds" "sem_pool demo_sys = replicate SEMMNS zero_sem"
  "length (sema demo_sys) = SEMMNI" "semlock_holder demo_sys = None"
proof -
  note s = sem_okD [OF sem_start_ok(1)]
  show al: "sem_allocated demo_ds" by (simp add: sem_allocated_def demo_ds_def)
  have st: "demo_sys = sem_start\<lparr>sema := (sema sem_start)[0 := demo_ds], semtot := semtot sem_start + uint (sem_nsems demo_ds), sem_pool := sem_pool sem_start\<rparr>"
    by (simp add: demo_sys_def demo_ds_def) (simp add: sem_start_def)
  have "sets_ok demo_sys"
    unfolding st by (rule sets_ok_add [OF s(1)]) (simp_all add: al, simp_all add: sem_start_def demo_ds_def sem_allocated_def zero_perm_def)
  moreover have "undo_ok demo_sys" using s(2) padj_cong [of demo_sys sem_start] by (simp add: demo_sys_def)
  moreover have "padj demo_sys p k = 0" for p k by (simp add: padj_def undo_of_def demo_sys_def sem_start_def)
  ultimately show "sem_ok demo_sys" by (intro sem_okI) simp_all
  show "sema demo_sys ! 0 = demo_ds" "sem_pool demo_sys = replicate SEMMNS zero_sem" "length (sema demo_sys) = SEMMNI" "semlock_holder demo_sys = None"
    by (simp_all add: demo_sys_def sem_start_def)
qed




lemma seq_15: "uint (x AND 0x7fff :: u16) < 2 ^ 15"
proof -
  have "x AND 0x7fff = take_bit 15 x" using take_bit_eq_mask [of 15 x] by (simp add: mask_eq_exp_minus_1)
  then show ?thesis using take_bit_int_less_exp [of 15 "uint x"] by (simp add: unsigned_take_bit_eq)
qed

text \<open>C31. \<open>semget\<close> creates what it is asked for and finds it again: with room in the pool and in the table,
  a new set gets a free entry, an identifier that encodes the entry and a new sequence number, and
  only zero semaphores; no other set changes; and a later \<open>semget\<close> with the same key returns the
  same identifier and changes nothing.\<close>

theorem semget_create_find:
  assumes ok: "sem_ok st" and free: "\<not> sem_blocked p st" and k: "k \<noteq> IPC_PRIVATE" "flg AND IPC_CREAT \<noteq> 0"
    and none: "\<And>i. i < SEMMNI \<Longrightarrow> sem_allocated (sema st ! i) \<Longrightarrow> key (sem_perm (sema st ! i)) \<noteq> k"
    and room: "0 < nsems" "nsems \<le> int SEMMNS - semtot st" and entry: "\<exists>i<SEMMNI. \<not> sem_allocated (sema st ! i)"
  shows "\<exists>i st'. semget cred now p k nsems flg st = Ok (SemRet (IXSEQ_TO_IPCID (int i) (sem_perm (sema st' ! i))) st')
    \<and> i < SEMMNI \<and> sem_ok st' \<and> \<not> sem_allocated (sema st ! i) \<and> sem_allocated (sema st' ! i) \<and> uint (sem_nsems (sema st' ! i)) = nsems
    \<and> IPCID_TO_IX (IXSEQ_TO_IPCID (int i) (sem_perm (sema st' ! i))) = int i
    \<and> seq (sem_perm (sema st' ! i)) = (seq (sem_perm (sema st ! i)) + 1) AND 0x7fff
    \<and> (\<forall>m < nat nsems. sem_pool st' ! (sem_base (sema st' ! i) + m) = zero_sem)
    \<and> (\<forall>j<SEMMNI. \<forall>m. j \<noteq> i \<longrightarrow> sem_allocated (sema st ! j) \<longrightarrow> m < unat (sem_nsems (sema st ! j)) \<longrightarrow>
         sema st' ! j = sema st ! j \<and> sem_pool st' ! (sem_base (sema st ! j) + m) = sem_pool st ! (sem_base (sema st ! j) + m))
    \<and> (\<forall>cred2 now2 n2. n2 \<le> nsems \<longrightarrow> semget cred2 now2 p k n2 0 st' = Ok (SemRet (IXSEQ_TO_IPCID (int i) (sem_perm (sema st' ! i))) st'))"
proof -
  note s = sem_okD(1) [OF ok]
  note d = sets_okD [OF s]
  have "scan (\<lambda>ds. sem_allocated ds \<and> key (sem_perm ds) = k) 0 (sema st) = None" using none d(1) by (simp add: scan_None)
  then have eq: "semget cred now p k nsems flg st = semget_create cred now k nsems flg st" using free k by (simp add: semget_def)
  have sc: "scan (\<lambda>ds. \<not> sem_allocated ds) 0 (sema st) \<noteq> None" using entry d(1) by (auto simp: scan_None)
  then obtain e where e: "scan (\<lambda>ds. \<not> sem_allocated ds) 0 (sema st) = Some e" by blast
  have "nsems \<le> int SEMMSL" using room d(5) by simp
  then obtain st' where st': "semget_create cred now k nsems flg st = Ok (SemRet (IXSEQ_TO_IPCID (int e) (sem_perm (sema st' ! e))) st')"
    "e < SEMMNI" "sem_ok st'" "\<not> sem_allocated (sema st ! e)" "sem_allocated (sema st' ! e)" "key (sem_perm (sema st' ! e)) = k"
    "seq (sem_perm (sema st' ! e)) = (seq (sem_perm (sema st ! e)) + 1) AND 0x7fff" "uint (sem_nsems (sema st' ! e)) = nsems"
    "semlock_holder st' = semlock_holder st" "\<forall>j. j \<noteq> e \<longrightarrow> sema st' ! j = sema st ! j"
    "\<forall>m < nat (semtot st). sem_pool st' ! m = sem_pool st ! m" "\<forall>m < nat nsems. sem_pool st' ! (sem_base (sema st' ! e) + m) = zero_sem"
    using semget_create_new [OF ok room(1) _ room(2) e, of cred now k flg] by auto
  have "uint (seq (sem_perm (sema st' ! e))) < 2 ^ 15" unfolding st'(7) by (rule seq_15)
  note rt = ipcid_round [OF _ _ this, of "int e"]
  have "scan (\<lambda>ds. sem_allocated ds \<and> key (sem_perm ds) = k) 0 (sema st') = Some e"
    unfolding scan_Some
  proof (intro conjI allI impI)
    show "\<not> (sem_allocated (sema st' ! j) \<and> key (sem_perm (sema st' ! j)) = k)" if "0 \<le> j \<and> j < e" for j
      using that none [of j] st'(2,10) by auto
  qed (use st'(2,5,6) sets_okD(1) [OF sem_okD(1) [OF st'(3)]] in simp_all)
  then have "semget cred2 now2 p k n2 0 st' = Ok (SemRet (IXSEQ_TO_IPCID (int e) (sem_perm (sema st' ! e))) st')"
    if "n2 \<le> nsems" for cred2 now2 n2
    using that free k(1) st'(8,9) by (simp add: semget_def sem_blocked_def Let_def ipcperm_def semget_found_def)
  moreover have "sem_pool st' ! (sem_base (sema st ! j) + m) = sem_pool st ! (sem_base (sema st ! j) + m)"
    if "j < SEMMNI" "sem_allocated (sema st ! j)" "m < unat (sem_nsems (sema st ! j))" for j m
    using st'(11) that(3) set_in_pool(3) [OF s that(1,2)] by simp
  ultimately show ?thesis
    using eq st' rt(2) by (intro exI [of _ e] exI [of _ st'] conjI) simp_all
qed

theorem semget_create_find_witness:
  "sem_ok sem_start \<and> \<not> sem_blocked 1 sem_start
   \<and> (\<exists>i st'. semget \<lparr>cr_uid = 0, cr_gid = 0\<rparr> 5 1 7 3 IPC_CREAT sem_start = Ok (SemRet (IXSEQ_TO_IPCID (int i) (sem_perm (sema st' ! i))) st')
        \<and> sem_ok st' \<and> uint (sem_nsems (sema st' ! i)) = 3)"
proof -
  have na: "\<not> sem_allocated (sema sem_start ! i)" if "i < SEMMNI" for i
    using that by (simp add: sem_start_def sem_allocated_def zero_perm_def)
  have free: "\<not> sem_blocked 1 sem_start" "semtot sem_start = 0" by (simp_all add: sem_blocked_def sem_start_def)
  have entry: "\<exists>i<SEMMNI. \<not> sem_allocated (sema sem_start ! i)" using na [of 0] by (intro exI [of _ 0]) simp
  show ?thesis
    using semget_create_find [OF sem_start_ok(1) free(1) _ _ _ _ _ entry, of 7 IPC_CREAT 3 "\<lparr>cr_uid = 0, cr_gid = 0\<rparr>" 5] na free sem_start_ok(1)
    by auto
qed

text \<open>C32. When a process exits, its pending adjustments are applied to exactly their semaphores, a value
  that would become negative becoming zero; the values of all other semaphores stay, the process
  has no pending adjustments any more and those of the others are unchanged, and a lock of the
  facility that the process held is released.\<close>

theorem semexit_applies:
  assumes ok: "sem_ok st" and free: "\<not> sem_blocked p st"
  shows "\<exists>st'. semexit p st = Ok (Exited st') \<and> sem_ok st' \<and> sema st' = sema st
    \<and> (\<forall>k. key_ok st k \<longrightarrow> kval st' k = exit_val (kval st k) (padj st p k))
    \<and> padj st' = (padj st)(p := (\<lambda>_. 0)) \<and> semlock_holder st' = None"
proof -
  have h: "semlock_holder st = None \<or> semlock_holder st = Some p" using free by (auto simp: sem_blocked_def)
  have unlock: "sem_ok (semexit_unlock p st')" "sema (semexit_unlock p st') = sema st'" "kval (semexit_unlock p st') k = kval st' k"
    "padj (semexit_unlock p st') = padj st'" "semlock_holder (semexit_unlock p st') = None"
    if "sem_ok st'" "semlock_holder st' = semlock_holder st" for st' k
    using that h sem_ok_cong [OF that(1), of "semexit_unlock p st'"]
    by (auto simp: semexit_unlock_def sem_wakeup_def kval_def kpos_def)
  show ?thesis
  proof (cases "undo_of p st")
    case None
    then have z: "padj st p = (\<lambda>_. 0)" by (simp add: padj_def)
    then have "padj st = (padj st)(p := (\<lambda>_. 0))" by (metis fun_upd_triv)
    then show ?thesis using None free unlock [OF ok refl] z by (intro exI [of _ "semexit_unlock p st"]) (simp add: semexit_def)
  next
    case (Some k)
    then obtain st1 where "semexit_undo k st = Ok st1" "sem_ok st1" "sema st1 = sema st" "padj st1 = (padj st)(p := (\<lambda>_. 0))"
      "semlock_holder st1 = semlock_holder st" "\<forall>x. key_ok st x \<longrightarrow> kval st1 x = exit_val (kval st x) (padj st p x)"
      using semexit_undo_ok [OF ok Some] by blast
    then show ?thesis using Some free unlock [of st1] by (intro exI [of _ "semexit_unlock p st1"]) (simp add: semexit_def)
  qed
qed

text \<open>Process 1 owes the semaphores 0 and 1 of the set the adjustments \<open>-1\<close> and \<open>2\<close>.\<close>

definition owing :: "undo list" where
  "owing = [\<lparr>un_adjval = - 1, un_num = 0, un_id = 0\<rparr>, \<lparr>un_adjval = 2, un_num = 1, un_id = 0\<rparr>]"

definition owing_sys :: sem_sys where
  "owing_sys = demo_sys\<lparr>semu := (semu demo_sys)[0 := \<lparr>un_proc = Some 1, un_ent = owing\<rparr>], semu_list := [0]\<rparr>"

lemma owing_adj: "adj owing k = (if k = (0, 0) then - 1 else if k = (0, 1) then 2 else 0)"
  by (cases k) (simp add: adj_def owing_def ent_key_def)

lemma owing_sys_ok: "sem_ok owing_sys" "padj owing_sys 1 = adj owing" "\<not> sem_blocked 1 owing_sys" "sema owing_sys ! 0 = demo_ds"
  "sem_pool owing_sys = replicate SEMMNS zero_sem" "length (sema owing_sys) = SEMMNI"
proof -
  have us: "semu owing_sys ! j = (if j = 0 then \<lparr>un_proc = Some 1, un_ent = owing\<rparr> else \<lparr>un_proc = None, un_ent = []\<rparr>)" if "j < SEMMNU" for j
    using that by (simp add: owing_sys_def demo_sys_def sem_start_def nth_list_update)
  have eo: "ents_ok owing" by (simp add: ents_ok_def owing_def ent_key_def)
  have u: "undo_ok owing_sys"
    unfolding undo_ok_def
  proof (rule chain_okI)
    have l: "semu_list owing_sys = [0]" by (simp add: owing_sys_def)
    show "k \<in> set (semu_list owing_sys) \<longleftrightarrow> k < SEMMNU \<and> un_proc (semu owing_sys ! k) \<noteq> None" for k
      using us [of k] by (auto simp: l split: if_splits)
    show "ents_ok (un_ent (semu owing_sys ! k))" if "k \<in> set (semu_list owing_sys)" for k
      using that us [of 0] eo by (simp add: l)
  qed (simp_all add: owing_sys_def demo_sys_def sem_start_def)
  have uo: "undo_of p owing_sys = (if p = 1 then Some 0 else None)" for p using us [of 0] by (simp add: undo_of_def) (simp add: owing_sys_def)
  show pa: "padj owing_sys 1 = adj owing" using us [of 0] by (simp add: padj_def uo)
  have "key_ok demo_sys k" if "padj owing_sys p k \<noteq> 0" for p k
  proof -
    have "p = 1" using that by (auto simp: padj_def uo split: if_splits)
    then have "k = (0, 0) \<or> k = (0, 1)" using that pa by (auto simp: owing_adj split: if_splits)
    then show ?thesis using demo_sys_ok(2,3) by (auto simp: key_ok_def demo_ds_def)
  qed
  then show "sem_ok owing_sys" by (intro sem_ok_undo [OF demo_sys_ok(1) u]) (simp_all add: owing_sys_def)
  show "\<not> sem_blocked 1 owing_sys" "sema owing_sys ! 0 = demo_ds" "sem_pool owing_sys = replicate SEMMNS zero_sem" "length (sema owing_sys) = SEMMNI"
    using demo_sys_ok by (simp_all add: owing_sys_def sem_blocked_def)
qed

theorem semexit_applies_witness:
  "sem_ok owing_sys \<and> \<not> sem_blocked 1 owing_sys
   \<and> (\<exists>st'. semexit 1 owing_sys = Ok (Exited st') \<and> kval st' (0, 0) = 0 \<and> kval st' (0, 1) = 2 \<and> padj st' 1 (0, 1) = 0)"
proof -
  obtain st' where st': "semexit 1 owing_sys = Ok (Exited st')"
    "\<forall>k. key_ok owing_sys k \<longrightarrow> kval st' k = exit_val (kval owing_sys k) (padj owing_sys 1 k)" "padj st' = (padj owing_sys)(1 := (\<lambda>_. 0))"
    using semexit_applies [OF owing_sys_ok(1,3)] by blast
  have k: "key_ok owing_sys (0, 0)" "key_ok owing_sys (0, 1)"
    using owing_sys_ok(4) demo_sys_ok(3) by (simp_all add: key_ok_def) (simp_all add: demo_ds_def)
  have v: "kval owing_sys (0, 0) = 0" "kval owing_sys (0, 1) = 0"
    by (simp_all add: kval_def kpos_def owing_sys_ok(4,5)) (simp_all add: demo_ds_def zero_sem_def)
  have "kval st' (0, 0) = exit_val 0 (- 1)" "kval st' (0, 1) = exit_val 0 2"
    using st'(2) k v by (simp_all add: owing_sys_ok(2) [simplified] owing_adj)
  then show ?thesis using owing_sys_ok(1,3) st'(1,3) by (simp add: exit_val_def)
qed

section \<open>Defects\<close>

text \<open>C33. A set that \<open>semget\<close> has just created cannot be used.  \<open>semop\<close> and \<open>semctl\<close> cut the identifier down to
  the table index before they take the sequence number out of it, so they only accept sequence
  number 0, and \<open>semget\<close> numbers the sets of an entry from 1: with the identifier of any set whose
  sequence number is not 0 every \<open>semop\<close> and every \<open>semctl\<close> command on the set returns \<open>EINVAL\<close> (as a
  positive result, with \<open>errno\<close> set to \<open>-1\<close>) and does nothing.\<close>

theorem sem_id_unusable:
  assumes ok: "sem_ok st" and free: "\<not> sem_blocked p st" and i: "i < SEMMNI"
    and sq: "seq (sem_perm (sema st ! i)) \<noteq> 0" "uint (seq (sem_perm (sema st ! i))) < 2 ^ 15"
  shows "semop cred p (IXSEQ_TO_IPCID (int i) (sem_perm (sema st ! i))) sops st = Ok (SemRet EINVAL (st\<lparr>sem_errno := -1\<rparr>))
    \<and> (cmd \<notin> {SEMLCK, SEMUNLK} \<longrightarrow> semctl cred now p (IXSEQ_TO_IPCID (int i) (sem_perm (sema st ! i))) semnum cmd st
          = Ok (NoData, SemRet EINVAL (st\<lparr>sem_errno := -1\<rparr>)))"
proof -
  note d = sets_okD [OF sem_okD(1) [OF ok]]
  define id where "id = IXSEQ_TO_IPCID (int i) (sem_perm (sema st ! i))"
  have ix: "IPCID_TO_IX id = int i" using ipcid_round(2) [OF _ _ sq(2), of "int i"] i by (simp add: id_def)
  have z: "IPCID_TO_SEQ (int i) = 0" using ipcid_seq_ix [of id] ix by simp
  have nz: "uint (seq (sem_perm (sema st ! i))) \<noteq> 0" using sq(1) by (simp add: unsigned_eq_0_iff)
  have "semop cred p id sops st = Ok (SemRet EINVAL (st\<lparr>sem_errno := -1\<rparr>))"
    using free ix z nz i d(1) by (simp add: semop_def Let_def sem_error_def)
  moreover have "ix_semctl cred now id semnum cmd st = Ok (NoData, SemRet EINVAL (st\<lparr>sem_errno := -1\<rparr>))"
    using ix z nz i d(1) by (simp add: ix_semctl_def Let_def sem_error_def)
  then have "semctl cred now p id semnum cmd st = Ok (NoData, SemRet EINVAL (st\<lparr>sem_errno := -1\<rparr>))" if "cmd \<notin> {SEMLCK, SEMUNLK}"
    using that free by (cases cmd) (simp_all add: semctl_def)
  ultimately show ?thesis by (simp add: id_def)
qed

text \<open>The first set of the system: sequence number 1.\<close>

definition first_sys :: sem_sys where
  "first_sys = demo_sys\<lparr>sema := (sema demo_sys)[0 := demo_ds\<lparr>sem_perm := (sem_perm demo_ds)\<lparr>seq := 1\<rparr>\<rparr>]\<rparr>"

theorem sem_id_unusable_witness:
  "sem_ok first_sys \<and> IXSEQ_TO_IPCID 0 (sem_perm (sema first_sys ! 0)) = 65536
   \<and> semop \<lparr>cr_uid = 0, cr_gid = 0\<rparr> 1 65536 [request 0 3] first_sys = Ok (SemRet EINVAL (first_sys\<lparr>sem_errno := -1\<rparr>))"
proof -
  have ok: "sem_ok first_sys"
    unfolding first_sys_def by (rule sem_set_ok [OF demo_sys_ok(1)]) (simp_all add: demo_sys_ok(2), simp add: sem_allocated_def demo_ds_def)
  have s: "sema first_sys ! 0 = demo_ds\<lparr>sem_perm := (sem_perm demo_ds)\<lparr>seq := 1\<rparr>\<rparr>" using demo_sys_ok(5) by (simp add: first_sys_def)
  have free: "\<not> sem_blocked 1 first_sys" using demo_sys_ok(6) by (simp add: first_sys_def sem_blocked_def)
  have sq: "seq (sem_perm (sema first_sys ! 0)) = 1" by (simp add: s)
  have id: "IXSEQ_TO_IPCID 0 (sem_perm (sema first_sys ! 0)) = 65536"
    using ipcid_round(1) [of 0 "sem_perm (sema first_sys ! 0)"] sq by simp
  show ?thesis
    using sem_id_unusable [OF ok free, of 0 "\<lparr>cr_uid = 0, cr_gid = 0\<rparr>" "[request 0 3]"] ok sq id by simp
qed

text \<open>A request for a semaphore that the set does not have makes \<open>semop\<close> return \<open>EFBIG\<close> in the middle of the
  vector, without taking back the requests it has already performed.\<close>

theorem semop_efbig_partial:
  "\<exists>st st'. sem_ok st \<and> semop \<lparr>cr_uid = 0, cr_gid = 0\<rparr> 1 0 [request 0 3, request 7 1] st = Ok (SemRet EFBIG st')
     \<and> vals st 0 0 = 0 \<and> vals st' 0 0 = 3"
proof -
  have p: "semop_pass demo_ds 0 [request 0 3, request 7 1] False False (replicate SEMMNS zero_sem)
      = Ok (PassBad ((replicate SEMMNS zero_sem)[0 := zero_sem\<lparr>semval := 3\<rparr>]))"
    by (simp add: semop_one_def request_def demo_ds_def zero_sem_def Let_def)
  define st' where "st' = demo_sys\<lparr>sem_pool := (replicate SEMMNS zero_sem)[0 := zero_sem\<lparr>semval := 3\<rparr>], sem_errno := -1\<rparr>"
  have sq: "seq (sem_perm demo_ds) = 0" by (simp add: demo_ds_def zero_perm_def)
  have "semop \<lparr>cr_uid = 0, cr_gid = 0\<rparr> 1 0 [request 0 3, request 7 1] demo_sys = semop_loop 1 0 [request 0 3, request 7 1] False demo_sys"
    using demo_sys_ok sq by (simp add: semop_def Let_def sem_blocked_def ipcperm_def ipcid_ix_mod ipcid_seq_div)
  also have "\<dots> = Ok (SemRet EFBIG st')"
    using p demo_sys_ok(2,4) by (simp add: semop_loop_def Let_def sem_error_def st'_def)
  finally have "semop \<lparr>cr_uid = 0, cr_gid = 0\<rparr> 1 0 [request 0 3, request 7 1] demo_sys = Ok (SemRet EFBIG st')" .
  moreover have "vals demo_sys 0 0 = 0" by (simp add: vals_def demo_sys_ok(2,4)) (simp add: demo_ds_def zero_sem_def)
  moreover have "vals st' 0 0 = 3" by (simp add: vals_def st'_def demo_sys_ok(2)) (simp add: demo_ds_def)
  ultimately show ?thesis using demo_sys_ok(1) by blast
qed

text \<open>\<open>SETVAL\<close> should cancel the pending adjustments of the semaphore it sets, but the search for them
  stops at the first entry for the set even if it is for another semaphore: the adjustment
  survives, and the exit of the process later changes the value that was set.\<close>

theorem setval_keeps_adjustment:
  "\<exists>st st'. sem_ok st \<and> semctl \<lparr>cr_uid = 0, cr_gid = 0\<rparr> 5 2 0 1 (SETVAL 0) st = Ok (NoData, SemRet 0 st') \<and> padj st' 1 (0, 1) = 2"
proof -
  define st1 where "st1 = upd_sem 1 (\<lambda>s. s\<lparr>semval := 0\<rparr>) owing_sys"
  have sq: "seq (sem_perm demo_ds) = 0" "sem_base demo_ds = 0" "sem_nsems demo_ds = 2" by (simp_all add: demo_ds_def zero_perm_def)
  have h: "\<not> sem_blocked 2 owing_sys" by (simp add: sem_blocked_def owing_sys_def demo_sys_ok(6))
  have run: "semctl \<lparr>cr_uid = 0, cr_gid = 0\<rparr> 5 2 0 1 (SETVAL 0) owing_sys = Ok (NoData, SemRet 0 (sem_wakeup (WakeSet 0) (semundo_clear 0 1 st1)))"
    using h owing_sys_ok(4,5,6) demo_sys_ok(3) sq
    by (simp add: semctl_def ix_semctl_def Let_def ipcperm_def ipcid_ix_mod ipcid_seq_div on_sem_def st1_def)
  have "clear_ents 0 1 0 owing = owing" by (subst clear_ents.simps) (simp add: owing_def)
  moreover have "length (semu owing_sys) = SEMMNU" "semu_list owing_sys = [0]" "semu owing_sys ! 0 = \<lparr>un_proc = Some 1, un_ent = owing\<rparr>"
    by (simp_all add: owing_sys_def demo_sys_def sem_start_def)
  ultimately have "semu (sem_wakeup (WakeSet 0) (semundo_clear 0 1 st1)) = semu owing_sys"
    "semu_list (sem_wakeup (WakeSet 0) (semundo_clear 0 1 st1)) = semu_list owing_sys"
    by (simp_all add: sem_wakeup_def semundo_clear_def st1_def upd_sem_def) (metis list_update_id)
  then have "padj (sem_wakeup (WakeSet 0) (semundo_clear 0 1 st1)) = padj owing_sys" using padj_cong by blast
  then have "padj (sem_wakeup (WakeSet 0) (semundo_clear 0 1 st1)) 1 (0, 1) = 2" using owing_sys_ok(2) owing_adj [of "(0, 1)"] by simp
  then show ?thesis using run owing_sys_ok(1) by blast
qed

end
