(* ===== verification/Ix_Signal.thy ===== *)
theory Ix_Signal
  imports Ix_Prelude
begin

text \<open>
  Signals of one process: \<open>library/kern_sig.c\<close>, \<open>general/sigsetops.c\<close> and the frames that
  \<open>library/machdep_68k.c\<close> and \<open>library/trap.S\<close> push and pop.  The record \<open>sigproc\<close> holds the
  members of \<open>struct user\<close> the signal code reads and writes.  The user stack is the list of
  the contexts and frames pushed on it, topmost first: a saved stack pointer is the rest of
  the list.  Code that may stop a traced process returns a value saying where it sleeps.

  Signal sets are words as in the code; \<open>sigs\<close> reads one as the set of its signal numbers,
  and the lemmas of this theory turn every word operation into one on sets.
\<close>

section \<open>Constants\<close>

abbreviation (input) NSIG :: nat where "NSIG \<equiv> 33"

abbreviation (input) SIGINT :: nat where "SIGINT \<equiv> 2"
abbreviation (input) SIGQUIT :: nat where "SIGQUIT \<equiv> 3"
abbreviation (input) SIGILL :: nat where "SIGILL \<equiv> 4"
abbreviation (input) SIGTRAP :: nat where "SIGTRAP \<equiv> 5"
abbreviation (input) SIGIOT :: nat where "SIGIOT \<equiv> 6"
abbreviation (input) SIGEMT :: nat where "SIGEMT \<equiv> 7"
abbreviation (input) SIGFPE :: nat where "SIGFPE \<equiv> 8"
abbreviation (input) SIGKILL :: nat where "SIGKILL \<equiv> 9"
abbreviation (input) SIGBUS :: nat where "SIGBUS \<equiv> 10"
abbreviation (input) SIGSEGV :: nat where "SIGSEGV \<equiv> 11"
abbreviation (input) SIGSYS :: nat where "SIGSYS \<equiv> 12"
abbreviation (input) SIGURG :: nat where "SIGURG \<equiv> 16"
abbreviation (input) SIGSTOP :: nat where "SIGSTOP \<equiv> 17"
abbreviation (input) SIGTSTP :: nat where "SIGTSTP \<equiv> 18"
abbreviation (input) SIGCONT :: nat where "SIGCONT \<equiv> 19"
abbreviation (input) SIGCHLD :: nat where "SIGCHLD \<equiv> 20"
abbreviation (input) SIGTTIN :: nat where "SIGTTIN \<equiv> 21"
abbreviation (input) SIGTTOU :: nat where "SIGTTOU \<equiv> 22"
abbreviation (input) SIGIO :: nat where "SIGIO \<equiv> 23"
abbreviation (input) SIGWINCH :: nat where "SIGWINCH \<equiv> 28"
abbreviation (input) SIGINFO :: nat where "SIGINFO \<equiv> 29"
abbreviation (input) SIGMSG :: nat where "SIGMSG \<equiv> 32"

abbreviation (input) SIG_DFL :: u32 where "SIG_DFL \<equiv> 0"
abbreviation (input) SIG_IGN :: u32 where "SIG_IGN \<equiv> 1"

abbreviation (input) SA_ONSTACK :: u32 where "SA_ONSTACK \<equiv> 1"
abbreviation (input) SA_RESTART :: u32 where "SA_RESTART \<equiv> 2"
abbreviation (input) SA_NOCLDSTOP :: u32 where "SA_NOCLDSTOP \<equiv> 8"
abbreviation (input) SV_ONSTACK :: u32 where "SV_ONSTACK \<equiv> 1"
abbreviation (input) SV_INTERRUPT :: u32 where "SV_INTERRUPT \<equiv> 2"

abbreviation (input) SIG_BLOCK :: int where "SIG_BLOCK \<equiv> 1"
abbreviation (input) SIG_UNBLOCK :: int where "SIG_UNBLOCK \<equiv> 2"
abbreviation (input) SIG_SETMASK :: int where "SIG_SETMASK \<equiv> 3"

abbreviation (input) STRC :: u32 where "STRC \<equiv> 0x10"
abbreviation (input) SWTED :: u32 where "SWTED \<equiv> 0x20"
abbreviation (input) SNOCLDSTOP :: u32 where "SNOCLDSTOP \<equiv> 0x80"
abbreviation (input) SOMASK :: u32 where "SOMASK \<equiv> 0x200"
abbreviation (input) SVFORK :: u32 where "SVFORK \<equiv> 0x1000"

abbreviation (input) SSLEEP :: nat where "SSLEEP \<equiv> 1"
abbreviation (input) SWAIT :: nat where "SWAIT \<equiv> 2"
abbreviation (input) SRUN :: nat where "SRUN \<equiv> 3"
abbreviation (input) SSTOP :: nat where "SSTOP \<equiv> 6"

text \<open>\<open>1 << (m - 1)\<close>; a negative shift count shifts everything out on the 68000 family.\<close>

definition sigmask :: "nat \<Rightarrow> u32" where
  "sigmask m = (if m = 0 then 0 else push_bit (m - 1) 1)"

definition sigcantmask :: u32 where
  "sigcantmask = sigmask SIGKILL OR sigmask SIGSTOP"

definition ttystopsigmask :: u32 where
  "ttystopsigmask = sigmask SIGTSTP OR sigmask SIGTTIN OR sigmask SIGTTOU"

definition stopsigmask :: u32 where
  "stopsigmask = sigmask SIGSTOP OR ttystopsigmask"

definition defaultignmask :: u32 where
  "defaultignmask = sigmask SIGCONT OR sigmask SIGIO OR sigmask SIGURG OR sigmask SIGCHLD
     OR sigmask SIGWINCH OR sigmask SIGINFO OR sigmask SIGMSG"

section \<open>Signal sets (general/sigsetops.c)\<close>

definition sigemptyset :: "u32 \<Rightarrow> u32" where
  "sigemptyset w = 0"

definition sigfillset :: "u32 \<Rightarrow> u32" where
  "sigfillset w = NOT 0"

definition sigaddset :: "u32 \<Rightarrow> nat \<Rightarrow> u32" where
  "sigaddset w signo = w OR sigmask signo"

definition sigdelset :: "u32 \<Rightarrow> nat \<Rightarrow> u32" where
  "sigdelset w signo = w AND NOT (sigmask signo)"

definition sigismember :: "u32 \<Rightarrow> nat \<Rightarrow> bool" where
  "sigismember w signo = ((w AND NOT (sigmask signo)) \<noteq> 0)"

text \<open>\<open>ffs\<close>: test bit 0, 1, ... until one is set; the count of tested bits, 0 for no bit.\<close>

function ffs_again :: "u32 \<Rightarrow> nat \<Rightarrow> nat" where
  "ffs_again w i = (if bit w i \<or> 32 \<le> i then Suc i else ffs_again w (Suc i))"
  by pat_completeness auto
termination
  by (relation "measure (\<lambda>(w, i). 32 - i)") auto

declare ffs_again.simps [simp del]

definition ffs :: "u32 \<Rightarrow> nat" where
  "ffs w = (if w = 0 then 0 else ffs_again w 0)"

section \<open>The process\<close>

record sigact =
  sa_handler :: u32
  sa_mask :: u32
  sa_flags :: u32

record sigcontext =
  sc_onstack :: bool
  sc_mask :: u32

datatype catcher = Catch u32 | Sig_exit | Stopped_process_handler

record sigframe =
  sf_signum :: nat
  sf_code :: u32
  sf_addr :: u32
  sf_handler :: catcher
  sf_sc :: sigcontext

text \<open>\<open>UHandler sf\<close> is a frame whose entering context has been loaded: its handler is running.\<close>

datatype uobj = UContext sigcontext | UFrame sigframe sigcontext | UHandler sigframe

record sigproc =
  u_signal :: "nat \<Rightarrow> u32"
  u_sigmask :: "nat \<Rightarrow> u32"
  u_sigonstack :: u32
  u_sigintr :: u32
  u_oldmask :: u32
  u_onstack :: bool
  u_sigsp :: u32
  u_sig :: nat
  u_code :: u32
  p_flag :: u32
  p_stat :: nat
  p_xstat :: nat
  p_sig :: u32
  p_sigmask :: u32
  p_sigignore :: u32
  p_sigcatch :: u32
  u_nsignals :: u32
  u_mask_state :: u32
  u_errno :: int
  ustack :: "uobj list"

abbreviation traced :: "'a sigproc_scheme \<Rightarrow> bool" where
  "traced p \<equiv> p_flag p AND STRC \<noteq> 0"

abbreviation vforked :: "'a sigproc_scheme \<Rightarrow> bool" where
  "vforked p \<equiv> p_flag p AND SVFORK \<noteq> 0"

section \<open>sigaction, sigvec\<close>

definition setsigvec :: "nat \<Rightarrow> sigact \<Rightarrow> 'a sigproc_scheme \<Rightarrow> 'a sigproc_scheme" where
  "setsigvec sig sa p =
     (let b = sigmask sig;
          p1 = p\<lparr>u_signal := (u_signal p)(sig := sa_handler sa),
                 u_sigmask := (u_sigmask p)(sig := sa_mask sa AND NOT sigcantmask),
                 u_sigintr := (if sa_flags sa AND SA_RESTART = 0 then u_sigintr p OR b
                               else u_sigintr p AND NOT b),
                 u_sigonstack := (if sa_flags sa AND SA_ONSTACK \<noteq> 0 then u_sigonstack p OR b
                                  else u_sigonstack p AND NOT b),
                 p_flag := (if sig = SIGCHLD
                            then if sa_flags sa AND SA_NOCLDSTOP \<noteq> 0 then p_flag p OR SNOCLDSTOP
                                 else p_flag p AND NOT SNOCLDSTOP
                            else p_flag p)\<rparr>
      in if sa_handler sa = SIG_IGN \<or> (b AND defaultignmask \<noteq> 0 \<and> sa_handler sa = SIG_DFL)
         then p1\<lparr>p_sig := p_sig p1 AND NOT b,
                 p_sigignore := (if sig \<noteq> SIGCONT then p_sigignore p1 OR b else p_sigignore p1),
                 p_sigcatch := p_sigcatch p1 AND NOT b\<rparr>
         else p1\<lparr>p_sigignore := p_sigignore p1 AND NOT b,
                 p_sigcatch := (if sa_handler sa = SIG_DFL then p_sigcatch p1 AND NOT b
                                else p_sigcatch p1 OR b)\<rparr>)"

definition bad_signal :: "int \<Rightarrow> bool" where
  "bad_signal sig \<longleftrightarrow> sig \<le> 0 \<or> sig \<ge> 33 \<or> sig = 9 \<or> sig = 17"

text \<open>The first component is the return value, the second what is stored through \<open>osa\<close>.\<close>

definition sigaction ::
  "int \<Rightarrow> sigact option \<Rightarrow> 'a sigproc_scheme \<Rightarrow> int \<times> sigact option \<times> 'a sigproc_scheme" where
  "sigaction sig nsa p =
     (if bad_signal sig then (-1, None, p\<lparr>u_errno := EINVAL\<rparr>)
      else let s = nat sig; b = sigmask s;
               osa = \<lparr>sa_handler = u_signal p s, sa_mask = u_sigmask p s,
                      sa_flags = (if u_sigonstack p AND b \<noteq> 0 then SA_ONSTACK else 0)
                              OR (if u_sigintr p AND b = 0 then SA_RESTART else 0)
                              OR (if p_flag p AND SNOCLDSTOP \<noteq> 0 then SA_NOCLDSTOP else 0)\<rparr>
           in (0, Some osa, case nsa of None \<Rightarrow> p | Some sa \<Rightarrow> setsigvec s sa p))"

definition sigvec ::
  "int \<Rightarrow> sigact option \<Rightarrow> 'a sigproc_scheme \<Rightarrow> int \<times> sigact option \<times> 'a sigproc_scheme" where
  "sigvec sig nsv p =
     (if bad_signal sig then (-1, None, p\<lparr>u_errno := EINVAL\<rparr>)
      else let s = nat sig; b = sigmask s;
               osv = \<lparr>sa_handler = u_signal p s, sa_mask = u_sigmask p s,
                      sa_flags = (if u_sigonstack p AND b \<noteq> 0 then SV_ONSTACK else 0)
                              OR (if u_sigintr p AND b \<noteq> 0 then SV_INTERRUPT else 0)
                              OR (if p_flag p AND SNOCLDSTOP \<noteq> 0 then SA_NOCLDSTOP else 0)\<rparr>
           in (0, Some osv,
               case nsv of None \<Rightarrow> p
               | Some sv \<Rightarrow> setsigvec s (sv\<lparr>sa_flags := sa_flags sv XOR SA_RESTART\<rparr>) p))"

section \<open>Frames (machdep_68k.c, trap.S)\<close>

text \<open>
  \<open>sendsig\<close> pushes a frame for the handler, holding the context to return to, and on top of it
  the context that enters the handler.  \<open>do_sigreturn\<close> loads a context.
\<close>

definition sendsig ::
  "catcher \<Rightarrow> nat \<Rightarrow> u32 \<Rightarrow> u32 \<Rightarrow> u32 \<Rightarrow> 'a sigproc_scheme \<Rightarrow> 'a sigproc_scheme" where
  "sendsig catcher sig returnmask code addr p =
     (let oonstack = u_onstack p;
          p1 = (if \<not> u_onstack p \<and> u_sigonstack p AND sigmask sig \<noteq> 0 then p\<lparr>u_onstack := True\<rparr> else p);
          sf = \<lparr>sf_signum = sig, sf_code = code, sf_addr = addr, sf_handler = catcher,
                sf_sc = \<lparr>sc_onstack = oonstack, sc_mask = returnmask\<rparr>\<rparr>;
          sc = \<lparr>sc_onstack = u_onstack p1, sc_mask = p_sigmask p1\<rparr>
      in p1\<lparr>ustack := UFrame sf sc # ustack p1\<rparr>)"

definition do_sigreturn :: "sigcontext \<Rightarrow> 'a sigproc_scheme \<Rightarrow> 'a sigproc_scheme" where
  "do_sigreturn sc p = p\<lparr>u_onstack := sc_onstack sc, p_sigmask := sc_mask sc\<rparr>"

section \<open>issig\<close>

text \<open>
  \<open>IsStop mask p\<close>: the process is traced and waits in \<open>stopped_process_handler\<close>; it resumes
  at the label \<open>restart\<close> with \<open>mask\<close>.  \<open>sv\<close> is the supervisor bit of the status register.
\<close>

datatype 'a issig_out = IsRet int 'a | IsStop u32 'a

definition stop_self :: "'a sigproc_scheme \<Rightarrow> 'a sigproc_scheme" where
  "stop_self p = p\<lparr>p_stat := SSTOP, p_flag := p_flag p AND NOT SWTED\<rparr>"

text \<open>The final \<open>switch\<close> of the loop: true for the branches that return the signal.\<close>

definition issig_returns :: "'a sigproc_scheme \<Rightarrow> nat \<Rightarrow> bool" where
  "issig_returns p sig =
     (if u_signal p sig = SIG_DFL
      then sigmask sig AND stopsigmask = 0 \<and> sigmask sig AND defaultignmask = 0
      else u_signal p sig \<noteq> SIG_IGN)"

definition issig_mask :: "'a sigproc_scheme \<Rightarrow> u32" where
  "issig_mask p =
     (let mask = p_sig p AND NOT (p_sigmask p) in if vforked p then mask AND NOT stopsigmask else mask)"

definition clrsig :: "u32 \<Rightarrow> 'a sigproc_scheme \<Rightarrow> 'a sigproc_scheme" where
  "clrsig m p = p\<lparr>p_sig := p_sig p AND NOT m\<rparr>"

section \<open>Words as sets of signals\<close>

definition sigs :: "u32 \<Rightarrow> nat set" where
  "sigs w = {n. 0 < n \<and> bit w (n - 1)}"

named_theorems sigs_simps \<open>word operations as set operations\<close>

lemma sigs_range: "n \<in> sigs w \<Longrightarrow> 1 \<le> n \<and> n \<le> 32"
  by (auto simp: sigs_def dest: bit_imp_le_length)

lemma finite_sigs [simp]: "finite (sigs w)"
  by (rule finite_subset [of _ "{1..32}"]) (auto dest: sigs_range)

lemma sigs_and: "sigs (a AND b) = sigs a \<inter> sigs b"
  by (auto simp: sigs_def bit_and_iff)

lemma sigs_or [sigs_simps]: "sigs (a OR b) = sigs a \<union> sigs b"
  by (auto simp: sigs_def bit_or_iff)

lemma sigs_not: "sigs (NOT a) = {1..32} - sigs a"
  by (auto simp: sigs_def bit_not_iff dest: bit_imp_le_length)

lemma sigs_andnot [sigs_simps]: "sigs (a AND NOT b) = sigs a - sigs b"
  by (auto simp: sigs_and sigs_not dest: sigs_range)

lemma sigs_0 [sigs_simps]: "sigs 0 = {}"
  by (simp add: sigs_def)

lemma sigs_sigmask: "sigs (sigmask n) = {n} \<inter> {1..32}"
  by (auto simp: sigs_def sigmask_def bit_exp_iff possible_bit_word)

lemma sigs_sigmask_range [sigs_simps]: "0 < n \<Longrightarrow> n < NSIG \<Longrightarrow> sigs (sigmask n) = {n}"
  by (auto simp: sigs_sigmask)

lemma sigs_eq: "sigs a = sigs b \<longleftrightarrow> a = b"
proof
  assume eq: "sigs a = sigs b"
  show "a = b"
  proof (rule bit_eqI)
    fix n
    from eq have "Suc n \<in> sigs a \<longleftrightarrow> Suc n \<in> sigs b" by simp
    then show "bit a n = bit b n" by (simp add: sigs_def)
  qed
qed simp

lemma sigs_empty_iff: "sigs a = {} \<longleftrightarrow> a = 0"
  using sigs_eq [of a 0] by (simp add: sigs_0)

lemma and_sigmask_iff: "0 < n \<Longrightarrow> n < NSIG \<Longrightarrow> a AND sigmask n \<noteq> 0 \<longleftrightarrow> n \<in> sigs a"
  by (subst sigs_empty_iff [symmetric]) (auto simp: sigs_and sigs_simps)

lemma sigmask_and_iff: "0 < n \<Longrightarrow> n < NSIG \<Longrightarrow> sigmask n AND a \<noteq> 0 \<longleftrightarrow> n \<in> sigs a"
  by (subst sigs_empty_iff [symmetric]) (auto simp: sigs_and sigs_simps)

lemma and_sigmask_0_iff: "0 < n \<Longrightarrow> n < NSIG \<Longrightarrow> a AND sigmask n = 0 \<longleftrightarrow> n \<notin> sigs a"
  using and_sigmask_iff by blast

lemma sigmask_and_0_iff: "0 < n \<Longrightarrow> n < NSIG \<Longrightarrow> sigmask n AND a = 0 \<longleftrightarrow> n \<notin> sigs a"
  using sigmask_and_iff by blast

lemmas mask_iffs = and_sigmask_iff sigmask_and_iff and_sigmask_0_iff sigmask_and_0_iff

lemma sigs_cantmask [sigs_simps]: "sigs sigcantmask = {SIGKILL, SIGSTOP}"
  by (auto simp: sigcantmask_def sigs_simps)

lemma sigs_stopmask [sigs_simps]: "sigs stopsigmask = {SIGSTOP, SIGTSTP, SIGTTIN, SIGTTOU}"
  by (auto simp: stopsigmask_def ttystopsigmask_def sigs_simps)

lemma sigs_ignmask [sigs_simps]:
  "sigs defaultignmask = {SIGCONT, SIGIO, SIGURG, SIGCHLD, SIGWINCH, SIGINFO, SIGMSG}"
  by (auto simp: defaultignmask_def sigs_simps)

lemma ffs_again_spec:
  assumes "bit w k" and "i \<le> k" and "\<forall>j. i \<le> j \<and> j < k \<longrightarrow> \<not> bit w j"
  shows "ffs_again w i = Suc k"
  using assms
proof (induction w i rule: ffs_again.induct)
  case (1 w i)
  have "k < 32" using bit_imp_le_length [OF "1.prems"(1)] by simp
  then show ?case
    using "1.prems" "1.IH" by (cases "i = k") (auto simp: ffs_again.simps [of w i] ffs_again.simps [of w k])
qed

lemma ffs_least: "w \<noteq> 0 \<Longrightarrow> ffs w = Min (sigs w)"
proof -
  assume w: "w \<noteq> 0"
  let ?m = "Min (sigs w)"
  from w have ne: "sigs w \<noteq> {}" by (simp add: sigs_empty_iff)
  then have m: "?m \<in> sigs w" by (simp add: Min_in)
  have least: "\<not> bit w j" if "j < ?m - 1" for j
  proof
    assume "bit w j"
    then have "Suc j \<in> sigs w" by (simp add: sigs_def)
    then have "?m \<le> Suc j" by (simp add: Min_le)
    with that show False by simp
  qed
  from m have "bit w (?m - 1)" "0 < ?m" by (auto simp: sigs_def)
  with least ffs_again_spec [of w "?m - 1" 0] w show ?thesis by (simp add: ffs_def)
qed

lemma ffs_in: "w \<noteq> 0 \<Longrightarrow> ffs w \<in> sigs w"
  by (simp add: ffs_least Min_in sigs_empty_iff)

lemma ffs_range: "w \<noteq> 0 \<Longrightarrow> 0 < ffs w \<and> ffs w < NSIG"
  using ffs_in [of w] sigs_range by fastforce

section \<open>issig: the loop\<close>

text \<open>The signals that are pending and not blocked.\<close>

definition pend :: "'a sigproc_scheme \<Rightarrow> nat set" where
  "pend p = sigs (p_sig p) - sigs (p_sigmask p)"

lemma pend_finite [simp]: "finite (pend p)"
  by (simp add: pend_def)

lemma issig_mask_pend: "sigs (issig_mask p) = pend p - (if vforked p then sigs stopsigmask else {})"
  by (auto simp: issig_mask_def pend_def Let_def sigs_andnot)

lemma pend_clrsig: "pend (clrsig m p) = pend p - sigs m"
  by (auto simp: pend_def clrsig_def sigs_andnot)

lemma issig_step:
  assumes "issig_mask p \<noteq> 0"
  shows "ffs (issig_mask p) \<in> pend p" and "0 < ffs (issig_mask p)" and "ffs (issig_mask p) < NSIG"
    and "card (pend (clrsig (sigmask (ffs (issig_mask p))) p)) < card (pend p)"
proof -
  show m: "ffs (issig_mask p) \<in> pend p"
    using ffs_in [OF assms] by (simp add: issig_mask_pend split: if_splits)
  show r: "0 < ffs (issig_mask p)" "ffs (issig_mask p) < NSIG" using ffs_range [OF assms] by auto
  have "pend (clrsig (sigmask (ffs (issig_mask p))) p) = pend p - {ffs (issig_mask p)}"
    using r by (simp add: pend_clrsig sigs_simps)
  with m show "card (pend (clrsig (sigmask (ffs (issig_mask p))) p)) < card (pend p)"
    by (metis card_Diff1_less pend_finite)
qed

function issig_loop :: "bool \<Rightarrow> 'a sigproc_scheme \<Rightarrow> 'a sigproc_scheme issig_out" where
  "issig_loop sv p =
     (if issig_mask p = 0 then IsRet 0 p
      else let sig = ffs (issig_mask p); mask = sigmask sig
           in if mask AND p_sigignore p \<noteq> 0 \<and> \<not> traced p then issig_loop sv (clrsig mask p)
              else if p_stat p \<noteq> SWAIT \<and> traced p \<and> \<not> vforked p
              then let p1 = p\<lparr>p_xstat := sig\<rparr>
                   in if sv
                      then IsRet (-1) (sendsig Stopped_process_handler 0 0 0 0 (p1\<lparr>u_mask_state := mask\<rparr>))
                      else IsStop mask (stop_self p1)
              else if issig_returns p sig then IsRet (int sig) p
              else issig_loop sv (clrsig mask p))"
  by pat_completeness auto
termination
  by (relation "measure (\<lambda>(sv, p). card (pend p))") (auto simp: issig_step)

declare issig_loop.simps [simp del]

definition issig_restart :: "bool \<Rightarrow> u32 \<Rightarrow> 'a sigproc_scheme \<Rightarrow> 'a sigproc_scheme issig_out" where
  "issig_restart sv m0 p =
     (let p1 = clrsig m0 p; sig = p_xstat p1
      in if sig = 0 then issig_loop sv p1
         else let m = sigmask sig; p2 = p1\<lparr>p_sig := p_sig p1 OR m\<rparr>
              in if p_sigmask p2 AND m \<noteq> 0 then issig_loop sv p2
                 else if issig_returns p2 sig then IsRet (int sig) p2
                 else issig_loop sv (clrsig m p2))"

definition issig :: "bool \<Rightarrow> 'a sigproc_scheme \<Rightarrow> 'a sigproc_scheme issig_out" where
  "issig sv p =
     (if u_mask_state p \<noteq> 0 then issig_restart sv (u_mask_state p) (p\<lparr>u_mask_state := 0\<rparr>)
      else issig_loop sv p)"

definition CURSIG :: "bool \<Rightarrow> 'a sigproc_scheme \<Rightarrow> 'a sigproc_scheme issig_out" where
  "CURSIG sv p =
     (if p_sig p = 0 \<or> (\<not> traced p \<and> p_sig p AND NOT (p_sigmask p) = 0) then IsRet 0 p
      else issig sv p)"


text \<open>
  A returning \<open>issig\<close> only discards pending signals, unless it arranges for the process to
  stop; a signal it returns is pending and not blocked.
\<close>

lemma clrsig_clrsig [simp]: "clrsig a (clrsig b p) = clrsig (b OR a) p"
  by (simp add: clrsig_def ac_simps)

lemma clrsig_0 [simp]: "clrsig 0 p = p"
  by (simp add: clrsig_def)

lemma issig_loop_cases:
  assumes "issig_loop sv p = out"
  obtains (none) "issig_mask p = 0" "out = IsRet 0 p"
    | (next_one) "issig_mask p \<noteq> 0" "issig_loop sv (clrsig (sigmask (ffs (issig_mask p))) p) = out"
        "traced p \<or> ffs (issig_mask p) \<in> sigs (p_sigignore p) \<or> \<not> issig_returns p (ffs (issig_mask p))"
    | (stop) q where "issig_mask p \<noteq> 0" "traced p" "out = IsStop (sigmask (ffs (issig_mask p))) (stop_self q)"
        "q = p\<lparr>p_xstat := ffs (issig_mask p)\<rparr>" "\<not> sv"
    | (stop_sv) q where "issig_mask p \<noteq> 0" "traced p" "out = IsRet (-1) (sendsig Stopped_process_handler 0 0 0 0 q)"
        "q = p\<lparr>p_xstat := ffs (issig_mask p), u_mask_state := sigmask (ffs (issig_mask p))\<rparr>" "sv"
    | (found) "issig_mask p \<noteq> 0" "out = IsRet (int (ffs (issig_mask p))) p" "issig_returns p (ffs (issig_mask p))"
        "traced p \<or> ffs (issig_mask p) \<notin> sigs (p_sigignore p)"
proof -
  let ?sig = "ffs (issig_mask p)"
  note out = assms [symmetric, unfolded issig_loop.simps [of sv p] Let_def]
  consider (a) "issig_mask p = 0"
    | (b) "issig_mask p \<noteq> 0" "sigmask ?sig AND p_sigignore p \<noteq> 0 \<and> \<not> traced p"
    | (c) "issig_mask p \<noteq> 0" "\<not> (sigmask ?sig AND p_sigignore p \<noteq> 0 \<and> \<not> traced p)"
        "p_stat p \<noteq> SWAIT \<and> traced p \<and> \<not> vforked p"
    | (d) "issig_mask p \<noteq> 0" "\<not> (sigmask ?sig AND p_sigignore p \<noteq> 0 \<and> \<not> traced p)"
        "\<not> (p_stat p \<noteq> SWAIT \<and> traced p \<and> \<not> vforked p)" by argo
  then show thesis
  proof cases
    case a
    with out show thesis by (intro none) simp_all
  next
    case b
    with out issig_step [OF b(1)] show thesis by (intro next_one) (simp_all add: mask_iffs)
  next
    case c
    show thesis
    proof (cases sv)
      case True
      show thesis by (rule stop_sv [OF c(1) _ _ refl True]) (use c True out in simp_all)
    next
      case False
      show thesis by (rule stop [OF c(1) _ _ refl False]) (use c False out in simp_all)
    qed
  next
    case d
    note i = issig_step [OF d(1)]
    show thesis
    proof (cases "issig_returns p ?sig")
      case True
      from d(2) i have "traced p \<or> ?sig \<notin> sigs (p_sigignore p)" by (auto simp: mask_iffs)
      then show thesis by (rule found [OF d(1) _ True, rotated]) (simp only: out d True if_False if_True)
    next
      case False
      from out have "issig_loop sv (clrsig (sigmask ?sig) p) = out" by (simp only: d False if_False)
      then show thesis by (rule next_one [OF d(1)]) (simp add: False)
    qed
  qed
qed

lemma issig_loop_ret:
  "issig_loop sv p = IsRet s p' \<Longrightarrow> s \<noteq> -1 \<Longrightarrow>
     (\<exists>m. p' = clrsig m p \<and> sigs m \<subseteq> pend p) \<and>
     (s = 0 \<and> issig_mask p' = 0 \<or>
      0 < s \<and> s = int (ffs (issig_mask p')) \<and> issig_mask p' \<noteq> 0 \<and> issig_returns p' (nat s))"
proof (induction "card (pend p)" arbitrary: p rule: less_induct)
  case less
  from less.prems(1) show ?case
  proof (cases rule: issig_loop_cases)
    case next_one
    let ?m = "sigmask (ffs (issig_mask p))"
    note step = issig_step [OF next_one(1)]
    from less.hyps [OF step(4) next_one(2) less.prems(2)]
    obtain m where m: "p' = clrsig (?m OR m) p" "sigs m \<subseteq> pend (clrsig ?m p)"
      and rest: "s = 0 \<and> issig_mask p' = 0 \<or>
        0 < s \<and> s = int (ffs (issig_mask p')) \<and> issig_mask p' \<noteq> 0 \<and> issig_returns p' (nat s)" by auto
    have "sigs (?m OR m) \<subseteq> pend p" using m(2) step by (auto simp: sigs_simps pend_clrsig)
    with m(1) rest show ?thesis by blast
  qed (use less.prems(2) in \<open>auto simp: sigs_0 issig_step intro!: exI [of _ 0]\<close>)
qed

lemma clrsig_simps [simp]:
  "u_signal (clrsig m p) = u_signal p" "u_sigmask (clrsig m p) = u_sigmask p"
  "p_sigmask (clrsig m p) = p_sigmask p" "p_sigignore (clrsig m p) = p_sigignore p"
  "p_sigcatch (clrsig m p) = p_sigcatch p" "p_flag (clrsig m p) = p_flag p"
  "p_stat (clrsig m p) = p_stat p" "ustack (clrsig m p) = ustack p"
  "u_oldmask (clrsig m p) = u_oldmask p" "u_mask_state (clrsig m p) = u_mask_state p"
  "p_xstat (clrsig m p) = p_xstat p" "u_onstack (clrsig m p) = u_onstack p"
  "u_sigonstack (clrsig m p) = u_sigonstack p" "u_sig (clrsig m p) = u_sig p"
  "p_sig (clrsig m p) = p_sig p AND NOT m"
  by (simp_all add: clrsig_def)

lemma issig_returns_clrsig [simp]: "issig_returns (clrsig m p) sig = issig_returns p sig"
  by (simp add: issig_returns_def)

section \<open>psig\<close>

definition core :: int where
  "core = -1"

text \<open>One pass of the \<open>do\<close> loop, up to the test of its condition.\<close>

definition psig_one :: "nat \<Rightarrow> 'a sigproc_scheme \<Rightarrow> 'a sigproc_scheme" where
  "psig_one sig p0 =
     (let mask = sigmask sig; p = clrsig mask p0; action = u_signal p sig
      in if action \<noteq> SIG_DFL
         then let returnmask = (if p_flag p AND SOMASK \<noteq> 0 then u_oldmask p else p_sigmask p);
                  p1 = p\<lparr>p_flag := (if p_flag p AND SOMASK \<noteq> 0 then p_flag p AND NOT SOMASK else p_flag p),
                         p_sigmask := p_sigmask p OR u_sigmask p sig OR mask,
                         u_nsignals := u_nsignals p + 1,
                         u_code := (if u_sig p \<noteq> sig then u_code p else 0)\<rparr>
              in sendsig (Catch action) sig returnmask (if u_sig p \<noteq> sig then 0 else u_code p) 0 p1
         else if sig \<in> {SIGILL, SIGIOT, SIGBUS, SIGQUIT, SIGTRAP, SIGEMT, SIGFPE, SIGSEGV, SIGSYS}
         then sendsig Sig_exit (if core = 0 then sig OR 0x80 else sig) 0 0 0 (p\<lparr>u_sig := sig\<rparr>)
         else sendsig Sig_exit sig 0 0 0 p)"

lemma sendsig_simps [simp]:
  "u_signal (sendsig c n m d a p) = u_signal p" "u_sigmask (sendsig c n m d a p) = u_sigmask p"
  "p_sigmask (sendsig c n m d a p) = p_sigmask p" "p_sigignore (sendsig c n m d a p) = p_sigignore p"
  "p_sigcatch (sendsig c n m d a p) = p_sigcatch p" "p_flag (sendsig c n m d a p) = p_flag p"
  "p_stat (sendsig c n m d a p) = p_stat p" "u_oldmask (sendsig c n m d a p) = u_oldmask p"
  "u_mask_state (sendsig c n m d a p) = u_mask_state p" "p_xstat (sendsig c n m d a p) = p_xstat p"
  "p_sig (sendsig c n m d a p) = p_sig p" "u_sigonstack (sendsig c n m d a p) = u_sigonstack p"
  "u_sig (sendsig c n m d a p) = u_sig p"
  by (simp_all add: sendsig_def Let_def)

lemma psig_one_simps [simp]:
  "u_signal (psig_one sig p) = u_signal p" "u_sigmask (psig_one sig p) = u_sigmask p"
  "p_sigignore (psig_one sig p) = p_sigignore p" "p_sigcatch (psig_one sig p) = p_sigcatch p"
  "p_stat (psig_one sig p) = p_stat p" "u_oldmask (psig_one sig p) = u_oldmask p"
  "u_mask_state (psig_one sig p) = u_mask_state p" "p_xstat (psig_one sig p) = p_xstat p"
  "u_sigonstack (psig_one sig p) = u_sigonstack p"
  "p_sig (psig_one sig p) = p_sig p AND NOT (sigmask sig)"
  by (simp_all add: psig_one_def Let_def)

lemma psig_one_mask:
  "p_sigmask (psig_one sig p) =
     (if u_signal p sig = SIG_DFL then p_sigmask p else p_sigmask p OR u_sigmask p sig OR sigmask sig)"
  by (simp add: psig_one_def Let_def)

lemma psig_one_pend: "pend (psig_one sig p) \<subseteq> pend p - {sig}"
proof -
  have "sig \<in> sigs (sigmask sig) \<or> sig \<notin> pend p"
    by (auto simp: sigs_sigmask pend_def dest: sigs_range)
  then show ?thesis by (auto simp: pend_def psig_one_mask sigs_simps)
qed

lemma pend_issig_mask: "s \<in> sigs (issig_mask p) \<Longrightarrow> s \<in> pend p"
  by (auto simp: issig_mask_pend split: if_splits)

lemma CURSIG_ret:
  assumes "CURSIG sv p = IsRet s p'" and "s \<noteq> -1" and "u_mask_state p = 0"
  obtains m where "p' = clrsig m p" "sigs m \<subseteq> pend p" "s = 0"
    | m where "p' = clrsig m p" "sigs m \<subseteq> pend p" "0 < s" "nat s = ffs (issig_mask p')" "issig_mask p' \<noteq> 0"
        "nat s \<in> pend p'" "nat s < NSIG" "issig_returns p' (nat s)"
proof (cases "p_sig p = 0 \<or> (\<not> traced p \<and> p_sig p AND NOT (p_sigmask p) = 0)")
  case True
  with assms that(1) [of 0] show thesis by (simp add: CURSIG_def sigs_0)
next
  case False
  with assms have "issig_loop sv p = IsRet s p'" by (simp add: CURSIG_def issig_def split: if_splits)
  from issig_loop_ret [OF this assms(2)] that ffs_in [of "issig_mask p'"] ffs_range [of "issig_mask p'"]
    pend_issig_mask [of _ p'] show thesis by fastforce
qed

lemma CURSIG_mask_state:
  assumes "CURSIG sv p = IsRet s p'" and "0 < s"
  shows "u_mask_state p' = 0 \<and> (u_mask_state p = 0 \<longrightarrow> pend p' \<subseteq> pend p \<and> nat s \<in> pend p')"
proof (cases "u_mask_state p = 0")
  case True
  show ?thesis
    by (rule CURSIG_ret [OF assms(1) _ True]) (use assms(2) True in \<open>auto simp: pend_clrsig\<close>)
next
  case False
  let ?p = "p\<lparr>u_mask_state := 0\<rparr>"
  have zero: "u_mask_state q' = 0" if "issig_loop sv q = IsRet s q'" "u_mask_state q = 0" for q q'
    using issig_loop_ret [OF that(1)] that(2) assms(2) by auto
  from False assms have "issig_restart sv (u_mask_state p) ?p = IsRet s p'"
    by (auto simp: CURSIG_def issig_def split: if_splits)
  then have "u_mask_state p' = 0"
    unfolding issig_restart_def Let_def by (auto split: if_splits dest: zero)
  with False show ?thesis by simp
qed

lemma pend_card: "card (pend p - X) \<le> 32"
proof -
  have "pend p - X \<subseteq> {1..32}" by (auto simp: pend_def dest!: sigs_range)
  from card_mono [OF _ this] show ?thesis by simp
qed

text \<open>
  The loop ends when no signal is left or when \<open>issig\<close> returns -1, which makes the next pass
  return at once.  It runs in supervisor mode, where \<open>issig\<close> never waits.
\<close>

function psig :: "'a sigproc_scheme \<Rightarrow> nat \<Rightarrow> 'a sigproc_scheme" where
  "psig p sig =
     (case CURSIG True (psig_one sig p) of
        IsRet s p' \<Rightarrow> if 0 < s then psig p' (nat s) else p'
      | IsStop m p' \<Rightarrow> p')"
  by pat_completeness auto
termination
proof (relation "measure (\<lambda>(p, sig). card (pend p - {sig}) + (if u_mask_state p \<noteq> 0 then 33 else 0))", goal_cases)
  case (2 p sig s p')
  from CURSIG_mask_state [OF 2] have c: "u_mask_state p' = 0"
    "u_mask_state p = 0 \<Longrightarrow> pend p' \<subseteq> pend (psig_one sig p) \<and> nat s \<in> pend p'" by auto
  show ?case
  proof (cases "u_mask_state p = 0")
    case True
    from c(2) [OF True] have "card (pend p' - {nat s}) < card (pend p')"
      by (metis card_Diff1_less pend_finite)
    moreover from c(2) [OF True] psig_one_pend [of sig p] have "card (pend p') \<le> card (pend p - {sig})"
      by (intro card_mono) auto
    ultimately show ?thesis using True c(1) by simp
  next
    case False
    with c(1) pend_card [of p' "{nat s}"] show ?thesis by simp
  qed
qed simp

declare psig.simps [simp del]

end
