(* ===== verification/Ix_Sigcall.thy ===== *)
theory Ix_Sigcall
  imports Ix_Signal
begin

text \<open>
  The signal calls of a process, posting a signal to it, delivery before it is dispatched and
  the return from a handler; then the invariant that all of them keep: the kill and stop
  signals are never blocked, caught or ignored, whatever a program does with these calls.
\<close>

section \<open>Blocking signals\<close>

text \<open>
  A call that ends in \<open>if (CURSIG (&u)) setrun (me)\<close>: the flag of \<open>SigRet\<close> tells whether
  \<open>setrun\<close> is called; \<open>SigStop\<close> is a traced process that stops inside \<open>CURSIG\<close>.
\<close>

datatype 'a sigret = SigRet int bool 'a | SigStop u32 int 'a

definition check_run :: "int \<Rightarrow> 'a sigproc_scheme \<Rightarrow> 'a sigproc_scheme sigret" where
  "check_run ret p =
     (case CURSIG False p of IsRet s p' \<Rightarrow> SigRet ret (s \<noteq> 0) p' | IsStop m p' \<Rightarrow> SigStop m ret p')"

definition sigprocmask :: "int \<Rightarrow> u32 option \<Rightarrow> 'a sigproc_scheme \<Rightarrow> u32 \<times> 'a sigproc_scheme sigret" where
  "sigprocmask how msk p =
     (p_sigmask p,
      case msk of
        None \<Rightarrow> check_run 0 p
      | Some w \<Rightarrow>
          if how = SIG_BLOCK then check_run 0 (p\<lparr>p_sigmask := p_sigmask p OR (w AND NOT sigcantmask)\<rparr>)
          else if how = SIG_UNBLOCK then check_run 0 (p\<lparr>p_sigmask := p_sigmask p AND NOT w\<rparr>)
          else if how = SIG_SETMASK then check_run 0 (p\<lparr>p_sigmask := w AND NOT sigcantmask\<rparr>)
          else SigRet (-1) False (p\<lparr>u_errno := EINVAL\<rparr>))"

definition sigpending :: "'a sigproc_scheme \<Rightarrow> int \<times> u32" where
  "sigpending p = (0, p_sig p)"

definition sigblock :: "u32 \<Rightarrow> 'a sigproc_scheme \<Rightarrow> u32 \<times> 'a sigproc_scheme" where
  "sigblock w p = (p_sigmask p, p\<lparr>p_sigmask := p_sigmask p OR (w AND NOT sigcantmask)\<rparr>)"

definition sigsetmask :: "u32 \<Rightarrow> 'a sigproc_scheme \<Rightarrow> u32 \<times> 'a sigproc_scheme sigret" where
  "sigsetmask w p = (p_sigmask p, check_run 0 (p\<lparr>p_sigmask := w AND NOT sigcantmask\<rparr>))"

text \<open>
  \<open>sigsuspend\<close> up to the loop that sleeps while no signal is due, and from the statement after
  the first \<open>setrun\<close> on.  Its return value is always -1.
\<close>

definition sigsuspend_begin :: "u32 \<Rightarrow> 'a sigproc_scheme \<Rightarrow> 'a sigproc_scheme" where
  "sigsuspend_begin w p =
     p\<lparr>u_oldmask := p_sigmask p, p_flag := p_flag p OR SOMASK, p_sigmask := w AND NOT sigcantmask\<rparr>"

definition sigsuspend_end :: "'a sigproc_scheme \<Rightarrow> 'a sigproc_scheme sigret" where
  "sigsuspend_end p =
     (case check_run (-1) (p\<lparr>p_sigmask := u_oldmask p\<rparr>) of
        SigRet r b p' \<Rightarrow> SigRet r b (p'\<lparr>u_errno := EINTR\<rparr>)
      | SigStop m r p' \<Rightarrow> SigStop m r p')"

definition sigpause :: "u32 \<Rightarrow> 'a sigproc_scheme \<Rightarrow> 'a sigproc_scheme" where
  "sigpause w p = sigsuspend_begin w p"

definition sigstack :: "(u32 \<times> bool) option \<Rightarrow> 'a sigproc_scheme \<Rightarrow> int \<times> (u32 \<times> bool) \<times> 'a sigproc_scheme" where
  "sigstack nss p =
     (0, (u_sigsp p, u_onstack p),
      case nss of None \<Rightarrow> p | Some (sp, on) \<Rightarrow> p\<lparr>u_sigsp := sp, u_onstack := on\<rparr>)"

definition siginit :: "'a sigproc_scheme \<Rightarrow> 'a sigproc_scheme" where
  "siginit p = p\<lparr>p_sigignore := defaultignmask AND NOT (sigmask SIGCONT)\<rparr>"

section \<open>Posting a signal\<close>

text \<open>
  \<open>_psignal\<close> up to its call of \<open>setrun\<close>; the flag tells whether the call is made.
  \<open>psignal_trap\<close> is the conversion of a blocked or ignored trap signal.
\<close>

definition psignal_trap :: "nat \<Rightarrow> 'a sigproc_scheme \<Rightarrow> nat \<times> 'a sigproc_scheme" where
  "psignal_trap sig p =
     (if \<not> traced p \<and> (sigmask sig AND p_sigignore p \<noteq> 0 \<or> sigmask sig AND p_sigmask p \<noteq> 0)
         \<and> sig \<in> {SIGILL, SIGBUS, SIGFPE, SIGTRAP, SIGEMT}
      then let mask = sigmask SIGILL
           in (SIGILL, p\<lparr>p_sigignore := p_sigignore p AND NOT mask,
                         p_sigmask := p_sigmask p AND NOT mask,
                         p_sigcatch := p_sigcatch p AND NOT mask\<rparr>)
      else (sig, p))"

definition psignal_post :: "nat \<Rightarrow> 'a sigproc_scheme \<Rightarrow> bool \<times> 'a sigproc_scheme" where
  "psignal_post sig0 p0 =
     (let (sig, p) = psignal_trap sig0 p0; mask = sigmask sig
      in if \<not> traced p \<and> p_sigignore p AND mask \<noteq> 0 then (False, p)
         else let hold = (\<not> traced p \<and> p_sigmask p AND mask \<noteq> 0);
                  p1 = (if sig = SIGCONT then clrsig stopsigmask p
                        else if sig \<in> {SIGTSTP, SIGTTIN, SIGTTOU, SIGSTOP} then clrsig (sigmask SIGCONT) p
                        else p);
                  p2 = p1\<lparr>p_sig := p_sig p1 OR mask\<rparr>
              in if hold \<and> (sig \<noteq> SIGCONT \<or> p_stat p2 \<noteq> SSTOP) then (False, p2)
                 else if p_stat p2 = SSTOP \<and> traced p2 then (False, p2)
                 else (True, p2))"

text \<open>A trap: delivered at once when its signal is caught and not blocked, else posted.\<close>

definition trapsignal :: "nat \<Rightarrow> u32 \<Rightarrow> u32 \<Rightarrow> 'a sigproc_scheme \<Rightarrow> bool \<times> 'a sigproc_scheme" where
  "trapsignal sig code addr p =
     (let mask = sigmask sig
      in if \<not> traced p \<and> p_sigcatch p AND mask \<noteq> 0 \<and> p_sigmask p AND mask = 0
         then let p1 = sendsig (Catch (u_signal p sig)) sig (p_sigmask p) code addr
                         (p\<lparr>u_nsignals := u_nsignals p + 1\<rparr>)
              in (True, p1\<lparr>p_sigmask := p_sigmask p1 OR u_sigmask p1 sig OR mask\<rparr>)
         else psignal_post sig (p\<lparr>u_code := code\<rparr>))"

section \<open>Delivery and return\<close>

definition deliver_signals :: "'a sigproc_scheme \<Rightarrow> 'a sigproc_scheme" where
  "deliver_signals p =
     (case CURSIG True p of
        IsRet i p' \<Rightarrow> if 0 < i then psig p' (nat i) else p'
      | IsStop m p' \<Rightarrow> p')"

definition resume_signal_check :: "'a sigproc_scheme \<Rightarrow> 'a sigproc_scheme" where
  "resume_signal_check p =
     (case issig True p of
        IsRet i p' \<Rightarrow> if 0 < i then psig p' (nat i) else p'
      | IsStop m p' \<Rightarrow> p')"

text \<open>
  \<open>sup_do_sigreturn\<close>: load the topmost object of the user stack.  \<open>None\<close>: the stack pointer
  does not point to a context.
\<close>

definition sup_do_sigreturn :: "'a sigproc_scheme \<Rightarrow> 'a sigproc_scheme option" where
  "sup_do_sigreturn p =
     (case ustack p of
        UContext sc # r \<Rightarrow> Some ((do_sigreturn sc p)\<lparr>ustack := r\<rparr>)
      | UFrame sf sc # r \<Rightarrow> Some ((do_sigreturn sc p)\<lparr>ustack := UHandler sf # r\<rparr>)
      | _ \<Rightarrow> None)"

text \<open>
  \<open>sig_trampoline\<close> after the handler: \<open>sigreturn\<close> loads the frame's context, whose program
  counter is \<open>sup_do_sigreturn\<close>, or \<open>sup_do_sigresume\<close> for the stop handler.
\<close>

definition sig_trampoline_end :: "'a sigproc_scheme \<Rightarrow> 'a sigproc_scheme option" where
  "sig_trampoline_end p =
     (case ustack p of
        UHandler sf # r \<Rightarrow>
          let p1 = (do_sigreturn (sf_sc sf) p)\<lparr>ustack := r\<rparr>
          in sup_do_sigreturn (if sf_handler sf = Stopped_process_handler then resume_signal_check p1 else p1)
      | _ \<Rightarrow> None)"

text \<open>
  \<open>sig_launch\<close> from \<open>setup_sigcontext\<close> on, without the mapping of Exec signals: push a context
  that gets back, deliver, and load the topmost context unless nothing was pushed.  \<open>trap\<close>
  does the same around \<open>trapsignal\<close>.
\<close>

definition push_context :: "'a sigproc_scheme \<Rightarrow> 'a sigproc_scheme" where
  "push_context p = p\<lparr>ustack := UContext \<lparr>sc_onstack = u_onstack p, sc_mask = p_sigmask p\<rparr> # ustack p\<rparr>"

definition leave_launch :: "nat \<Rightarrow> 'a sigproc_scheme \<Rightarrow> 'a sigproc_scheme option" where
  "leave_launch usp p =
     (if length (ustack p) = usp then Some (p\<lparr>ustack := tl (ustack p)\<rparr>) else sup_do_sigreturn p)"

definition launch :: "'a sigproc_scheme \<Rightarrow> 'a sigproc_scheme option" where
  "launch p = leave_launch (Suc (length (ustack p))) (deliver_signals (push_context p))"

definition trap_entry :: "nat \<Rightarrow> u32 \<Rightarrow> u32 \<Rightarrow> 'a sigproc_scheme \<Rightarrow> 'a sigproc_scheme option" where
  "trap_entry sig code addr p =
     leave_launch (Suc (length (ustack p))) (deliver_signals (snd (trapsignal sig code addr (push_context p))))"

text \<open>
  The signal of a trap: the table is indexed by the vector number, which the low 12 bits of the
  format word hold times four; the entries after the last one listed are zero.
\<close>

definition hwtraptable :: "nat list" where
  "hwtraptable =
    [SIGILL, SIGILL, SIGBUS, SIGBUS, SIGILL, SIGFPE, SIGFPE, SIGFPE,
     SIGILL, SIGTRAP, SIGEMT, SIGEMT, SIGILL, SIGILL, SIGILL, SIGILL,
     SIGILL, SIGILL, SIGILL, SIGILL, SIGILL, SIGILL, SIGILL, SIGILL,
     SIGILL, SIGILL, SIGILL, SIGILL, SIGILL, SIGILL, SIGILL, SIGILL,
     SIGTRAP, SIGTRAP, SIGILL, SIGILL, SIGILL, SIGILL, SIGILL, SIGILL,
     SIGILL, SIGILL, SIGILL, SIGILL, SIGILL, SIGILL, SIGILL, SIGILL,
     SIGFPE, SIGFPE, SIGFPE, SIGFPE, SIGFPE, SIGFPE, SIGFPE, SIGILL,
     SIGBUS, SIGILL, SIGILL] @ replicate (256 - 59) 0"

definition trap :: "u32 \<Rightarrow> u32 \<Rightarrow> 'a sigproc_scheme \<Rightarrow> 'a sigproc_scheme option" where
  "trap format addr p =
     (let i = unat (format AND 0xfff) div 4
      in if i < length hwtraptable then trap_entry (hwtraptable ! i) format addr p else None)"

section \<open>Calls in sequence\<close>

datatype sig_call =
    Sigaction int "sigact option" | Sigvec int "sigact option"
  | Sigprocmask int "u32 option" | Sigblock u32 | Sigsetmask u32
  | Sigsuspend_begin u32 | Sigsuspend_end | Sigstack "(u32 \<times> bool) option"
  | Psignal nat | Trap nat u32 u32 | Launch | Handler_returns
  | Debugger u32 nat nat | Restarted u32

fun state_of :: "'a sigret \<Rightarrow> 'a" where
  "state_of (SigRet r b p) = p"
| "state_of (SigStop m r p) = p"

fun is_state :: "'a issig_out \<Rightarrow> 'a" where
  "is_state (IsRet r p) = p"
| "is_state (IsStop m p) = p"

text \<open>
  \<open>Debugger fl n st\<close> is what a tracing parent does: it sets or clears the trace flag, names the
  signal to take and makes the process run; \<open>Restarted\<close> resumes a stopped \<open>issig\<close>.
\<close>

fun sig_exec :: "sig_call \<Rightarrow> sigproc \<Rightarrow> sigproc option" where
  "sig_exec (Sigaction n sa) p = Some (snd (snd (sigaction n sa p)))"
| "sig_exec (Sigvec n sv) p = Some (snd (snd (sigvec n sv p)))"
| "sig_exec (Sigprocmask how w) p = Some (state_of (snd (sigprocmask how w p)))"
| "sig_exec (Sigblock w) p = Some (snd (sigblock w p))"
| "sig_exec (Sigsetmask w) p = Some (state_of (snd (sigsetmask w p)))"
| "sig_exec (Sigsuspend_begin w) p = Some (sigsuspend_begin w p)"
| "sig_exec Sigsuspend_end p = Some (state_of (sigsuspend_end p))"
| "sig_exec (Sigstack s) p = Some (snd (snd (sigstack s p)))"
| "sig_exec (Psignal n) p = Some (snd (psignal_post n p))"
| "sig_exec (Trap n code a) p = trap_entry n code a p"
| "sig_exec Launch p = launch p"
| "sig_exec Handler_returns p = (case ustack p of UHandler sf # r \<Rightarrow> sig_trampoline_end p | _ \<Rightarrow> Some p)"
| "sig_exec (Debugger fl n st) p =
     Some (p\<lparr>p_flag := (p_flag p AND NOT STRC) OR (fl AND STRC), p_xstat := (if n < NSIG then n else p_xstat p),
             p_stat := st\<rparr>)"
| "sig_exec (Restarted m) p = Some (is_state (issig_restart False m p))"

fun sig_run :: "sig_call list \<Rightarrow> sigproc \<Rightarrow> sigproc option" where
  "sig_run [] p = Some p"
| "sig_run (c # cs) p = Option.bind (sig_exec c p) (sig_run cs)"

text \<open>A process as \<open>ix_open\<close> creates it: memory cleared, then \<open>siginit\<close>.\<close>

definition proc0 :: sigproc where
  "proc0 = siginit
     \<lparr>u_signal = (\<lambda>n. 0), u_sigmask = (\<lambda>n. 0), u_sigonstack = 0, u_sigintr = 0, u_oldmask = 0,
      u_onstack = False, u_sigsp = 0, u_sig = 0, u_code = 0, p_flag = 0, p_stat = SRUN, p_xstat = 0,
      p_sig = 0, p_sigmask = 0, p_sigignore = 0, p_sigcatch = 0, u_nsignals = 0, u_mask_state = 0,
      u_errno = 0, ustack = []\<rparr>"

section \<open>The invariant\<close>

abbreviation unblockable :: "nat set" where
  "unblockable \<equiv> {SIGKILL, SIGSTOP}"

text \<open>
  \<open>disp_ok\<close>: the sets \<open>p_sigignore\<close> and \<open>p_sigcatch\<close> agree with the dispositions; for \<open>SIGILL\<close>
  only in one direction, since the conversion of trap signals clears its bits.
\<close>

definition ign_disp :: "'a sigproc_scheme \<Rightarrow> nat \<Rightarrow> bool" where
  "ign_disp p n \<longleftrightarrow> u_signal p n = SIG_IGN \<or> (u_signal p n = SIG_DFL \<and> n \<in> sigs defaultignmask)"

definition caught_disp :: "'a sigproc_scheme \<Rightarrow> nat \<Rightarrow> bool" where
  "caught_disp p n \<longleftrightarrow> u_signal p n \<noteq> SIG_DFL \<and> u_signal p n \<noteq> SIG_IGN"

definition disp_at :: "'a sigproc_scheme \<Rightarrow> nat \<Rightarrow> bool" where
  "disp_at p n \<longleftrightarrow>
     (if n = SIGILL
      then (n \<in> sigs (p_sigignore p) \<longrightarrow> ign_disp p n) \<and> (n \<in> sigs (p_sigcatch p) \<longrightarrow> caught_disp p n)
      else (n \<in> sigs (p_sigignore p) \<longleftrightarrow> ign_disp p n \<and> n \<noteq> SIGCONT) \<and>
           (n \<in> sigs (p_sigcatch p) \<longleftrightarrow> caught_disp p n))"

definition disp_ok :: "'a sigproc_scheme \<Rightarrow> bool" where
  "disp_ok p \<longleftrightarrow> (\<forall>n\<in>{1..32}. disp_at p n) \<and> u_signal p SIGKILL = SIG_DFL \<and> u_signal p SIGSTOP = SIG_DFL"

definition sc_ok :: "sigcontext \<Rightarrow> bool" where
  "sc_ok sc \<longleftrightarrow> sigs (sc_mask sc) \<inter> unblockable = {}"

fun catcher_ok :: "catcher \<Rightarrow> bool" where
  "catcher_ok (Catch h) = (h \<notin> {SIG_DFL, SIG_IGN})"
| "catcher_ok _ = True"

fun uobj_ok :: "uobj \<Rightarrow> bool" where
  "uobj_ok (UContext sc) = sc_ok sc"
| "uobj_ok (UFrame sf sc) = (sc_ok (sf_sc sf) \<and> catcher_ok (sf_handler sf) \<and> sc_ok sc)"
| "uobj_ok (UHandler sf) = (sc_ok (sf_sc sf) \<and> catcher_ok (sf_handler sf))"

definition masks_ok :: "'a sigproc_scheme \<Rightarrow> bool" where
  "masks_ok p \<longleftrightarrow> sigs (p_sigmask p) \<inter> unblockable = {} \<and> sigs (u_oldmask p) \<inter> unblockable = {} \<and>
     (\<forall>n. sigs (u_sigmask p n) \<inter> unblockable = {}) \<and> (\<forall>x\<in>set (ustack p). uobj_ok x)"

text \<open>
  The user stack between two steps: empty, or a running handler above the frames delivered
  together with it and the context that was interrupted.
\<close>

fun stk_mid :: "uobj list \<Rightarrow> bool" and stk_rest :: "uobj list \<Rightarrow> bool" where
  "stk_mid (UFrame sf sc # r) = stk_mid r"
| "stk_mid (UContext sc # r) = stk_rest r"
| "stk_mid r = False"
| "stk_rest [] = True"
| "stk_rest (UHandler sf # r) = stk_mid r"
| "stk_rest r = False"

definition sig_inv :: "'a sigproc_scheme \<Rightarrow> bool" where
  "sig_inv p \<longleftrightarrow> disp_ok p \<and> masks_ok p"

definition sig_ok :: "'a sigproc_scheme \<Rightarrow> bool" where
  "sig_ok p \<longleftrightarrow> sig_inv p \<and> stk_rest (ustack p)"

lemma disp_ok_unblockable:
  assumes "disp_ok p"
  shows "sigs (p_sigignore p) \<inter> unblockable = {}" and "sigs (p_sigcatch p) \<inter> unblockable = {}"
proof -
  from assms have "disp_at p SIGKILL" "disp_at p SIGSTOP" "u_signal p SIGKILL = SIG_DFL" "u_signal p SIGSTOP = SIG_DFL"
    by (auto simp: disp_ok_def)
  then show "sigs (p_sigignore p) \<inter> unblockable = {}" and "sigs (p_sigcatch p) \<inter> unblockable = {}"
    by (simp_all add: disp_at_def ign_disp_def caught_disp_def sigs_ignmask)
qed

lemma disp_at_cong:
  "disp_at p n \<Longrightarrow> u_signal q n = u_signal p n \<Longrightarrow> n \<in> sigs (p_sigignore q) \<longleftrightarrow> n \<in> sigs (p_sigignore p) \<Longrightarrow>
     n \<in> sigs (p_sigcatch q) \<longleftrightarrow> n \<in> sigs (p_sigcatch p) \<Longrightarrow> disp_at q n"
  unfolding disp_at_def ign_disp_def caught_disp_def by (cases "n = SIGILL") simp_all

lemma disp_ok_cong:
  "disp_ok p \<Longrightarrow> u_signal q = u_signal p \<Longrightarrow> p_sigignore q = p_sigignore p \<Longrightarrow> p_sigcatch q = p_sigcatch p \<Longrightarrow>
     disp_ok q"
  unfolding disp_ok_def disp_at_def ign_disp_def caught_disp_def by simp

lemma setsigvec_sets:
  assumes "0 < n" and "n < NSIG"
  shows "u_signal (setsigvec n sa p) = (u_signal p)(n := sa_handler sa)"
    and "sigs (p_sigignore (setsigvec n sa p)) =
      (if sa_handler sa = SIG_IGN \<or> n \<in> sigs defaultignmask \<and> sa_handler sa = SIG_DFL
       then if n = SIGCONT then sigs (p_sigignore p) else insert n (sigs (p_sigignore p))
       else sigs (p_sigignore p) - {n})"
    and "sigs (p_sigcatch (setsigvec n sa p)) =
      (if sa_handler sa = SIG_IGN \<or> sa_handler sa = SIG_DFL then sigs (p_sigcatch p) - {n}
       else insert n (sigs (p_sigcatch p)))"
  using assms by (auto simp: setsigvec_def Let_def sigs_or sigs_andnot sigs_sigmask_range mask_iffs sigs_ignmask)

lemma disp_ok_setsigvec:
  assumes "disp_ok p" and "0 < n" and "n < NSIG" and "n \<notin> unblockable"
  shows "disp_ok (setsigvec n sa p)"
proof -
  have "disp_at (setsigvec n sa p) m" if m: "m \<in> {1..32}" for m
  proof -
    from assms(1) m have d: "disp_at p m" "m = SIGCONT \<longrightarrow> m \<notin> sigs (p_sigignore p)"
      by (auto simp: disp_ok_def disp_at_def)
    show ?thesis
    proof (cases "m = n")
      case True
      with d assms(2,3) show ?thesis
        by (auto simp: disp_at_def ign_disp_def caught_disp_def setsigvec_sets)
    next
      case False
      with assms(2,3) show ?thesis by (intro disp_at_cong [OF d(1)]) (simp_all add: setsigvec_sets)
    qed
  qed
  with assms show ?thesis by (simp add: disp_ok_def setsigvec_sets)
qed

lemma masks_okI:
  assumes "masks_ok p" and "sigs (p_sigmask q) \<inter> unblockable = {}" and "sigs (u_oldmask q) \<inter> unblockable = {}"
    and "u_sigmask q = u_sigmask p" and "\<forall>x\<in>set (ustack q). x \<in> set (ustack p) \<or> uobj_ok x"
  shows "masks_ok q"
  using assms unfolding masks_ok_def by auto

lemma sig_invD:
  assumes "sig_inv p"
  shows "sigs (p_sigmask p) \<inter> unblockable = {}" and "sigs (u_oldmask p) \<inter> unblockable = {}"
    and "sigs (u_sigmask p n) \<inter> unblockable = {}" and "x \<in> set (ustack p) \<Longrightarrow> uobj_ok x"
    and "n \<in> unblockable \<Longrightarrow> u_signal p n = SIG_DFL"
  using assms by (auto simp: sig_inv_def masks_ok_def disp_ok_def)

lemma sig_invI:
  assumes "sig_inv p" and "u_signal q = u_signal p" and "p_sigignore q = p_sigignore p"
    and "p_sigcatch q = p_sigcatch p" and "u_sigmask q = u_sigmask p"
    and "sigs (p_sigmask q) \<inter> unblockable = {}" and "sigs (u_oldmask q) \<inter> unblockable = {}"
    and "\<forall>x\<in>set (ustack q). x \<in> set (ustack p) \<or> uobj_ok x"
  shows "sig_inv q"
proof -
  from assms(1) have "disp_ok p" "masks_ok p" by (simp_all add: sig_inv_def)
  with disp_ok_cong [of p q] masks_okI [of p q] assms show ?thesis by (simp add: sig_inv_def)
qed

lemma sig_inv_setsigvec:
  assumes "sig_inv p" and "0 < n" and "n < NSIG" and "n \<notin> unblockable"
  shows "sig_inv (setsigvec n sa p)"
proof -
  from assms(1) have "masks_ok p" by (simp add: sig_inv_def)
  then have "masks_ok (setsigvec n sa p)"
    by (auto simp: masks_ok_def setsigvec_def Let_def sigs_simps)
  with disp_ok_setsigvec [of p n] assms show ?thesis by (simp add: sig_inv_def)
qed

lemma sig_inv_clrsig [simp]: "sig_inv (clrsig m p) = sig_inv p"
  by (simp add: sig_inv_def masks_ok_def disp_ok_def disp_at_def ign_disp_def caught_disp_def)

lemma sig_inv_sendsig:
  assumes "sig_inv p" and "sigs m \<inter> unblockable = {}" and "catcher_ok c"
  shows "sig_inv (sendsig c n m d a p)"
  by (rule sig_invI [OF assms(1)]) (use assms sig_invD [OF assms(1)] in \<open>auto simp: sendsig_def Let_def sc_ok_def\<close>)

lemma unblockable_sigmask: "n \<notin> unblockable \<Longrightarrow> sigs (sigmask n) \<inter> unblockable = {}"
  by (auto simp: sigs_sigmask)

lemma psig_one_caught:
  "u_signal p sig \<noteq> SIG_DFL \<Longrightarrow>
     psig_one sig p =
       sendsig (Catch (u_signal p sig)) sig (if p_flag p AND SOMASK \<noteq> 0 then u_oldmask p else p_sigmask p)
         (if u_sig p \<noteq> sig then 0 else u_code (clrsig (sigmask sig) p)) 0
         ((clrsig (sigmask sig) p)
            \<lparr>p_flag := (if p_flag p AND SOMASK \<noteq> 0 then p_flag p AND NOT SOMASK else p_flag p),
             p_sigmask := p_sigmask p OR u_sigmask p sig OR sigmask sig,
             u_nsignals := u_nsignals (clrsig (sigmask sig) p) + 1,
             u_code := (if u_sig p \<noteq> sig then u_code (clrsig (sigmask sig) p) else 0)\<rparr>)"
  unfolding psig_one_def Let_def by simp

lemma sig_inv_psig_one:
  assumes "sig_inv p" and "u_signal p sig \<noteq> SIG_IGN"
  shows "sig_inv (psig_one sig p)"
proof (cases "u_signal p sig = SIG_DFL")
  case True
  let ?q = "clrsig (sigmask sig) p"
  have q: "sig_inv (?q\<lparr>u_sig := n\<rparr>)" for n
    by (rule sig_invI [of ?q]) (use assms(1) sig_invD(1,2) [OF assms(1)] in simp_all)
  have "sig_inv (sendsig Sig_exit n 0 0 0 (?q\<lparr>u_sig := k\<rparr>))" "sig_inv (sendsig Sig_exit n 0 0 0 ?q)" for n k
    by (rule sig_inv_sendsig; use q assms(1) in \<open>simp add: sigs_0\<close>)+
  then show ?thesis unfolding psig_one_def Let_def using True by (simp split: if_split)
next
  case False
  let ?q = "clrsig (sigmask sig) p"
  let ?rm = "if p_flag p AND SOMASK \<noteq> 0 then u_oldmask p else p_sigmask p"
  from False sig_invD(5) [OF assms(1), of sig] have "sig \<notin> unblockable" by auto
  then have m: "sigs (p_sigmask p OR u_sigmask p sig OR sigmask sig) \<inter> unblockable = {}"
    using unblockable_sigmask [of sig] sig_invD(1) [OF assms(1)] sig_invD(3) [OF assms(1), of sig]
    by (auto simp: sigs_or)
  have rm: "sigs ?rm \<inter> unblockable = {}" using sig_invD(1,2) [OF assms(1)] by simp
  have "sig_inv (?q\<lparr>p_flag := fl, p_sigmask := p_sigmask p OR u_sigmask p sig OR sigmask sig,
                    u_nsignals := k, u_code := d\<rparr>)" for fl k d
    by (rule sig_invI [of ?q]) (use assms(1) m sig_invD(2) [OF assms(1)] in simp_all)
  from sig_inv_sendsig [OF this rm, of "Catch (u_signal p sig)"] False assms(2) show ?thesis
    unfolding psig_one_caught [OF False] by simp
qed

end
