(* ===== verification/Ix_Proc.thy ===== *)
theory Ix_Proc
  imports Ix_Sigcall
begin

text \<open>
  Processes together: sleeping and waking (\<open>library/ix_sleep.c\<close>), making a process run
  (\<open>setrun\<close> in \<open>library/machdep_68k.c\<close>), and sending signals to one process or to a process
  group (\<open>library/kern_sig.c\<close>).  A task is its address; \<open>procs\<close> is \<open>getuser\<close>; \<open>recvd\<close> is the
  member \<open>tc_SigRecvd\<close>, which \<open>Signal\<close> of exec.library sets.  A sleep queue is the list of its
  messages, as the list operations of \<open>Ix_Lists\<close> implement it.
\<close>

section \<open>State\<close>

record proc = sigproc +
  u_addr :: u32
  p_wchan :: u32
  u_sleep_sig :: nat
  p_zombie_sig :: nat
  p_pptr :: u32
  p_cptr :: u32
  p_osptr :: u32
  p_pgrp :: int
  u_session_pgrp :: "u32 option"

record sleep_msg =
  sm_signal :: nat
  sm_sigtask :: u32
  sm_waitchan :: u32

record machine =
  procs :: "u32 \<Rightarrow> proc option"
  this_task :: u32
  supmode :: bool
  nest :: bool
  recvd :: "u32 \<Rightarrow> u32"
  sleepq :: "nat \<Rightarrow> sleep_msg list"
  task_switches :: nat
  task_wait :: "u32 list"
  task_ready :: "u32 list"
  ln_type :: "u32 \<Rightarrow> nat"
  select_addr :: u32

abbreviation (input) SIGBREAKF_CTRL_C :: u32 where "SIGBREAKF_CTRL_C \<equiv> 0x1000"
abbreviation (input) NT_TASK :: nat where "NT_TASK \<equiv> 1"
abbreviation (input) NT_PROCESS :: nat where "NT_PROCESS \<equiv> 13"
abbreviation (input) IX_NUM_SLEEP_QUEUES :: nat where "IX_NUM_SLEEP_QUEUES \<equiv> 31"

definition exec_signal :: "u32 \<Rightarrow> u32 \<Rightarrow> machine \<Rightarrow> machine" where
  "exec_signal t w m = m\<lparr>recvd := (recvd m)(t := recvd m t OR w)\<rparr>"

definition put_proc :: "u32 \<Rightarrow> proc \<Rightarrow> machine \<Rightarrow> machine" where
  "put_proc t p m = m\<lparr>procs := (procs m)(t \<mapsto> p)\<rparr>"

section \<open>Waking and running\<close>

definition ix_hash :: "u32 \<Rightarrow> nat" where
  "ix_hash waitchan = unat ((ucast (drop_bit 16 waitchan XOR (waitchan AND 0xffff)) :: u16)) mod IX_NUM_SLEEP_QUEUES"

fun wake_list :: "u32 \<Rightarrow> sleep_msg list \<Rightarrow> machine \<Rightarrow> machine" where
  "wake_list waitchan [] m = m"
| "wake_list waitchan (sm # l) m =
     wake_list waitchan l
       (if sm_waitchan sm = waitchan then exec_signal (sm_sigtask sm) (push_bit (sm_signal sm) 1) m else m)"

definition ix_wakeup :: "u32 \<Rightarrow> machine \<Rightarrow> machine" where
  "ix_wakeup waitchan m = wake_list waitchan (sleepq m (ix_hash waitchan)) m"

text \<open>\<open>setrun\<close>; \<open>nest\<close> tells that \<open>Forbid\<close> or \<open>Disable\<close> is in effect.\<close>

definition setrun :: "u32 \<Rightarrow> machine \<Rightarrow> machine exec" where
  "setrun t m =
     (case procs m t of
        None \<Rightarrow> Wild
      | Some p \<Rightarrow>
          if supmode m \<or> this_task m \<noteq> t \<or> p_stat p = SSLEEP \<or> p_stat p = SWAIT \<or> p_stat p = SSTOP \<or> nest m
          then Ok (if p_stat p = SWAIT then exec_signal t SIGBREAKF_CTRL_C m
                   else if p_stat p = SSTOP
                   then exec_signal t (push_bit (p_zombie_sig p) 1) (put_proc t (p\<lparr>p_stat := SRUN\<rparr>) m)
                   else if p_wchan p = u_addr p then ix_wakeup (u_addr p) m
                   else if p_stat p = SSLEEP \<or> p_wchan p = select_addr m
                   then exec_signal t (push_bit (u_sleep_sig p) 1) m
                   else m)
          else Ok (m\<lparr>task_switches := task_switches m + 1\<rparr>))"

section \<open>Sending signals\<close>

definition psignal :: "u32 \<Rightarrow> nat \<Rightarrow> machine \<Rightarrow> machine exec" where
  "psignal t sig m =
     (case procs m t of
        None \<Rightarrow> Wild
      | Some p \<Rightarrow>
          let (run, p') = psignal_post sig p; m' = put_proc t p' m
          in if run then setrun t m' else Ok m')"

text \<open>\<open>safe_psignal\<close> signals only a task of the timer list.\<close>

definition safe_psignal :: "u32 list \<Rightarrow> u32 \<Rightarrow> nat \<Rightarrow> machine \<Rightarrow> machine exec" where
  "safe_psignal timer_tasks t sig m = (if t \<in> set timer_tasks then psignal t sig m else Ok m)"

text \<open>
  \<open>stopped_process_handler\<close> up to its wait: tell the parent, then \<open>stop\<close>.
\<close>

definition stop :: "u32 \<Rightarrow> machine \<Rightarrow> machine exec" where
  "stop t m =
     (case procs m t of
        None \<Rightarrow> Wild
      | Some p \<Rightarrow>
          let m1 = put_proc t (p\<lparr>p_stat := SSTOP, p_flag := p_flag p AND NOT SWTED\<rparr>) m
          in Ok (ix_wakeup (case procs m1 (p_pptr p) of None \<Rightarrow> 0 | Some q \<Rightarrow> u_addr q) m1))"

definition stopped_process_handler :: "u32 \<Rightarrow> machine \<Rightarrow> machine exec" where
  "stopped_process_handler t m =
     (case procs m t of
        None \<Rightarrow> Wild
      | Some p \<Rightarrow> exec_bind (psignal (p_pptr p) SIGCHLD m) (stop t))"

text \<open>
  \<open>pfind\<close>: the search loops stop at the node sought or at the tail of the list, whose address
  is not null (\<open>tail\<close>); \<open>ixbase_ok\<close> is the test of the cookie in \<open>struct user\<close>.
\<close>

definition find_node :: "u32 \<Rightarrow> u32 list \<Rightarrow> u32 \<Rightarrow> u32" where
  "find_node pid l tail = (if pid \<in> set l then pid else tail)"

definition pfind :: "u32 \<Rightarrow> u32 \<Rightarrow> (u32 \<Rightarrow> bool) \<Rightarrow> u32 \<Rightarrow> machine \<Rightarrow> u32" where
  "pfind wait_tail ready_tail ixbase_ok pid m =
     (if pid \<noteq> 0 \<and> pid AND 1 = 0
      then let n1 = find_node pid (task_wait m) wait_tail;
               n2 = (if n1 = 0 then find_node pid (task_ready m) ready_tail else n1)
           in if n2 = 0 then 0
              else if (ln_type m pid = NT_TASK \<or> ln_type m pid = NT_PROCESS) \<and> procs m pid \<noteq> None \<and> ixbase_ok pid
              then pid else 0
      else if pid = 0 then this_task m else 0)"

text \<open>Return value, error number if set, and the machine.\<close>

definition kill :: "u32 \<Rightarrow> u32 \<Rightarrow> (u32 \<Rightarrow> bool) \<Rightarrow> int \<Rightarrow> int \<Rightarrow> machine \<Rightarrow> (int \<times> int option \<times> machine) exec" where
  "kill wait_tail ready_tail ixbase_ok pid signo m =
     (if signo < 0 \<or> 33 \<le> signo then Ok (-1, Some EINVAL, m)
      else if 0 \<le> pid
      then let w = word_of_int pid; t = pfind wait_tail ready_tail ixbase_ok w m
           in if t = 0
              then if signo = 2 \<and> w \<noteq> 0 \<and> w AND 1 = 0 \<and> (ln_type m w = NT_TASK \<or> ln_type m w = NT_PROCESS)
                   then Ok (0, None, exec_signal w SIGBREAKF_CTRL_C m)
                   else Ok (-1, Some ESRCH, m)
              else if signo \<noteq> 0 then exec_bind (psignal t (nat signo) m) (\<lambda>m'. Ok (0, None, m'))
              else Ok (0, None, m)
      else Ok (-1, Some ESRCH, m))"

definition killpg :: "int \<Rightarrow> int \<Rightarrow> int \<times> int" where
  "killpg pgid signo = (-1, if signo < 0 \<or> 33 \<le> signo then EINVAL else ESRCH)"

section \<open>Process groups\<close>

text \<open>
  \<open>sigprocessgrp\<close> walks the children of a process by \<open>p_cptr\<close> and \<open>p_osptr\<close>.  \<open>grp_test p\<close> is
  its loop with \<open>test\<close> set, over the sibling \<open>p\<close> and the older ones; \<open>grp_post\<close> the one that
  signals.  A cyclic structure makes them run forever: the value \<open>None\<close>.
\<close>

partial_function (option) grp_test :: "machine \<Rightarrow> u32 \<Rightarrow> bool option" where
  "grp_test m p =
     (if p = 0 then Some True
      else case procs m p of
        None \<Rightarrow> Some False
      | Some u \<Rightarrow>
          Option.bind (grp_test m (p_cptr u)) (\<lambda>r. if r then grp_test m (p_osptr u) else Some False))"

partial_function (option) grp_post :: "int \<Rightarrow> nat \<Rightarrow> u32 \<Rightarrow> machine \<Rightarrow> machine exec option" where
  "grp_post pgrp sig p m =
     (if p = 0 then Some (Ok m)
      else case procs m p of
        None \<Rightarrow> Some Wild
      | Some u \<Rightarrow>
          Option.bind (grp_post pgrp sig (p_cptr u) m) (\<lambda>r.
            case exec_bind r (\<lambda>m1. if p_pgrp u = pgrp then psignal p sig m1 else Ok m1) of
              Ok m2 \<Rightarrow> grp_post pgrp sig (p_osptr u) m2
            | e \<Rightarrow> Some e))"

definition sigprocessgrp_test :: "u32 \<Rightarrow> machine \<Rightarrow> bool option" where
  "sigprocessgrp_test t m = (case procs m t of None \<Rightarrow> Some False | Some u \<Rightarrow> grp_test m (p_cptr u))"

definition sigprocessgrp_post :: "int \<Rightarrow> nat \<Rightarrow> u32 \<Rightarrow> machine \<Rightarrow> machine exec option" where
  "sigprocessgrp_post pgrp sig t m =
     (case procs m t of
        None \<Rightarrow> Some Wild
      | Some u \<Rightarrow>
          Option.bind (grp_post pgrp sig (p_cptr u) m) (\<lambda>r.
            Some (exec_bind r (\<lambda>m1. if p_pgrp u = pgrp then psignal t sig m1 else Ok m1))))"

text \<open>
  \<open>_psignalgrp\<close>: climb to the top of the tree (\<open>grp_top\<close>; the inner \<open>None\<close> is the early return
  at a parent without a \<open>struct user\<close>), test the whole tree, then signal the group.
\<close>

partial_function (option) grp_top :: "machine \<Rightarrow> u32 \<Rightarrow> u32 \<Rightarrow> u32 option option" where
  "grp_top m ok p =
     (if p \<noteq> 0 \<and> p \<noteq> 1
      then case procs m p of None \<Rightarrow> Some None | Some u \<Rightarrow> grp_top m p (p_pptr u)
      else Some (Some ok))"

definition psignalgrp :: "u32 \<Rightarrow> nat \<Rightarrow> machine \<Rightarrow> machine exec option" where
  "psignalgrp t sig m =
     (case procs m t of
        None \<Rightarrow> Some (Ok m)
      | Some u \<Rightarrow>
          Option.bind (grp_top m t (p_pptr u)) (\<lambda>top.
            case top of
              None \<Rightarrow> Some (Ok m)
            | Some ok \<Rightarrow>
                Option.bind (sigprocessgrp_test ok m) (\<lambda>r.
                  if r then sigprocessgrp_post (p_pgrp u) sig ok m else Some (Ok m))))"

section \<open>Sleeping\<close>

text \<open>
  \<open>tsleep\<close> without a timeout, as every caller in the library uses it, in two parts: up to
  \<open>Wait\<close>, and from its return with the signals \<open>res\<close> on.
\<close>

datatype sleep_out = SleepRet int machine | SleepWait machine | SleepStop u32 machine

definition sleep_entry :: "u32 \<Rightarrow> proc \<Rightarrow> u32 \<Rightarrow> sleep_msg" where
  "sleep_entry me p waitchan = \<lparr>sm_signal = u_sleep_sig p, sm_sigtask = me, sm_waitchan = waitchan\<rparr>"

definition tsleep_begin :: "u32 \<Rightarrow> u32 \<Rightarrow> machine \<Rightarrow> sleep_out exec" where
  "tsleep_begin me waitchan m =
     (case procs m me of
        None \<Rightarrow> Wild
      | Some p \<Rightarrow>
          (case CURSIG (supmode m) p of
             IsStop w p' \<Rightarrow> Ok (SleepStop w (put_proc me p' m))
           | IsRet s p' \<Rightarrow>
               if s \<noteq> 0 then Ok (SleepRet (-1) (put_proc me (p'\<lparr>u_errno := EINTR\<rparr>) m))
               else let m1 = put_proc me (p'\<lparr>p_stat := SSLEEP, p_wchan := waitchan\<rparr>) m;
                        h = ix_hash waitchan
                    in Ok (SleepWait (m1\<lparr>sleepq := (sleepq m1)(h := sleepq m1 h @ [sleep_entry me p waitchan])\<rparr>))))"

definition sigmsg_default :: "proc \<Rightarrow> bool" where
  "sigmsg_default p \<longleftrightarrow> p_sigignore p AND sigmask SIGMSG \<noteq> 0 \<or> p_sigcatch p AND sigmask SIGMSG = 0"

definition tsleep_finish :: "u32 \<Rightarrow> u32 \<Rightarrow> sleep_msg \<Rightarrow> machine \<Rightarrow> sleep_out exec" where
  "tsleep_finish me res sm m =
     (case procs m me of
        None \<Rightarrow> Wild
      | Some p \<Rightarrow>
          let m1 = m\<lparr>recvd := (recvd m)(me := recvd m me AND NOT res)\<rparr>;
              h = ix_hash (sm_waitchan sm)
          in (case CURSIG (supmode m) p of
                IsStop w p1 \<Rightarrow> Ok (SleepStop w (put_proc me p1 m1))
              | IsRet s p1 \<Rightarrow>
                  let m2 = m1\<lparr>sleepq := (sleepq m1)(h := remove1 sm (sleepq m1 h))\<rparr>;
                      p2 = p1\<lparr>p_wchan := 0, p_stat := SRUN\<rparr>
                  in Ok (if s \<noteq> 0 then SleepRet (-1) (put_proc me (p2\<lparr>u_errno := EINTR\<rparr>) m2)
                         else SleepRet 0 (put_proc me p2 m2))))"

definition tsleep_end :: "u32 \<Rightarrow> u32 \<Rightarrow> machine \<Rightarrow> sleep_out exec option" where
  "tsleep_end me res m =
     (case procs m me of
        None \<Rightarrow> Some Wild
      | Some p \<Rightarrow>
          Option.bind
            (if sigmsg_default p \<and> res AND SIGBREAKF_CTRL_C \<noteq> 0
             then psignalgrp (case u_session_pgrp p of None \<Rightarrow> me | Some g \<Rightarrow> g) SIGINT m else Some (Ok m))
            (\<lambda>r. Some (exec_bind r (tsleep_finish me res (sleep_entry me p (p_wchan p))))))"

section \<open>The Launch handler\<close>

text \<open>
  \<open>sig_launch\<close> for the current process: new Exec signals are mapped to \<open>SIGINT\<close> for the group
  or to \<open>SIGMSG\<close>, then signals are delivered.  \<open>lastrcv\<close> is \<open>u_lastrcvsig\<close>; the result is the
  machine and its new value.  \<open>None\<close> is a group walk that never ends; \<open>Wild\<close> also stands for
  a user stack that holds no context.  The call into ixnet.library, made only by a process that
  uses a network stack, is left out.
\<close>

definition sigmsg_direct :: "u32 \<Rightarrow> proc \<Rightarrow> proc" where
  "sigmsg_direct newsigs p =
     (let p1 = sendsig (Catch (u_signal p SIGMSG)) SIGMSG (p_sigmask p) newsigs 0 (p\<lparr>u_nsignals := u_nsignals p + 1\<rparr>)
      in p1\<lparr>p_sigmask := p_sigmask p1 OR u_sigmask p1 SIGMSG OR sigmask SIGMSG\<rparr>)"

definition launch_map :: "u32 \<Rightarrow> u32 \<Rightarrow> machine \<Rightarrow> (machine \<times> u32) exec option" where
  "launch_map me lastrcv m =
     (case procs m me of
        None \<Rightarrow> Some Wild
      | Some p \<Rightarrow>
          let newsigs = recvd m me AND NOT lastrcv; last1 = recvd m me
          in if sigmsg_default p \<and> newsigs AND SIGBREAKF_CTRL_C \<noteq> 0
             then Option.bind
                    (if p_sigignore p AND sigmask SIGINT = 0
                     then psignalgrp (case u_session_pgrp p of None \<Rightarrow> me | Some g \<Rightarrow> g) SIGINT m else Some (Ok m))
                    (\<lambda>r. Some (exec_bind r (\<lambda>m1.
                       Ok (m1\<lparr>recvd := (recvd m1)(me := recvd m1 me AND NOT SIGBREAKF_CTRL_C)\<rparr>,
                           last1 AND NOT SIGBREAKF_CTRL_C))))
             else if newsigs \<noteq> 0 \<and> p_sigcatch p AND sigmask SIGMSG \<noteq> 0
             then if \<not> traced p \<and> p_sigmask p AND sigmask SIGMSG = 0
                  then Some (exec_bind (setrun me (put_proc me (sigmsg_direct newsigs p) m)) (\<lambda>m1. Ok (m1, last1)))
                  else Some (exec_bind (psignal me SIGMSG m) (\<lambda>m1. Ok (m1, last1)))
             else Some (Ok (m, last1)))"

definition sig_launch :: "u32 \<Rightarrow> u32 \<Rightarrow> bool \<Rightarrow> machine \<Rightarrow> (machine \<times> u32) exec option" where
  "sig_launch me lastrcv forbidden m =
     (case procs m me of
        None \<Rightarrow> Some Wild
      | Some p \<Rightarrow>
          if u_mask_state p \<noteq> 0 \<or> p_stat p = SSLEEP \<or> p_stat p = SSTOP then Some (Ok (m, lastrcv))
          else if p_stat p = SWAIT
          then let p1 = push_context p; out = CURSIG True p1; p2 = is_state out;
                   m1 = (case out of IsRet s q \<Rightarrow> if s \<noteq> 0 then exec_signal me SIGBREAKF_CTRL_C m else m | IsStop w q \<Rightarrow> m)
               in (case leave_launch (Suc (length (ustack p))) p2 of
                     None \<Rightarrow> Some Wild
                   | Some p3 \<Rightarrow> Some (Ok (put_proc me p3 m1, lastrcv)))
          else if forbidden then Some (Ok (m, lastrcv))
          else Option.bind (launch_map me lastrcv (put_proc me (push_context p) m)) (\<lambda>r.
                 Some (exec_bind r (\<lambda>(m1, last1).
                   case procs m1 me of
                     None \<Rightarrow> Wild
                   | Some p1 \<Rightarrow>
                       (case leave_launch (Suc (length (ustack p))) (deliver_signals p1) of
                          None \<Rightarrow> Wild
                        | Some p2 \<Rightarrow> Ok (put_proc me p2 m1, last1))))))"

end
