(* ===== verification/Ix_Sig_Safety.thy ===== *)
theory Ix_Sig_Safety
  imports Ix_Sigcall
begin

text \<open>
  Every signal call keeps the invariant of \<open>Ix_Sigcall\<close>.  The steps that deliver signals are
  related by \<open>grows\<close>: they keep the invariant and only push frames on the user stack.
\<close>

section \<open>Steps that push frames\<close>

fun is_frame :: "uobj \<Rightarrow> bool" where
  "is_frame (UFrame sf sc) = True"
| "is_frame x = False"

definition frames_on :: "uobj list \<Rightarrow> uobj list \<Rightarrow> bool" where
  "frames_on st st' \<longleftrightarrow> (\<exists>fs. st' = fs @ st \<and> (\<forall>x\<in>set fs. is_frame x))"

lemma frames_on_refl [simp]: "frames_on st st"
  by (simp add: frames_on_def)

lemma frames_on_trans: "frames_on a b \<Longrightarrow> frames_on b c \<Longrightarrow> frames_on a c"
  unfolding frames_on_def by (metis Un_iff append_assoc set_append)

lemma frames_on_Cons [simp]: "frames_on st (UFrame sf sc # st)"
  by (auto simp: frames_on_def)

lemma sendsig_ustack:
  "ustack (sendsig c n m d a p) =
     UFrame \<lparr>sf_signum = n, sf_code = d, sf_addr = a, sf_handler = c, sf_sc = \<lparr>sc_onstack = u_onstack p, sc_mask = m\<rparr>\<rparr>
       \<lparr>sc_onstack = (u_onstack p \<or> u_sigonstack p AND sigmask n \<noteq> 0), sc_mask = p_sigmask p\<rparr> # ustack p"
  by (simp add: sendsig_def Let_def)

lemma frames_on_sendsig: "frames_on (ustack p) (ustack (sendsig c n m d a p))"
  by (simp add: sendsig_ustack)

lemma frames_on_psig_one: "frames_on (ustack p) (ustack (psig_one sig p))"
  unfolding psig_one_def Let_def by (simp add: sendsig_ustack)

lemma stk_mid_frames: "(\<forall>x\<in>set fs. is_frame x) \<Longrightarrow> stk_mid (fs @ st) = stk_mid st"
  by (induction fs) (auto elim: is_frame.elims)

lemma stk_mid_grow: "frames_on st st' \<Longrightarrow> stk_mid st' = stk_mid st"
  unfolding frames_on_def by (metis stk_mid_frames)

definition grows :: "'a sigproc_scheme \<Rightarrow> 'a sigproc_scheme \<Rightarrow> bool" where
  "grows p q \<longleftrightarrow> (sig_inv p \<longrightarrow> sig_inv q) \<and> frames_on (ustack p) (ustack q) \<and> u_signal q = u_signal p"

lemma grows_refl [simp]: "grows p p"
  by (simp add: grows_def)

lemma grows_trans: "grows p q \<Longrightarrow> grows q r \<Longrightarrow> grows p r"
  unfolding grows_def using frames_on_trans by (metis (no_types))

lemma grows_clrsig [simp]: "grows p (clrsig m p)"
  by (simp add: grows_def)

lemma grows_stop_self [simp]: "grows p (stop_self (p\<lparr>p_xstat := n\<rparr>))"
  unfolding grows_def by (auto simp: stop_self_def intro!: sig_invI [of p] dest: sig_invD(1,2))

lemma grows_sig:
  "grows p (p\<lparr>p_sig := w\<rparr>)" "grows p (p\<lparr>u_mask_state := m\<rparr>)" "grows p (p\<lparr>u_code := m\<rparr>)"
  unfolding grows_def by (auto intro!: sig_invI [of p] dest: sig_invD(1,2))

lemma grows_sendsig_stop:
  "grows p (sendsig Stopped_process_handler 0 0 0 0 (p\<lparr>p_xstat := n, u_mask_state := m\<rparr>))"
proof -
  let ?q = "p\<lparr>p_xstat := n, u_mask_state := m\<rparr>"
  have "sig_inv ?q" if "sig_inv p" using that by (auto intro!: sig_invI [of p] dest: sig_invD(1,2))
  then show ?thesis
    using frames_on_sendsig [of ?q] sig_inv_sendsig [of ?q 0 Stopped_process_handler]
    by (simp add: grows_def sigs_0)
qed

lemma grows_psig_one: "u_signal p sig \<noteq> SIG_IGN \<Longrightarrow> grows p (psig_one sig p)"
  by (simp add: grows_def sig_inv_psig_one frames_on_psig_one)

text \<open>What the callers of \<open>issig\<close> rely on.\<close>

fun is_good :: "'a sigproc_scheme \<Rightarrow> 'a sigproc_scheme issig_out \<Rightarrow> bool" where
  "is_good p (IsRet s q) = (grows p q \<and> (0 < s \<longrightarrow> u_signal q (nat s) \<noteq> SIG_IGN))"
| "is_good p (IsStop m q) = grows p q"

lemma is_good_trans: "grows p q \<Longrightarrow> is_good q out \<Longrightarrow> is_good p out"
  by (cases out) (auto intro: grows_trans)

lemma issig_returns_not_ign: "issig_returns p n \<Longrightarrow> u_signal p n \<noteq> SIG_IGN"
  by (auto simp: issig_returns_def split: if_splits)

lemma issig_loop_good: "is_good p (issig_loop sv p)"
proof (induction "card (pend p)" arbitrary: p rule: less_induct)
  case less
  obtain out where out: "issig_loop sv p = out" by simp
  then show ?case
  proof (cases rule: issig_loop_cases)
    case next_one
    with less.hyps [OF issig_step(4)] grows_clrsig is_good_trans out show ?thesis by metis
  next
    case (stop_sv q)
    with out grows_sendsig_stop show ?thesis by simp
  qed (use out in \<open>auto simp: issig_returns_not_ign\<close>)
qed

lemma issig_restart_good: "is_good p (issig_restart sv m p)"
proof -
  let ?p1 = "clrsig m p" and ?x = "p_xstat p"
  let ?p2 = "?p1\<lparr>p_sig := p_sig ?p1 OR sigmask ?x\<rparr>"
  have g1: "grows p ?p1" by simp
  have g2: "grows p ?p2" by (rule grows_trans [OF g1 grows_sig(1)])
  have g3: "grows p (clrsig (sigmask ?x) ?p2)" by (rule grows_trans [OF g2 grows_clrsig])
  show ?thesis
    using is_good_trans [OF g1 issig_loop_good] is_good_trans [OF g2 issig_loop_good]
      is_good_trans [OF g3 issig_loop_good] g2 issig_returns_not_ign [of ?p2 ?x]
    by (auto simp: issig_restart_def Let_def)
qed

lemma issig_good: "is_good p (issig sv p)"
  unfolding issig_def using issig_loop_good
  by (cases "u_mask_state p = 0") (auto intro: is_good_trans [OF grows_sig(2) issig_restart_good])

lemma CURSIG_good: "is_good p (CURSIG sv p)"
  unfolding CURSIG_def by (simp add: issig_good)

lemma psig_grows: "u_signal p sig \<noteq> SIG_IGN \<Longrightarrow> grows p (psig p sig)"
proof (induction p sig rule: psig.induct)
  case (1 p sig)
  note one = grows_psig_one [OF "1.prems"]
  have good: "is_good p (CURSIG True (psig_one sig p))"
    by (rule is_good_trans [OF one CURSIG_good])
  show ?case
  proof (cases "CURSIG True (psig_one sig p)")
    case (IsRet s q)
    with good have q: "grows p q" "0 < s \<longrightarrow> u_signal q (nat s) \<noteq> SIG_IGN" by simp_all
    show ?thesis
    proof (cases "0 < s")
      case True
      with grows_trans [OF q(1) "1.IH" [OF IsRet True]] q(2) IsRet show ?thesis
        by (simp add: psig.simps [of p sig])
    qed (use IsRet q in \<open>simp add: psig.simps [of p sig]\<close>)
  qed (use good in \<open>simp add: psig.simps [of p sig]\<close>)
qed

lemma psig_grows_trans: "grows p q \<Longrightarrow> u_signal q n \<noteq> SIG_IGN \<Longrightarrow> grows p (psig q n)"
  by (rule grows_trans [OF _ psig_grows])

lemma deliver_grows: "grows p (deliver_signals p)"
  using CURSIG_good [of p True]
  by (auto simp: deliver_signals_def split: issig_out.split intro: psig_grows_trans)

lemma resume_grows: "grows p (resume_signal_check p)"
  using issig_good [of p True]
  by (auto simp: resume_signal_check_def split: issig_out.split intro: psig_grows_trans)

section \<open>Entering and leaving handlers\<close>

lemma sup_do_sigreturn_ok:
  assumes "sig_inv p" and "stk_mid (ustack p)"
  shows "\<exists>q. sup_do_sigreturn p = Some q \<and> sig_ok q"
proof (cases "ustack p")
  case Nil
  with assms show ?thesis by simp
next
  case (Cons x r)
  from sig_invD(4) [OF assms(1)] Cons have x: "uobj_ok x" by simp
  have load: "sig_inv ((do_sigreturn sc p)\<lparr>ustack := st\<rparr>)" if "sc_ok sc" "\<forall>y\<in>set st. y \<in> set (ustack p) \<or> uobj_ok y" for sc st
    by (rule sig_invI [OF assms(1)])
      (use that sig_invD(2) [OF assms(1)] in \<open>simp_all add: do_sigreturn_def sc_ok_def\<close>)
  show ?thesis
  proof (cases x)
    case (UContext sc)
    with Cons x load [of sc r] assms(2) show ?thesis
      by (simp add: sup_do_sigreturn_def sig_ok_def)
  next
    case (UFrame sf sc)
    with Cons x load [of sc "UHandler sf # r"] assms(2) show ?thesis
      by (simp add: sup_do_sigreturn_def sig_ok_def)
  next
    case (UHandler sf)
    with Cons assms(2) show ?thesis by simp
  qed
qed

lemma grows_inv: "grows p q \<Longrightarrow> sig_inv p \<Longrightarrow> sig_inv q"
  and grows_mid: "grows p q \<Longrightarrow> stk_mid (ustack q) = stk_mid (ustack p)"
  by (simp_all add: grows_def stk_mid_grow)

lemma push_context_ok:
  assumes "sig_ok p"
  shows "sig_inv (push_context p)" and "stk_mid (ustack (push_context p))"
proof -
  from assms have p: "sig_inv p" "stk_rest (ustack p)" by (simp_all add: sig_ok_def)
  show "sig_inv (push_context p)"
    by (rule sig_invI [OF p(1)]) (use sig_invD(1,2) [OF p(1)] in \<open>simp_all add: push_context_def sc_ok_def\<close>)
  show "stk_mid (ustack (push_context p))" using p(2) by (simp add: push_context_def)
qed

lemma leave_launch_ok:
  assumes "sig_ok p" and "grows (push_context p) q"
  shows "\<exists>r. leave_launch (Suc (length (ustack p))) q = Some r \<and> sig_ok r"
proof -
  note push = push_context_ok [OF assms(1)]
  from grows_inv [OF assms(2) push(1)] grows_mid [OF assms(2)] push(2)
  have q: "sig_inv q" "stk_mid (ustack q)" by simp_all
  show ?thesis
  proof (cases "length (ustack q) = Suc (length (ustack p))")
    case True
    with assms(2) have "tl (ustack q) = ustack p"
      by (auto simp: grows_def frames_on_def push_context_def)
    moreover have tl: "set (tl (ustack q)) \<subseteq> set (ustack q)" by (cases "ustack q") auto
    have "sig_inv (q\<lparr>ustack := tl (ustack q)\<rparr>)"
      by (rule sig_invI [OF q(1)]) (use tl sig_invD(1,2) [OF q(1)] in auto)
    ultimately show ?thesis using True assms(1) by (simp add: leave_launch_def sig_ok_def)
  next
    case False
    with sup_do_sigreturn_ok [OF q] show ?thesis by (simp add: leave_launch_def)
  qed
qed

lemma launch_ok: "sig_ok p \<Longrightarrow> \<exists>q. launch p = Some q \<and> sig_ok q"
  unfolding launch_def by (rule leave_launch_ok [OF _ deliver_grows])

definition reset_sigill :: "'a sigproc_scheme \<Rightarrow> 'a sigproc_scheme" where
  "reset_sigill p = p\<lparr>p_sigignore := p_sigignore p AND NOT (sigmask SIGILL),
     p_sigmask := p_sigmask p AND NOT (sigmask SIGILL), p_sigcatch := p_sigcatch p AND NOT (sigmask SIGILL)\<rparr>"

lemma psignal_trap_cases: "psignal_trap n p = (n, p) \<or> psignal_trap n p = (SIGILL, reset_sigill p)"
  unfolding psignal_trap_def Let_def reset_sigill_def by presburger

lemma reset_sigill_inv:
  assumes "sig_inv p"
  shows "sig_inv (reset_sigill p)"
proof -
  have "disp_at (reset_sigill p) k" if "disp_at p k" for k
    using that by (cases "k = SIGILL")
      (simp_all add: reset_sigill_def disp_at_def ign_disp_def caught_disp_def sigs_andnot sigs_sigmask_range)
  moreover have "masks_ok (reset_sigill p)"
    using assms by (auto simp: sig_inv_def reset_sigill_def masks_ok_def sigs_andnot)
  ultimately show ?thesis using assms by (simp add: sig_inv_def disp_ok_def reset_sigill_def)
qed

lemma psignal_trap_inv: "sig_inv p \<Longrightarrow> sig_inv (snd (psignal_trap n p))"
  using psignal_trap_cases [of n p] reset_sigill_inv [of p] by auto

lemma psignal_trap_ustack: "ustack (snd (psignal_trap n p)) = ustack p"
  and psignal_trap_signal: "u_signal (snd (psignal_trap n p)) = u_signal p"
  using psignal_trap_cases [of n p] by (auto simp: reset_sigill_def)

definition post_sig :: "nat \<Rightarrow> u32 \<Rightarrow> u32" where
  "post_sig sig w =
     (if sig = SIGCONT then w AND NOT stopsigmask
      else if sig \<in> {SIGTSTP, SIGTTIN, SIGTTOU, SIGSTOP} then w AND NOT (sigmask SIGCONT) else w) OR sigmask sig"

lemma psignal_post_state:
  assumes "psignal_trap n p = (sig, q)"
  shows "snd (psignal_post n p) =
    (if \<not> traced q \<and> p_sigignore q AND sigmask sig \<noteq> 0 then q else q\<lparr>p_sig := post_sig sig (p_sig q)\<rparr>)"
proof -
  let ?p1 = "if sig = SIGCONT then clrsig stopsigmask q
             else if sig \<in> {SIGTSTP, SIGTTIN, SIGTTOU, SIGSTOP} then clrsig (sigmask SIGCONT) q else q"
  have "?p1\<lparr>p_sig := p_sig ?p1 OR sigmask sig\<rparr> = q\<lparr>p_sig := post_sig sig (p_sig q)\<rparr>"
    unfolding post_sig_def clrsig_def by (cases "sig = SIGCONT"; cases "sig \<in> {SIGTSTP, SIGTTIN, SIGTTOU, SIGSTOP}") simp_all
  then show ?thesis
    unfolding psignal_post_def Let_def assms prod.case by (simp only: if_distrib [of snd] snd_conv if_cancel)
qed

lemma psignal_grows: "grows p (snd (psignal_post n p))"
proof -
  obtain sig q where q: "psignal_trap n p = (sig, q)" by fastforce
  have "grows p q"
    using psignal_trap_inv [of p n] psignal_trap_ustack [of n p] psignal_trap_signal [of n p] q
    by (simp add: grows_def)
  then show ?thesis
    unfolding psignal_post_state [OF q] by (simp add: grows_trans [OF _ grows_sig(1)])
qed

lemma sig_inv_disp_at: "sig_inv p \<Longrightarrow> n \<in> {1..32} \<Longrightarrow> disp_at p n"
  by (simp add: sig_inv_def disp_ok_def)

lemma trapsignal_grows: "grows p (snd (trapsignal n code a p))"
proof (cases "\<not> traced p \<and> p_sigcatch p AND sigmask n \<noteq> 0 \<and> p_sigmask p AND sigmask n = 0")
  case True
  let ?h = "Catch (u_signal p n)" and ?p = "p\<lparr>u_nsignals := u_nsignals p + 1\<rparr>"
  let ?s = "sendsig ?h n (p_sigmask p) code a ?p"
  have eq: "snd (trapsignal n code a p) = ?s\<lparr>p_sigmask := p_sigmask p OR u_sigmask p n OR sigmask n\<rparr>"
    using True by (simp add: trapsignal_def Let_def)
  from True have "sigs (p_sigcatch p AND sigmask n) \<noteq> {}" by (simp add: sigs_empty_iff)
  then have n: "n \<in> {1..32}" by (auto simp: sigs_and sigs_sigmask)
  have "sig_inv (?s\<lparr>p_sigmask := p_sigmask p OR u_sigmask p n OR sigmask n\<rparr>)" if inv: "sig_inv p"
  proof -
    from n True have "n \<in> sigs (p_sigcatch p)" by (simp add: mask_iffs)
    with sig_inv_disp_at [OF inv n] have c: "caught_disp p n" by (simp add: disp_at_def split: if_splits)
    then have "n \<notin> unblockable" using sig_invD(5) [OF inv, of n] by (auto simp: caught_disp_def)
    then have m: "sigs (p_sigmask p OR u_sigmask p n OR sigmask n) \<inter> unblockable = {}"
      using unblockable_sigmask [of n] sig_invD(1) [OF inv] sig_invD(3) [OF inv, of n] by (auto simp: sigs_or)
    have "sig_inv ?p" by (rule sig_invI [OF inv]) (use sig_invD(1,2) [OF inv] in simp_all)
    then have s: "sig_inv ?s" by (rule sig_inv_sendsig) (use sig_invD(1) [OF inv] c in \<open>simp_all add: caught_disp_def\<close>)
    show ?thesis by (rule sig_invI [OF s]) (use m sig_invD(2) [OF s] in simp_all)
  qed
  then show ?thesis unfolding eq grows_def by (simp add: sendsig_ustack)
next
  case False
  then have "snd (trapsignal n code a p) = snd (psignal_post n (p\<lparr>u_code := code\<rparr>))"
    by (auto simp: trapsignal_def Let_def)
  then show ?thesis by (simp add: grows_trans [OF grows_sig(3) psignal_grows])
qed

lemma trap_entry_ok: "sig_ok p \<Longrightarrow> \<exists>q. trap_entry n code a p = Some q \<and> sig_ok q"
  unfolding trap_entry_def by (rule leave_launch_ok [OF _ grows_trans [OF trapsignal_grows deliver_grows]])

section \<open>The calls\<close>

text \<open>A step that leaves the user stack alone keeps \<open>sig_ok\<close> when it keeps \<open>sig_inv\<close>.\<close>

lemma sig_ok_same_stack: "sig_ok p \<Longrightarrow> (sig_inv p \<Longrightarrow> sig_inv q) \<Longrightarrow> ustack q = ustack p \<Longrightarrow> sig_ok q"
  by (simp add: sig_ok_def)

lemma issig_user_stack: "ustack (is_state (issig_loop False p)) = ustack p"
proof (induction "card (pend p)" arbitrary: p rule: less_induct)
  case less
  obtain out where out: "issig_loop False p = out" by simp
  then show ?case
  proof (cases rule: issig_loop_cases)
    case next_one
    with less.hyps [OF issig_step(4)] out show ?thesis by fastforce
  qed (use out in \<open>auto simp: stop_self_def\<close>)
qed

lemma issig_restart_stack: "ustack (is_state (issig_restart False m p)) = ustack p"
  by (simp add: issig_restart_def Let_def issig_user_stack)

lemma CURSIG_stack: "ustack (is_state (CURSIG False p)) = ustack p"
  by (simp add: CURSIG_def issig_def issig_user_stack issig_restart_stack)

lemma is_good_inv: "is_good p out \<Longrightarrow> sig_inv p \<Longrightarrow> sig_inv (is_state out)"
  by (cases out) (auto simp: grows_def)

lemma check_run_state: "state_of (check_run r p) = is_state (CURSIG False p)"
  by (simp add: check_run_def split: issig_out.split)

lemma check_run_ok: "sig_ok p \<Longrightarrow> sig_ok (state_of (check_run r p))"
  unfolding check_run_state
  by (erule sig_ok_same_stack) (simp_all add: CURSIG_stack is_good_inv [OF CURSIG_good])

lemma sig_ok_mask:
  assumes "sig_ok p" and "sigs w \<inter> unblockable = {}"
  shows "sig_ok (p\<lparr>p_sigmask := w\<rparr>)"
proof (rule sig_ok_same_stack [OF assms(1)])
  assume inv: "sig_inv p"
  show "sig_inv (p\<lparr>p_sigmask := w\<rparr>)"
    by (rule sig_invI [OF inv]) (use assms(2) sig_invD(2) [OF inv] in simp_all)
qed simp

lemma sig_okD: "sig_ok p \<Longrightarrow> sig_inv p"
  by (simp add: sig_ok_def)

lemma sigaction_ok: "sig_ok p \<Longrightarrow> sig_ok (snd (snd (sigaction n sa p)))"
  and sigvec_ok: "sig_ok p \<Longrightarrow> sig_ok (snd (snd (sigvec n sa p)))"
proof -
  assume p: "sig_ok p"
  have err: "sig_ok (p\<lparr>u_errno := e\<rparr>)" for e
    by (rule sig_ok_same_stack [OF p]) (auto intro!: sig_invI [of p] dest: sig_invD(1,2))
  have set: "sig_ok (setsigvec (nat n) v p)" if "\<not> bad_signal n" for v
  proof (rule sig_ok_same_stack [OF p])
    have "nat n \<notin> unblockable" using that by (auto simp: bad_signal_def)
    moreover have "0 < nat n" "nat n < NSIG" using that by (auto simp: bad_signal_def)
    ultimately show "sig_inv (setsigvec (nat n) v p)" if "sig_inv p"
      using sig_inv_setsigvec [OF that] by blast
  qed (simp add: setsigvec_def Let_def)
  show "sig_ok (snd (snd (sigaction n sa p)))" and "sig_ok (snd (snd (sigvec n sa p)))"
    using p err set by (simp_all add: sigaction_def sigvec_def Let_def split: option.split)
qed

lemma sigprocmask_ok:
  assumes "sig_ok p"
  shows "sig_ok (state_of (snd (sigprocmask how w p)))"
proof -
  note m = sig_invD(1) [OF sig_okD [OF assms]]
  have "sig_ok (p\<lparr>u_errno := e\<rparr>)" for e
    by (rule sig_ok_same_stack [OF assms]) (auto intro!: sig_invI [of p] dest: sig_invD(1,2))
  moreover have "sig_ok (p\<lparr>p_sigmask := p_sigmask p OR (x AND NOT sigcantmask)\<rparr>)"
    "sig_ok (p\<lparr>p_sigmask := p_sigmask p AND NOT x\<rparr>)" "sig_ok (p\<lparr>p_sigmask := x AND NOT sigcantmask\<rparr>)" for x
    by (rule sig_ok_mask [OF assms], use m in \<open>auto simp: sigs_simps\<close>)+
  ultimately show ?thesis
    using assms by (simp add: sigprocmask_def check_run_ok split: option.split)
qed

lemma sigsuspend_ok: "sig_ok p \<Longrightarrow> sig_ok (sigsuspend_begin w p)"
  and sigsuspend_end_ok: "sig_ok p \<Longrightarrow> sig_ok (state_of (sigsuspend_end p))"
proof -
  assume p: "sig_ok p"
  note m = sig_invD(1,2) [OF sig_okD [OF p]]
  show "sig_ok (sigsuspend_begin w p)"
    by (rule sig_ok_same_stack [OF p])
      (use m in \<open>auto simp: sigsuspend_begin_def sigs_simps intro!: sig_invI [of p]\<close>)
  have "sig_ok (q\<lparr>u_errno := e\<rparr>)" if "sig_ok q" for e and q :: "'a sigproc_scheme"
    by (rule sig_ok_same_stack [OF that]) (auto intro!: sig_invI [of q] dest: sig_invD(1,2))
  moreover have "sig_ok (p\<lparr>p_sigmask := u_oldmask p\<rparr>)" by (rule sig_ok_mask [OF p m(2)])
  from check_run_ok [OF this, of "-1"] have "sig_ok (state_of (check_run (-1) (p\<lparr>p_sigmask := u_oldmask p\<rparr>)))" .
  ultimately show "sig_ok (state_of (sigsuspend_end p))"
    by (cases "check_run (-1) (p\<lparr>p_sigmask := u_oldmask p\<rparr>)") (auto simp: sigsuspend_end_def)
qed

lemma sig_trampoline_end_ok:
  assumes "sig_ok p" and "ustack p = UHandler sf # r"
  shows "\<exists>q. sig_trampoline_end p = Some q \<and> sig_ok q"
proof -
  let ?p1 = "(do_sigreturn (sf_sc sf) p)\<lparr>ustack := r\<rparr>"
  from assms have p: "sig_inv p" "stk_mid r" by (simp_all add: sig_ok_def)
  have sc: "sc_ok (sf_sc sf)" using sig_invD(4) [OF p(1), of "UHandler sf"] assms(2) by simp
  have p1: "sig_inv ?p1"
    by (rule sig_invI [OF p(1)])
      (use sc sig_invD(2) [OF p(1)] assms(2) in \<open>simp_all add: do_sigreturn_def sc_ok_def\<close>)
  moreover have "sig_inv (resume_signal_check ?p1)" "stk_mid (ustack (resume_signal_check ?p1))"
    using grows_inv [OF resume_grows p1] grows_mid [OF resume_grows, of ?p1] p(2) by simp_all
  ultimately have "sig_inv (if c then resume_signal_check ?p1 else ?p1)"
    "stk_mid (ustack (if c then resume_signal_check ?p1 else ?p1))" for c
    using p(2) by simp_all
  from sup_do_sigreturn_ok [OF this] show ?thesis
    by (simp add: sig_trampoline_end_def assms(2) Let_def)
qed

lemma sig_exec_ok:
  assumes "sig_ok p"
  shows "\<exists>q. sig_exec c p = Some q \<and> sig_ok q"
proof (cases c)
  case (Sigblock w)
  have "sig_ok (p\<lparr>p_sigmask := p_sigmask p OR (w AND NOT sigcantmask)\<rparr>)"
    by (rule sig_ok_mask [OF assms]) (use sig_invD(1) [OF sig_okD [OF assms]] in \<open>auto simp: sigs_simps\<close>)
  with Sigblock show ?thesis by (simp add: sigblock_def)
next
  case (Sigsetmask w)
  have "sig_ok (p\<lparr>p_sigmask := w AND NOT sigcantmask\<rparr>)"
    by (rule sig_ok_mask [OF assms]) (auto simp: sigs_simps)
  with Sigsetmask show ?thesis by (simp add: sigsetmask_def check_run_ok)
next
  case (Sigstack s)
  have "sig_ok (p\<lparr>u_sigsp := sp, u_onstack := on\<rparr>)" for sp on
    by (rule sig_ok_same_stack [OF assms]) (auto intro!: sig_invI [of p] dest: sig_invD(1,2))
  with Sigstack assms show ?thesis by (simp add: sigstack_def split: option.split)
next
  case (Psignal n)
  obtain sig q where q: "psignal_trap n p = (sig, q)" by fastforce
  have "ustack (snd (psignal_post n p)) = ustack p"
    using psignal_trap_ustack [of n p] by (simp add: psignal_post_state [OF q] q)
  from sig_ok_same_stack [OF assms grows_inv [OF psignal_grows] this] Psignal show ?thesis by simp
next
  case Handler_returns
  with sig_trampoline_end_ok [OF assms] assms show ?thesis
    by (auto split: list.split uobj.split)
next
  case (Debugger fl n st)
  let ?q = "p\<lparr>p_flag := (p_flag p AND NOT STRC) OR (fl AND STRC), p_xstat := (if n < NSIG then n else p_xstat p), p_stat := st\<rparr>"
  have "sig_ok ?q"
    by (rule sig_ok_same_stack [OF assms]) (auto intro!: sig_invI [of p] dest: sig_invD(1,2))
  with Debugger show ?thesis by simp
next
  case (Restarted m)
  have "sig_ok (is_state (issig_restart False m p))"
    by (rule sig_ok_same_stack [OF assms]) (simp_all add: issig_restart_stack is_good_inv [OF issig_restart_good])
  with Restarted show ?thesis by simp
qed (use assms in \<open>simp_all add: sigaction_ok sigvec_ok sigprocmask_ok sigsuspend_ok sigsuspend_end_ok launch_ok trap_entry_ok\<close>)

lemma sig_run_ok: "sig_ok p \<Longrightarrow> \<exists>q. sig_run cs p = Some q \<and> sig_ok q"
proof (induction cs arbitrary: p)
  case (Cons c cs)
  from sig_exec_ok [OF Cons.prems] obtain q where "sig_exec c p = Some q" "sig_ok q" by blast
  with Cons.IH [of q] show ?case by simp
qed simp

lemma proc0_ok: "sig_ok proc0"
proof -
  have "disp_at proc0 n" if "n \<in> {1..32}" for n
    by (auto simp: proc0_def siginit_def disp_at_def ign_disp_def caught_disp_def sigs_simps)
  then show ?thesis
    by (simp add: sig_ok_def sig_inv_def disp_ok_def masks_ok_def) (simp add: proc0_def siginit_def sigs_0)
qed

end
