(* ===== verification/Ix_Sig_Props.thy ===== *)
theory Ix_Sig_Props
  imports Ix_Sig_Safety
begin

text \<open>
  Delivery of signals against a specification on sets, the nesting of handlers, and the
  theorems on the signal calls.
\<close>

section \<open>Specification of delivery\<close>

text \<open>
  \<open>take_all d mk P B\<close>: which signals a process with dispositions \<open>d\<close> and handler masks \<open>mk\<close>
  takes when the signals \<open>P\<close> are pending and \<open>B\<close> are blocked.  The lowest deliverable signal
  goes first; an ignored one is discarded; a handler blocks its mask and its own signal.  The
  result lists each signal taken, its action and the set blocked when the action starts, then
  what stays pending and what is blocked at the end.
\<close>

definition dropped :: "(nat \<Rightarrow> u32) \<Rightarrow> nat \<Rightarrow> bool" where
  "dropped d s \<longleftrightarrow> d s = SIG_IGN \<or> d s = SIG_DFL \<and> s \<in> sigs stopsigmask \<union> sigs defaultignmask"

definition blocked_by :: "(nat \<Rightarrow> u32) \<Rightarrow> (nat \<Rightarrow> nat set) \<Rightarrow> nat \<Rightarrow> nat set \<Rightarrow> nat set" where
  "blocked_by d mk s B = (if d s = SIG_DFL then B else B \<union> mk s \<union> {s})"

definition action_of :: "(nat \<Rightarrow> u32) \<Rightarrow> nat \<Rightarrow> catcher" where
  "action_of d s = (if d s = SIG_DFL then Sig_exit else Catch (d s))"

function take_all ::
  "(nat \<Rightarrow> u32) \<Rightarrow> (nat \<Rightarrow> nat set) \<Rightarrow> nat set \<Rightarrow> nat set \<Rightarrow> (nat \<times> catcher \<times> nat set) list \<times> nat set \<times> nat set" where
  "take_all d mk P B =
     (if finite P \<and> P - B \<noteq> {}
      then let s = Min (P - B) in
           if dropped d s then take_all d mk (P - {s}) B
           else let B' = blocked_by d mk s B; (xs, r) = take_all d mk (P - {s}) B' in ((s, action_of d s, B') # xs, r)
      else ([], P, B))"
  by pat_completeness auto
termination
proof (relation "measure (\<lambda>(d, mk, P, B). card P)", goal_cases)
  case (2 d mk P B s)
  then have "s \<in> P" using Min_in [of "P - B"] by auto
  with 2 show ?case by (auto intro: card_Diff1_less simp del: card_Diff_insert card_Diff_singleton)
next
  case (3 d mk P B s B')
  then have "s \<in> P" using Min_in [of "P - B"] by auto
  with 3 show ?case by (auto intro: card_Diff1_less simp del: card_Diff_insert card_Diff_singleton)
qed simp

declare take_all.simps [simp del]

lemma take_all_end: "\<not> (finite P \<and> P - B \<noteq> {}) \<Longrightarrow> take_all d mk P B = ([], P, B)"
  by (subst take_all.simps) (simp only: if_False simp_thms)

lemma take_all_drop:
  "finite P \<and> P - B \<noteq> {} \<Longrightarrow> dropped d (Min (P - B)) \<Longrightarrow> take_all d mk P B = take_all d mk (P - {Min (P - B)}) B"
  by (subst take_all.simps) (simp only: if_True Let_def simp_thms)

lemma take_all_take:
  assumes "finite P \<and> P - B \<noteq> {}" and "\<not> dropped d (Min (P - B))"
  shows "take_all d mk P B =
    ((Min (P - B), action_of d (Min (P - B)), blocked_by d mk (Min (P - B)) B) #
       fst (take_all d mk (P - {Min (P - B)}) (blocked_by d mk (Min (P - B)) B)),
     snd (take_all d mk (P - {Min (P - B)}) (blocked_by d mk (Min (P - B)) B)))"
  by (subst take_all.simps) (simp only: assms if_True if_False Let_def simp_thms, simp split: prod.split)

definition taken :: "'a sigproc_scheme \<Rightarrow> (nat \<times> catcher \<times> nat set) list \<times> nat set \<times> nat set" where
  "taken p = take_all (u_signal p) (\<lambda>n. sigs (u_sigmask p n)) (sigs (p_sig p)) (sigs (p_sigmask p))"

fun frame_view :: "uobj \<Rightarrow> nat \<times> catcher \<times> nat set" where
  "frame_view (UFrame sf sc) = (sf_signum sf, sf_handler sf, sigs (sc_mask sc))"
| "frame_view x = (0, Sig_exit, {})"

section \<open>issig and psig against the specification\<close>

lemma taken_none: "pend p = {} \<Longrightarrow> taken p = ([], sigs (p_sig p), sigs (p_sigmask p))"
  by (simp add: taken_def take_all.simps pend_def)

lemma taken_drop:
  assumes "pend p \<noteq> {}" and "dropped (u_signal p) (Min (pend p))"
  shows "taken (clrsig (sigmask (Min (pend p))) p) = taken p"
proof -
  have r: "0 < Min (pend p)" "Min (pend p) < NSIG"
    using Min_in [OF pend_finite assms(1)] sigs_range by (fastforce simp: pend_def)+
  with assms show ?thesis
    unfolding taken_def take_all.simps [of "u_signal p" _ "sigs (p_sig p)"]
    by (simp add: pend_def sigs_andnot sigs_sigmask_range)
qed

lemma taken_next:
  assumes "pend p \<noteq> {}" and "s = Min (pend p)" and "\<not> dropped (u_signal p) s"
    and "u_signal q = u_signal p" and "u_sigmask q = u_sigmask p" and "sigs (p_sig q) = sigs (p_sig p) - {s}"
    and "sigs (p_sigmask q) = blocked_by (u_signal p) (\<lambda>n. sigs (u_sigmask p n)) s (sigs (p_sigmask p))"
  shows "taken p = ((s, action_of (u_signal p) s, sigs (p_sigmask q)) # fst (taken q), snd (taken q))"
  using assms unfolding taken_def take_all.simps [of "u_signal p" _ "sigs (p_sig p)"]
  by (simp add: pend_def Let_def split: prod.split)

lemma issig_returns_iff: "0 < n \<Longrightarrow> n < NSIG \<Longrightarrow> issig_returns p n \<longleftrightarrow> \<not> dropped (u_signal p) n"
  by (auto simp: issig_returns_def dropped_def mask_iffs)

lemma ignored_dropped:
  assumes "sig_inv p" and "0 < n" and "n < NSIG" and "n \<in> sigs (p_sigignore p)"
  shows "dropped (u_signal p) n"
  using sig_inv_disp_at [OF assms(1), of n] assms(2-4)
  by (auto simp: disp_at_def ign_disp_def dropped_def split: if_splits)

lemma issig_loop_taken:
  assumes "sig_inv p" and "\<not> traced p" and "\<not> vforked p"
  shows "\<exists>s q m. issig_loop sv p = IsRet s q \<and> q = clrsig m p \<and> taken q = taken p \<and>
    (s = 0 \<and> pend q = {} \<or> 0 < s \<and> pend q \<noteq> {} \<and> nat s = Min (pend q) \<and> \<not> dropped (u_signal p) (nat s))"
  using assms
proof (induction "card (pend p)" arbitrary: p rule: less_induct)
  case less
  have ffs: "ffs (issig_mask p) = Min (pend p)" "pend p \<noteq> {}" if "issig_mask p \<noteq> 0"
    using that less.prems(3) ffs_least [OF that] issig_step(1) [OF that] by (auto simp: issig_mask_pend)
  obtain out where out: "issig_loop sv p = out" by simp
  then show ?case
  proof (cases rule: issig_loop_cases)
    case none
    then have "pend p = {}" using less.prems(3) issig_mask_pend [of p] by (simp add: sigs_0)
    with out none show ?thesis by (auto intro!: exI [of _ 0])
  next
    case next_one
    note step = issig_step [OF next_one(1)]
    let ?q = "clrsig (sigmask (Min (pend p))) p"
    have "dropped (u_signal p) (Min (pend p))"
      using next_one(3) less.prems(2) step(2,3) ffs(1) [OF next_one(1)]
        ignored_dropped [OF less.prems(1) step(2,3)] issig_returns_iff [OF step(2,3), of p] by auto
    from taken_drop [OF ffs(2) [OF next_one(1)] this] have t: "taken ?q = taken p" .
    have c: "card (pend ?q) < card (pend p)" using step(4) ffs(1) [OF next_one(1)] by simp
    from less.hyps [OF c] less.prems t next_one(2) ffs(1) [OF next_one(1)] out show ?thesis
      by auto
  next
    case found
    note step = issig_step [OF found(1)]
    from found(3) have "\<not> dropped (u_signal p) (ffs (issig_mask p))" by (simp add: issig_returns_iff step)
    with ffs [OF found(1)] found(2) step(2) out show ?thesis by (auto intro!: exI [of _ 0])
  qed (use less.prems(2) in auto)
qed

definition plain :: "'a sigproc_scheme \<Rightarrow> bool" where
  "plain p \<longleftrightarrow> sig_inv p \<and> \<not> traced p \<and> \<not> vforked p \<and> u_mask_state p = 0"

lemma plain_clrsig [simp]: "plain (clrsig m p) = plain p"
  by (simp add: plain_def)

lemma CURSIG_taken:
  assumes "plain p"
  obtains m where "CURSIG sv p = IsRet 0 (clrsig m p)" "taken (clrsig m p) = taken p" "pend (clrsig m p) = {}"
  | s m where "CURSIG sv p = IsRet (int s) (clrsig m p)" "0 < s" "taken (clrsig m p) = taken p"
      "pend (clrsig m p) \<noteq> {}" "s = Min (pend (clrsig m p))" "\<not> dropped (u_signal p) s"
proof (cases "p_sig p = 0 \<or> (\<not> traced p \<and> p_sig p AND NOT (p_sigmask p) = 0)")
  case True
  then have "sigs (p_sig p) = {} \<or> sigs (p_sig p AND NOT (p_sigmask p)) = {}"
    using sigs_empty_iff by blast
  then have "pend p = {}" by (auto simp: pend_def sigs_andnot)
  with True that(1) [of 0] show thesis by (simp add: CURSIG_def)
next
  case False
  from assms have p: "sig_inv p" "\<not> traced p" "\<not> vforked p" "u_mask_state p = 0" by (simp_all add: plain_def)
  from False p(4) have "CURSIG sv p = issig_loop sv p" by (simp only: CURSIG_def issig_def if_False) simp
  moreover obtain s m where "issig_loop sv p = IsRet s (clrsig m p)" "taken (clrsig m p) = taken p"
    "s = 0 \<and> pend (clrsig m p) = {} \<or> 0 < s \<and> pend (clrsig m p) \<noteq> {} \<and> nat s = Min (pend (clrsig m p)) \<and>
       \<not> dropped (u_signal p) (nat s)"
    using issig_loop_taken [OF p(1-3), of sv] by blast
  ultimately show thesis using that(1) [of m] that(2) [of "nat s" m] by fastforce
qed

lemma psig_one_flag: "p_flag (psig_one sig p) = p_flag p \<or> p_flag (psig_one sig p) = p_flag p AND NOT SOMASK"
  by (simp add: psig_one_def Let_def)

lemma and_not_other: "b AND c = 0 \<Longrightarrow> (a AND NOT b) AND c = a AND (c :: u32)"
  by (rule bit_eqI) (auto simp: bit_simps dest: arg_cong [where f = "\<lambda>w. bit w _"])

lemma plain_psig_one:
  assumes "plain p" and "u_signal p sig \<noteq> SIG_IGN"
  shows "plain (psig_one sig p)"
proof -
  have "(w AND NOT SOMASK) AND STRC = w AND STRC" "(w AND NOT SOMASK) AND SVFORK = w AND SVFORK" for w
    by (rule and_not_other; simp)+
  with assms psig_one_flag [of sig p] sig_inv_psig_one [of p sig] show ?thesis
    unfolding plain_def by (metis psig_one_simps(7))
qed

lemma psig_one_frame:
  "\<exists>sf sc. ustack (psig_one sig p) = UFrame sf sc # ustack p \<and> sf_signum sf = sig \<and>
     sf_handler sf = action_of (u_signal p) sig \<and> sc_mask sc = p_sigmask (psig_one sig p)"
  unfolding psig_one_def Let_def by (simp add: sendsig_ustack core_def action_of_def)

lemma psig_one_taken:
  assumes "pend p \<noteq> {}" and "sig = Min (pend p)" and "\<not> dropped (u_signal p) sig"
  shows "taken p = ((sig, action_of (u_signal p) sig, sigs (p_sigmask (psig_one sig p))) # fst (taken (psig_one sig p)),
    snd (taken (psig_one sig p)))"
proof (rule taken_next [OF assms])
  have "0 < sig" "sig < NSIG"
    using Min_in [OF pend_finite assms(1)] assms(2) sigs_range by (fastforce simp: pend_def)+
  then show "sigs (p_sig (psig_one sig p)) = sigs (p_sig p) - {sig}"
    and "sigs (p_sigmask (psig_one sig p)) =
      blocked_by (u_signal p) (\<lambda>n. sigs (u_sigmask p n)) sig (sigs (p_sigmask p))"
    by (auto simp: psig_one_mask blocked_by_def sigs_or sigs_andnot sigs_sigmask_range)
qed simp_all

definition delivers :: "'a sigproc_scheme \<Rightarrow> 'a sigproc_scheme \<Rightarrow> bool" where
  "delivers p q \<longleftrightarrow>
     (\<exists>fs. ustack q = fs @ ustack p \<and> (rev (map frame_view fs), sigs (p_sig q), sigs (p_sigmask q)) = taken p)"

lemma psig_taken:
  assumes "plain p" and "pend p \<noteq> {}" and "sig = Min (pend p)" and "\<not> dropped (u_signal p) sig"
  shows "delivers p (psig p sig)"
  using assms
proof (induction p sig rule: psig.induct)
  case (1 p sig)
  let ?p1 = "psig_one sig p"
  from "1.prems"(4) have "u_signal p sig \<noteq> SIG_IGN" by (simp add: dropped_def)
  note plain = plain_psig_one [OF "1.prems"(1) this]
  note taken = psig_one_taken [OF "1.prems"(2-4)]
  obtain sf sc where frame: "ustack ?p1 = UFrame sf sc # ustack p"
    "frame_view (UFrame sf sc) = (sig, action_of (u_signal p) sig, sigs (p_sigmask ?p1))"
    using psig_one_frame [of sig p] by auto
  have step: "delivers p q" if "delivers ?p1 q" for q
    using that frame taken unfolding delivers_def by (cases "taken ?p1") force
  show ?case
  proof (rule CURSIG_taken [OF plain, of True], goal_cases none some)
    case (none m)
    then have "delivers ?p1 (clrsig m ?p1)"
      using taken_none [OF none(3)] unfolding delivers_def by simp
    with none step show ?case by (simp add: psig.simps [of p sig])
  next
    case (some s m)
    with "1.IH" [OF some(1)] plain have "delivers (clrsig m ?p1) (psig (clrsig m ?p1) s)" by simp
    with some have "delivers ?p1 (psig (clrsig m ?p1) s)" by (simp add: delivers_def)
    with some step show ?case by (simp add: psig.simps [of p sig])
  qed
qed

lemma deliver_taken:
  assumes "plain p"
  shows "delivers p (deliver_signals p)"
proof (rule CURSIG_taken [OF assms, of True], goal_cases none some)
  case (none m)
  with taken_none [OF none(3)] show ?case by (simp add: deliver_signals_def delivers_def)
next
  case (some s m)
  with psig_taken [of "clrsig m p" s] assms have "delivers (clrsig m p) (psig (clrsig m p) s)" by simp
  with some show ?case by (simp add: deliver_signals_def delivers_def)
qed

section \<open>Running the handlers\<close>

text \<open>
  \<open>run_handlers n h p\<close>: the handler on top of the stack runs and returns, \<open>n\<close> times.  What a
  handler does to the process is the parameter \<open>h\<close>.
\<close>

fun run_handlers :: "nat \<Rightarrow> (sigframe \<Rightarrow> 'a sigproc_scheme \<Rightarrow> 'a sigproc_scheme) \<Rightarrow> 'a sigproc_scheme \<Rightarrow> 'a sigproc_scheme option" where
  "run_handlers 0 h p = Some p"
| "run_handlers (Suc n) h p =
     (case ustack p of
        UHandler sf # r \<Rightarrow> Option.bind (sig_trampoline_end (h sf p)) (run_handlers n h)
      | _ \<Rightarrow> None)"

fun plain_frame :: "uobj \<Rightarrow> bool" where
  "plain_frame (UFrame sf sc) = (sf_handler sf \<noteq> Stopped_process_handler)"
| "plain_frame x = False"

lemma run_handlers_unwind:
  assumes "\<And>sf p. ustack (h sf p) = ustack p"
    and "ustack p = UHandler sf # fs @ UContext sc # st" and "sf_handler sf \<noteq> Stopped_process_handler"
    and "\<forall>x\<in>set fs. plain_frame x"
  shows "\<exists>r. run_handlers (Suc (length fs)) h p = Some r \<and> ustack r = st \<and>
    p_sigmask r = sc_mask sc \<and> u_onstack r = sc_onstack sc"
  using assms(2-4)
proof (induction fs arbitrary: p sf)
  case Nil
  with assms(1) [of sf p] show ?case
    by (simp add: sig_trampoline_end_def sup_do_sigreturn_def do_sigreturn_def)
next
  case (Cons f fs)
  from Cons.prems(3) obtain sf' sc' where f: "f = UFrame sf' sc'" "sf_handler sf' \<noteq> Stopped_process_handler"
    by (cases f) auto
  let ?q = "(do_sigreturn sc' ((do_sigreturn (sf_sc sf) (h sf p))\<lparr>ustack := f # fs @ UContext sc # st\<rparr>))
              \<lparr>ustack := UHandler sf' # fs @ UContext sc # st\<rparr>"
  have "sig_trampoline_end (h sf p) = Some ?q"
    using Cons.prems(1,2) assms(1) [of sf p] f
    by (simp add: sig_trampoline_end_def sup_do_sigreturn_def)
  moreover from Cons.IH [of ?q sf'] f Cons.prems(3) obtain r where
    "run_handlers (Suc (length fs)) h ?q = Some r \<and> ustack r = st \<and> p_sigmask r = sc_mask sc \<and> u_onstack r = sc_onstack sc"
    by auto
  ultimately show ?case using Cons.prems(1) assms(1) [of sf p] by (simp del: run_handlers.simps(2) add: run_handlers.simps(2) [of _ h p])
qed

lemma take_all_actions: "(s, c, B') \<in> set (fst (take_all d mk P B)) \<Longrightarrow> c = action_of d s"
proof (induction d mk P B rule: take_all.induct)
  case (1 d mk P B)
  let ?s = "Min (P - B)" and ?B = "blocked_by d mk (Min (P - B)) B"
  show ?case
  proof (cases "finite P \<and> P - B \<noteq> {}")
    case False
    with "1.prems" take_all_end [OF False, of d mk] show ?thesis by simp
  next
    case c: True
    show ?thesis
    proof (cases "dropped d ?s")
      case True
      with take_all_drop [OF c True] "1.prems" "1.IH"(1) [OF c refl True] show ?thesis by simp
    next
      case False
      with take_all_take [OF c False] "1.prems"
      consider "(s, c, B') = (?s, action_of d ?s, ?B)" | "(s, c, B') \<in> set (fst (take_all d mk (P - {?s}) ?B))"
        by auto
      then show ?thesis using "1.IH"(2) [OF c refl False refl] by cases auto
    qed
  qed
qed

lemma delivered_plain:
  assumes "delivers p q" and "grows p q" and "ustack q = fs @ ustack p" and "x \<in> set fs"
  shows "plain_frame x"
proof -
  from assms(1,3) have fs: "rev (map frame_view fs) = fst (taken p)"
    by (auto simp: delivers_def dest: arg_cong [where f = fst])
  from assms(2,3) have "\<forall>y\<in>set fs. is_frame y" by (auto simp: grows_def frames_on_def)
  with assms(4) obtain sf sc where x: "x = UFrame sf sc" by (cases x rule: uobj.exhaust) auto
  have "frame_view x \<in> set (fst (taken p))" using assms(4) by (simp flip: fs)
  with x take_all_actions have "sf_handler sf = action_of (u_signal p) (sf_signum sf)"
    unfolding taken_def by force
  with x show ?thesis by (simp add: action_of_def)
qed

lemma push_context_plain: "sig_ok p \<Longrightarrow> plain p \<Longrightarrow> plain (push_context p)"
  using push_context_ok(1) [of p] by (simp add: plain_def push_context_def)

lemma launch_unwinds:
  assumes "sig_ok p" and "plain p" and "launch p = Some q" and "\<And>sf p. ustack (h sf p) = ustack p"
  shows "\<exists>r. run_handlers (length (fst (taken p))) h q = Some r \<and> ustack r = ustack p \<and>
    p_sigmask r = p_sigmask p \<and> u_onstack r = u_onstack p"
proof -
  let ?c = "\<lparr>sc_onstack = u_onstack p, sc_mask = p_sigmask p\<rparr>"
  let ?p1 = "push_context p" and ?d = "deliver_signals (push_context p)"
  have st: "ustack ?p1 = UContext ?c # ustack p" by (simp add: push_context_def)
  have tk: "taken ?p1 = taken p" by (simp add: taken_def push_context_def)
  note del = deliver_taken [OF push_context_plain [OF assms(1,2)]] and gr = deliver_grows [of ?p1]
  then obtain fs where fs: "ustack ?d = fs @ UContext ?c # ustack p" "rev (map frame_view fs) = fst (taken p)"
    unfolding delivers_def st tk by (metis fst_conv)
  then have len: "length (fst (taken p)) = length fs" by (metis length_map length_rev)
  show ?thesis
  proof (cases fs)
    case Nil
    obtain m where m: "?d = clrsig m ?p1"
    proof (rule CURSIG_taken [OF push_context_plain [OF assms(1,2)], of True], goal_cases none some)
      case (none m)
      then show ?case by (auto intro: none(1) simp: deliver_signals_def)
    next
      case (some s m)
      with taken_next [of "clrsig m ?p1" s "psig_one s (clrsig m ?p1)"] psig_one_taken [of "clrsig m ?p1" s] tk len Nil
      show ?case by simp
    qed
    with assms(3) fs Nil len show ?thesis
      by (auto simp: launch_def leave_launch_def push_context_def)
  next
    case (Cons f gs)
    from delivered_plain [OF del gr] fs(1) st have plain: "\<forall>x\<in>set fs. plain_frame x" by simp
    with Cons obtain sf sc where f: "f = UFrame sf sc" "sf_handler sf \<noteq> Stopped_process_handler" by (cases f) auto
    let ?q = "(do_sigreturn sc ?d)\<lparr>ustack := UHandler sf # gs @ UContext ?c # ustack p\<rparr>"
    from assms(3) fs Cons f have "q = ?q"
      by (simp add: launch_def leave_launch_def sup_do_sigreturn_def)
    with run_handlers_unwind [OF assms(4), of q sf gs ?c "ustack p"] f plain Cons len show ?thesis by simp
  qed
qed

section \<open>Theorems\<close>


text \<open>
  C8. Before a process that is neither traced nor a vfork child is dispatched, the frames pushed
  on its stack are exactly those of the specification on sets: the deliverable signals, lowest
  number first, each with its action and with the signals blocked while it runs; what stays
  pending and blocked is as specified.
\<close>

theorem deliver_refines:
  assumes "sig_inv p" and "\<not> traced p" and "\<not> vforked p" and "u_mask_state p = 0"
  shows "\<exists>fs. ustack (deliver_signals p) = fs @ ustack p \<and>
    (rev (map frame_view fs), sigs (p_sig (deliver_signals p)), sigs (p_sigmask (deliver_signals p))) = taken p"
proof -
  from assms have "plain p" by (simp add: plain_def)
  from deliver_taken [OF this] show ?thesis unfolding delivers_def .
qed

definition demo_proc :: sigproc where
  "demo_proc = (setsigvec SIGINT \<lparr>sa_handler = 0x1000, sa_mask = sigmask 15, sa_flags = 0\<rparr> proc0)
     \<lparr>p_sig := sigmask SIGINT OR sigmask 15 OR sigmask SIGCHLD\<rparr>"

lemma demo_simps:
  "u_signal demo_proc = (\<lambda>n. 0)(2 := 0x1000)" "sigs (p_sig demo_proc) = {2, 15, 20}" "sigs (p_sigmask demo_proc) = {}"
  "u_sigmask demo_proc = (\<lambda>n. 0)(2 := sigmask 15 AND NOT sigcantmask)" "p_flag demo_proc = 0" "u_mask_state demo_proc = 0"
  "ustack demo_proc = []" "p_sigmask demo_proc = 0" "u_onstack demo_proc = False"
  by (auto simp: demo_proc_def setsigvec_def Let_def proc0_def siginit_def sigs_simps sigmask_and_iff sigmask_and_0_iff)

lemma demo_ok: "sig_ok demo_proc"
proof -
  have "sig_inv (setsigvec SIGINT sa proc0)" for sa
    by (rule sig_inv_setsigvec [OF sig_okD [OF proc0_ok]]) simp_all
  then have "sig_inv demo_proc" unfolding demo_proc_def by (rule grows_inv [OF grows_sig(1)])
  then show ?thesis by (simp add: sig_ok_def demo_simps)
qed

lemma demo_taken: "taken demo_proc = ([(2, Catch 0x1000, {2, 15})], {15}, {2, 15})"
proof -
  let ?d = "(\<lambda>n. 0)(2 := 0x1000 :: u32)" and ?mk = "\<lambda>n. sigs (u_sigmask demo_proc n)"
  have mk: "?mk 2 = {15}" by (simp add: demo_simps sigs_simps)
  have "take_all ?d ?mk {15, 20} {2, 15} = ([], {15}, {2, 15})"
    using take_all_drop [of "{15, 20}" "{2, 15}" ?d ?mk] take_all_end [of "{15}" "{2, 15}" ?d ?mk]
    by (simp add: dropped_def sigs_simps insert_Diff_if)
  with take_all_take [of "{2, 15, 20}" "{}" ?d ?mk] mk show ?thesis
    by (simp add: taken_def demo_simps dropped_def action_of_def blocked_by_def sigs_0 insert_Diff_if insert_commute)
qed

theorem deliver_refines_witness:
  "\<exists>fs. ustack (deliver_signals demo_proc) = fs \<and> rev (map frame_view fs) = [(2, Catch 0x1000, {2, 15})]"
  using deliver_refines [of demo_proc] sig_okD [OF demo_ok] by (auto simp: demo_simps demo_taken)

text \<open>
  C17. Once the handlers delivered in one launch have run and returned, in any order of effects
  that leaves the user stack as they found it, the process is back where it was interrupted:
  with its former stack, its former signal mask and off the signal stack if it was off it.
\<close>

theorem handlers_return:
  assumes "sig_ok p" and "\<not> traced p" and "\<not> vforked p" and "u_mask_state p = 0"
    and "\<And>sf q. ustack (h sf q) = ustack q"
  shows "\<exists>q r. launch p = Some q \<and> run_handlers (length (fst (taken p))) h q = Some r \<and>
    ustack r = ustack p \<and> p_sigmask r = p_sigmask p \<and> u_onstack r = u_onstack p"
proof -
  from assms sig_okD [OF assms(1)] have "plain p" by (simp add: plain_def)
  moreover from launch_ok [OF assms(1)] obtain q where "launch p = Some q" by blast
  ultimately show ?thesis using launch_unwinds [of p q h] assms(1,5) by blast
qed

theorem handlers_return_witness:
  "\<exists>q r. launch demo_proc = Some q \<and>
     run_handlers 1 (\<lambda>sf p. p\<lparr>p_sigmask := NOT 0\<rparr>) q = Some r \<and> ustack r = [] \<and> p_sigmask r = 0"
  using handlers_return [of demo_proc "\<lambda>sf p. p\<lparr>p_sigmask := NOT 0\<rparr>"] demo_ok
  by (auto simp: demo_simps demo_taken simp del: run_handlers.simps)

text \<open>
  A disposition set by \<open>sigaction\<close> is reported by the next \<open>sigaction\<close>: the handler, the
  mask without the signals that cannot be blocked, and the restart and stack flags.
\<close>

theorem sigaction_roundtrip:
  assumes "\<not> bad_signal n"
  shows "\<exists>old p' sa'. sigaction n (Some sa) p = (0, old, p') \<and> sigaction n None p' = (0, Some sa', p') \<and>
    sa_handler sa' = sa_handler sa \<and> sigs (sa_mask sa') = sigs (sa_mask sa) - unblockable \<and>
    (sa_flags sa' AND SA_RESTART = 0 \<longleftrightarrow> sa_flags sa AND SA_RESTART = 0) \<and>
    (sa_flags sa' AND SA_ONSTACK = 0 \<longleftrightarrow> sa_flags sa AND SA_ONSTACK = 0)"
proof -
  let ?s = "nat n" and ?q = "setsigvec (nat n) sa p"
  have r: "0 < ?s" "?s < NSIG" using assms by (auto simp: bad_signal_def)
  have q: "u_signal ?q ?s = sa_handler sa" "sigs (u_sigmask ?q ?s) = sigs (sa_mask sa) - unblockable"
    by (simp_all add: setsigvec_def Let_def sigs_simps)
  have sets: "sigs (u_sigonstack ?q) = (if sa_flags sa AND SA_ONSTACK = 0 then sigs (u_sigonstack p) - {?s} else insert ?s (sigs (u_sigonstack p)))"
    "sigs (u_sigintr ?q) = (if sa_flags sa AND SA_RESTART = 0 then insert ?s (sigs (u_sigintr p)) else sigs (u_sigintr p) - {?s})"
    by (simp_all add: setsigvec_def Let_def sigs_or sigs_andnot sigs_sigmask_range [OF r])
  then have on: "u_sigonstack ?q AND sigmask ?s = 0 \<longleftrightarrow> sa_flags sa AND SA_ONSTACK = 0"
    and res: "u_sigintr ?q AND sigmask ?s = 0 \<longleftrightarrow> sa_flags sa AND SA_RESTART \<noteq> 0"
    by (simp_all only: and_sigmask_0_iff [OF r] sets) auto
  have fl: "((if x then 1 else 0) OR (if y then 2 else 0) OR (if z then 8 else 0)) AND SA_RESTART = 0 \<longleftrightarrow> \<not> y"
    "((if x then 1 else 0) OR (if y then 2 else 0) OR (if z then 8 else 0)) AND SA_ONSTACK = 0 \<longleftrightarrow> \<not> x" for x y z
    by (cases x; cases y; cases z; simp)+
  show ?thesis using assms q by (simp add: sigaction_def Let_def on res fl)
qed

theorem sigaction_roundtrip_witness:
  "\<exists>old p' sa'. sigaction 20 (Some \<lparr>sa_handler = 0x1000, sa_mask = NOT 0, sa_flags = 3\<rparr>) proc0 = (0, old, p') \<and>
     sigaction 20 None p' = (0, Some sa', p') \<and> sa_handler sa' = 0x1000 \<and> sa_flags sa' AND SA_RESTART \<noteq> 0"
  using sigaction_roundtrip [of 20 "\<lparr>sa_handler = 0x1000, sa_mask = NOT 0, sa_flags = 3\<rparr>" proc0]
  by (auto simp: bad_signal_def)

text \<open>
  The handler of a trap signal that is delivered directly runs with the mask of the
  interrupted code: neither its own signal nor the mask given to \<open>sigaction\<close> is blocked,
  because the context that enters the handler is pushed before the mask is changed.
\<close>

theorem trap_handler_not_blocked:
  assumes "\<not> traced p" and "0 < n" and "n < NSIG" and "n \<in> sigs (p_sigcatch p)" and "n \<notin> sigs (p_sigmask p)"
    and "p_sig p = 0"
  shows "\<exists>q sf r. trap_entry n code a p = Some q \<and> ustack q = UHandler sf # r \<and>
    sf_handler sf = Catch (u_signal p n) \<and> p_sigmask q = p_sigmask p \<and> n \<notin> sigs (p_sigmask q)"
proof -
  let ?p0 = "push_context p"
  let ?p1 = "snd (trapsignal n code a ?p0)"
  have trap: "?p1 = (sendsig (Catch (u_signal p n)) n (p_sigmask p) code a (?p0\<lparr>u_nsignals := u_nsignals ?p0 + 1\<rparr>))
      \<lparr>p_sigmask := p_sigmask p OR u_sigmask p n OR sigmask n\<rparr>"
    using assms by (simp add: trapsignal_def Let_def push_context_def and_sigmask_0_iff)
  then have "p_sig ?p1 = 0" using assms(6) by (simp add: push_context_def)
  then have "deliver_signals ?p1 = ?p1" by (simp add: deliver_signals_def CURSIG_def)
  moreover obtain sf sc where "ustack ?p1 = UFrame sf sc # ustack ?p0" "sf_handler sf = Catch (u_signal p n)" "sc_mask sc = p_sigmask p"
    unfolding trap by (simp add: sendsig_ustack push_context_def)
  ultimately show ?thesis using assms(5)
    by (simp add: trap_entry_def leave_launch_def sup_do_sigreturn_def do_sigreturn_def push_context_def)
qed

definition demo_fpe :: sigproc where
  "demo_fpe = setsigvec SIGFPE \<lparr>sa_handler = 0x2000, sa_mask = NOT 0, sa_flags = 0\<rparr> proc0"

lemma demo_fpe_simps:
  "p_flag demo_fpe = 0" "sigs (p_sigcatch demo_fpe) = {8}" "p_sigmask demo_fpe = 0" "p_sig demo_fpe = 0"
  "u_signal demo_fpe 8 = 0x2000"
  by (auto simp: demo_fpe_def setsigvec_sets) (auto simp: setsigvec_def Let_def proc0_def siginit_def sigs_0)

theorem trap_handler_not_blocked_witness:
  "\<exists>q sf r. trap_entry SIGFPE 0x14 0 demo_fpe = Some q \<and> ustack q = UHandler sf # r \<and>
     sf_handler sf = Catch 0x2000 \<and> SIGFPE \<notin> sigs (p_sigmask q)"
  using trap_handler_not_blocked [of demo_fpe SIGFPE "0x14" 0] by (auto simp: demo_fpe_simps sigs_0)

text \<open>
  A trap whose signal is ignored is lost when SIGILL is ignored too: the signal is converted
  to SIGILL and SIGILL is taken out of \<open>p_sigignore\<close>, but its disposition stays SIG_IGN, so
  \<open>issig\<close> discards it and the process goes on without a handler and without being terminated.
\<close>

theorem ignored_trap_lost:
  assumes "\<not> traced p" and "n \<in> {SIGILL, SIGBUS, SIGFPE, SIGTRAP, SIGEMT}" and "n \<in> sigs (p_sigignore p)"
    and "n \<notin> sigs (p_sigcatch p)" and "u_signal p SIGILL = SIG_IGN" and "p_sig p = 0" and "u_mask_state p = 0"
    and "\<not> vforked p" and "sig_ok p"
  shows "\<exists>q. trap_entry n code a p = Some q \<and> ustack q = ustack p \<and> p_sig q = 0"
proof -
  let ?p0 = "push_context p"
  let ?p1 = "snd (trapsignal n code a ?p0)"
  have n: "0 < n" "n < NSIG" using assms(2) by auto
  have trap: "?p1 = (reset_sigill (?p0\<lparr>u_code := code\<rparr>))\<lparr>p_sig := sigmask SIGILL\<rparr>"
  proof -
    have "psignal_trap n (?p0\<lparr>u_code := code\<rparr>) = (SIGILL, reset_sigill (?p0\<lparr>u_code := code\<rparr>))"
      using assms(1-3) by (auto simp: psignal_trap_def Let_def reset_sigill_def push_context_def mask_iffs)
    from psignal_post_state [OF this] have "snd (psignal_post n (?p0\<lparr>u_code := code\<rparr>)) =
        (reset_sigill (?p0\<lparr>u_code := code\<rparr>))\<lparr>p_sig := sigmask SIGILL\<rparr>"
      using assms(6) by (simp add: reset_sigill_def post_sig_def push_context_def mask_iffs sigs_simps)
    then show ?thesis using assms(4) n by (simp add: trapsignal_def Let_def push_context_def and_sigmask_0_iff)
  qed
  have "grows ?p0 ?p1" by (rule trapsignal_grows)
  then have inv: "sig_inv ?p1" using push_context_ok(1) [OF assms(9)] by (rule grows_inv)
  have flds: "p_flag ?p1 = p_flag p" "u_mask_state ?p1 = u_mask_state p" "u_signal ?p1 = u_signal p"
    "ustack ?p1 = ustack ?p0" "p_sig ?p1 = sigmask SIGILL" "p_sigmask ?p1 = p_sigmask p AND NOT (sigmask SIGILL)"
    unfolding trap by (simp_all add: reset_sigill_def push_context_def)
  have plain: "plain ?p1" using inv assms(1,7,8) by (simp add: plain_def flds)
  have pend: "pend ?p1 = {4}" by (auto simp: pend_def flds sigs_simps)
  have drop: "dropped (u_signal ?p1) 4" using assms(5) by (simp add: dropped_def flds)
  have "taken (clrsig (sigmask 4) ?p1) = ([], {}, sigs (p_sigmask ?p1))"
    using taken_none [of "clrsig (sigmask 4) ?p1"] pend
    by (simp add: pend_clrsig sigs_andnot sigs_sigmask_range flds sigs_0)
  then have "taken ?p1 = ([], {}, sigs (p_sigmask ?p1))" using taken_drop [of ?p1] pend drop by simp
  with deliver_taken [OF plain] have "ustack (deliver_signals ?p1) = ustack ?p0" "sigs (p_sig (deliver_signals ?p1)) = {}"
    by (auto simp: delivers_def flds)
  then show ?thesis by (simp add: trap_entry_def leave_launch_def push_context_def sigs_empty_iff)
qed

definition demo_ign :: sigproc where
  "demo_ign = setsigvec SIGILL \<lparr>sa_handler = SIG_IGN, sa_mask = 0, sa_flags = 0\<rparr> proc0"

theorem ignored_trap_lost_witness:
  "\<exists>q. trap_entry SIGILL 0x10 0 demo_ign = Some q \<and> ustack q = [] \<and> p_sig q = 0"
proof -
  have ok: "sig_ok demo_ign"
    using sigaction_ok [OF proc0_ok, of 4 "Some \<lparr>sa_handler = SIG_IGN, sa_mask = 0, sa_flags = 0\<rparr>"]
    by (simp add: sigaction_def Let_def bad_signal_def demo_ign_def)
  have "p_flag demo_ign = 0" "ustack demo_ign = []" "p_sig demo_ign = 0" "u_mask_state demo_ign = 0"
    "u_signal demo_ign 4 = 1" "4 \<in> sigs (p_sigignore demo_ign)" "4 \<notin> sigs (p_sigcatch demo_ign)"
    by (simp_all add: demo_ign_def setsigvec_sets) (simp_all add: setsigvec_def Let_def proc0_def siginit_def)
  with ok ignored_trap_lost [of demo_ign SIGILL "0x10" 0] show ?thesis by simp
qed

section \<open>Further observations\<close>

text \<open>\<open>sigismember\<close> tests for the other signals instead of the one asked for.\<close>

lemma sigismember_inverted: "0 < n \<Longrightarrow> n < NSIG \<Longrightarrow> sigismember w n \<longleftrightarrow> sigs w - {n} \<noteq> {}"
  by (simp add: sigismember_def sigs_empty_iff [symmetric] sigs_andnot sigs_sigmask_range)

text \<open>
  \<open>sigreturn\<close> loads a mask without removing the signals that cannot be blocked, so a program
  that calls it with a context of its own blocks SIGKILL.
\<close>

lemma sigreturn_blocks_kill: "SIGKILL \<in> sigs (p_sigmask (do_sigreturn \<lparr>sc_onstack = False, sc_mask = NOT 0\<rparr> p))"
  by (simp add: do_sigreturn_def sigs_def bit_not_iff)

text \<open>
  A handler that calls \<open>sigsuspend\<close> overwrites the mask saved by the \<open>sigsuspend\<close> it
  interrupted: the outer call ends with the mask \<open>b\<close> of the handler.
\<close>

lemma sigsuspend_nested: "u_oldmask (sigsuspend_begin w' ((sigsuspend_begin w p)\<lparr>p_sigmask := b\<rparr>)) = b"
  by (simp add: sigsuspend_begin_def)

end
