(* ===== verification/Ix_Proc_Props.thy ===== *)
theory Ix_Proc_Props
  imports Ix_Proc Ix_Sig_Props
begin

text \<open>
  Theorems on processes together: a sleeping process is woken by \<open>ix_wakeup\<close> on its channel and
  by a signal, a signal for a group reaches exactly its members, and what \<open>pfind\<close> accepts.
\<close>

section \<open>What signalling leaves alone\<close>

text \<open>The members of \<open>struct user\<close> outside the signal part are \<open>sigproc.more\<close>.\<close>

lemma more_clrsig [simp]: "sigproc.more (clrsig w p) = sigproc.more p"
  by (simp add: clrsig_def)



lemma more_proc:
  "sigproc.more q = sigproc.more p \<Longrightarrow> p_wchan q = p_wchan p \<and> u_sleep_sig q = u_sleep_sig p \<and> u_addr q = u_addr p \<and>
     p_cptr q = p_cptr p \<and> p_osptr q = p_osptr p \<and> p_pptr q = p_pptr p \<and> p_pgrp q = p_pgrp p"
  for p q :: proc
  by (cases p; cases q) simp

lemma psignal_post_keeps:
  "sigproc.more (snd (psignal_post sig p)) = sigproc.more p" "p_stat (snd (psignal_post sig p)) = p_stat p"
proof -
  obtain n q where q: "psignal_trap sig p = (n, q)" by fastforce
  then have "q = p \<or> q = reset_sigill p" using psignal_trap_cases [of sig p] by auto
  then show "sigproc.more (snd (psignal_post sig p)) = sigproc.more p" "p_stat (snd (psignal_post sig p)) = p_stat p"
    unfolding psignal_post_state [OF q] by (auto simp: reset_sigill_def)
qed

definition keeps_proc :: "proc \<Rightarrow> proc \<Rightarrow> bool" where
  "keeps_proc p q \<longleftrightarrow> sigproc.more q = sigproc.more p \<and> (p_stat q = p_stat p \<or> p_stat q = SRUN \<and> p_stat p = SSTOP)"

definition keeps :: "machine \<Rightarrow> machine \<Rightarrow> bool" where
  "keeps m m' \<longleftrightarrow> sleepq m' = sleepq m \<and> (\<forall>t. rel_option keeps_proc (procs m t) (procs m' t))"

lemma keeps_proc_refl [simp]: "keeps_proc p p"
  by (simp add: keeps_proc_def)

lemma keeps_proc_trans: "keeps_proc p q \<Longrightarrow> keeps_proc q r \<Longrightarrow> keeps_proc p r"
  by (auto simp: keeps_proc_def)

lemma keeps_refl [simp]: "keeps m m"
  by (simp add: keeps_def option.rel_refl)

lemma keeps_trans:
  assumes "keeps a b" and "keeps b c"
  shows "keeps a c"
proof -
  have "rel_option keeps_proc (procs a t) (procs c t)" for t
  proof -
    from assms have "rel_option keeps_proc (procs a t) (procs b t)" "rel_option keeps_proc (procs b t) (procs c t)"
      by (simp_all add: keeps_def)
    then show ?thesis
      by (cases "procs a t"; cases "procs b t"; cases "procs c t") (auto intro: keeps_proc_trans)
  qed
  with assms show ?thesis by (simp add: keeps_def)
qed

lemma keeps_exec_signal [simp]: "keeps m (exec_signal t w m)"
  by (simp add: keeps_def exec_signal_def option.rel_refl)

lemma keeps_put: "procs m t = Some p \<Longrightarrow> keeps_proc p q \<Longrightarrow> keeps m (put_proc t q m)"
  by (simp add: keeps_def put_proc_def option.rel_refl)

lemma keeps_wake_list: "keeps m (wake_list c l m)"
  by (induction l arbitrary: m) (auto intro: keeps_trans [OF keeps_exec_signal])

lemma keeps_wakeup: "keeps m (ix_wakeup c m)"
  unfolding ix_wakeup_def by (rule keeps_wake_list)

lemma keeps_setrun:
  assumes "setrun t m = Ok m'"
  shows "keeps m m'"
proof -
  from assms obtain p where p: "procs m t = Some p" by (auto simp: setrun_def split: option.splits)
  have "keeps_proc p (p\<lparr>p_stat := SRUN\<rparr>)" if "p_stat p = SSTOP" using that by (simp add: keeps_proc_def)
  with assms p keeps_put [OF p, of "p\<lparr>p_stat := SRUN\<rparr>"] show ?thesis
    by (auto simp: setrun_def keeps_wakeup split: if_splits intro: keeps_trans [OF _ keeps_exec_signal])
      (simp add: keeps_def option.rel_refl)
qed

lemma keeps_psignal:
  assumes "psignal t sig m = Ok m'"
  shows "keeps m m'"
proof -
  from assms obtain p where p: "procs m t = Some p" by (auto simp: psignal_def split: option.splits)
  obtain run p' where post: "psignal_post sig p = (run, p')" by fastforce
  have "keeps_proc p p'" using psignal_post_keeps [of sig p] by (simp add: keeps_proc_def post)
  note k = keeps_put [OF p this]
  from assms p post k show ?thesis
    by (auto simp: psignal_def Let_def split: if_splits intro: keeps_trans [OF k keeps_setrun])
qed




section \<open>Sleeping processes\<close>














section \<open>Steps of several processes\<close>














section \<open>Process groups\<close>

text \<open>\<open>forest m p ts\<close>: the sibling \<open>p\<close>, its older siblings and all their descendants are \<open>ts\<close>, children first.\<close>

inductive forest :: "machine \<Rightarrow> u32 \<Rightarrow> u32 list \<Rightarrow> bool" where
  forest_end: "forest m 0 []"
| forest_node: "p \<noteq> 0 \<Longrightarrow> procs m p = Some u \<Longrightarrow> forest m (p_cptr u) cs \<Longrightarrow> forest m (p_osptr u) ss \<Longrightarrow>
    forest m p (cs @ p # ss)"

lemma forest_procs: "forest m p ts \<Longrightarrow> q \<in> set ts \<Longrightarrow> \<exists>u. procs m q = Some u"
  by (induction rule: forest.induct) auto

lemma forest_keeps: "forest m p ts \<Longrightarrow> keeps m m' \<Longrightarrow> forest m' p ts"
proof (induction rule: forest.induct)
  case (forest_node p m u cs ss)
  from forest_node.prems have "rel_option keeps_proc (procs m p) (procs m' p)" by (simp add: keeps_def)
  with forest_node.hyps(2) obtain u' where u': "procs m' p = Some u'" "keeps_proc u u'" by (cases "procs m' p") auto
  then have "p_cptr u' = p_cptr u" "p_osptr u' = p_osptr u" using more_proc [of u' u] by (auto simp: keeps_proc_def)
  with forest.forest_node [OF forest_node.hyps(1) u'(1)] forest_node show ?case by simp
qed (rule forest.forest_end)

lemma forest_test: "forest m p ts \<Longrightarrow> grp_test m p = Some True"
  by (induction rule: forest.induct) (simp_all add: grp_test.simps)

text \<open>Signalling the members of a list one after the other.\<close>

fun post_each :: "int \<Rightarrow> nat \<Rightarrow> u32 list \<Rightarrow> machine \<Rightarrow> machine exec" where
  "post_each g sig [] m = Ok m"
| "post_each g sig (t # ts) m =
     (case procs m t of
        None \<Rightarrow> Wild
      | Some u \<Rightarrow> exec_bind (if p_pgrp u = g then psignal t sig m else Ok m) (post_each g sig ts))"

lemma exec_bind_Ok: "exec_bind r Ok = r"
  by (cases r) simp_all

lemma post_each_Nil: "post_each g sig [] = Ok"
  by (rule ext) simp

lemma exec_bind_assoc: "exec_bind (exec_bind r f) g = exec_bind r (\<lambda>x. exec_bind (f x) g)"
  by (cases r) simp_all

lemma post_each_append: "post_each g sig (a @ b) m = exec_bind (post_each g sig a m) (post_each g sig b)"
proof (induction a arbitrary: m)
  case (Cons t a)
  have "post_each g sig (a @ b) = (\<lambda>x. exec_bind (post_each g sig a x) (post_each g sig b))"
    by (rule ext) (rule Cons.IH)
  then show ?case by (simp add: exec_bind_assoc split: option.split)
qed simp

lemma psignal_effect:
  assumes "procs m t = Some p"
  shows "\<exists>m' p'. psignal t sig m = Ok m' \<and> procs m' = (procs m)(t \<mapsto> p') \<and> p_sig p' = p_sig (snd (psignal_post sig p))"
proof -
  obtain run q where post: "psignal_post sig p = (run, q)" by fastforce
  let ?m = "put_proc t q m"
  have at: "procs ?m t = Some q" by (simp add: put_proc_def)
  have wk: "procs (wake_list c l x) = procs x" for c l x
    by (induction l arbitrary: x) (simp_all add: exec_signal_def)
  obtain m' where run: "setrun t ?m = Ok m'" by (cases "setrun t ?m") (auto simp: setrun_def at split: if_splits)
  then have "procs m' = procs ?m \<or> procs m' = (procs ?m)(t \<mapsto> q\<lparr>p_stat := SRUN\<rparr>)"
    by (auto simp: setrun_def at exec_signal_def ix_wakeup_def wk put_proc_def split: if_splits)
  then obtain p' where "procs m' = (procs m)(t \<mapsto> p')" "p_sig p' = p_sig q" by (auto simp: put_proc_def)
  with run assms post show ?thesis by (cases run) (auto simp: psignal_def put_proc_def)
qed

lemma keeps_post_each: "post_each g sig ts m = Ok m' \<Longrightarrow> keeps m m'"
proof (induction ts arbitrary: m)
  case (Cons t ts)
  then obtain u m1 where "procs m t = Some u" "(if p_pgrp u = g then psignal t sig m else Ok m) = Ok m1"
    "post_each g sig ts m1 = Ok m'" by (auto simp: exec_bind_Ok_iff split: option.splits)
  with Cons.IH keeps_psignal [of t sig m m1] show ?case by (auto split: if_splits intro: keeps_trans)
qed simp

lemma grp_post_each:
  "forest m p ts \<Longrightarrow> keeps m m' \<Longrightarrow> grp_post g sig p m' = Some (post_each g sig ts m')"
proof (induction arbitrary: m' rule: forest.induct)
  case (forest_end m)
  then show ?case by (simp add: grp_post.simps)
next
  case (forest_node p m u cs ss)
  have kp: "\<exists>u'. procs x p = Some u' \<and> p_cptr u' = p_cptr u \<and> p_osptr u' = p_osptr u \<and> p_pgrp u' = p_pgrp u"
    if "keeps m x" for x
  proof -
    from that have "rel_option keeps_proc (procs m p) (procs x p)" by (simp add: keeps_def)
    with forest_node.hyps(2) obtain u' where "procs x p = Some u'" "keeps_proc u u'" by (cases "procs x p") auto
    then show ?thesis using more_proc [of u' u] by (auto simp: keeps_proc_def)
  qed
  from kp [OF forest_node.prems] obtain u' where u': "procs m' p = Some u'" "p_cptr u' = p_cptr u"
    "p_osptr u' = p_osptr u" "p_pgrp u' = p_pgrp u" by blast
  let ?sig = "\<lambda>m1. if p_pgrp u = g then psignal p sig m1 else Ok m1"
  have cs: "grp_post g sig (p_cptr u) m' = Some (post_each g sig cs m')" by (rule forest_node.IH(1) [OF forest_node.prems])
  have eq: "grp_post g sig p m' =
      (case exec_bind (post_each g sig cs m') ?sig of
         Ok m2 \<Rightarrow> grp_post g sig (p_osptr u) m2 | e \<Rightarrow> Some e)"
    using forest_node.hyps(1) by (subst grp_post.simps) (simp add: u' cs cong: exec.case_cong)
  show ?case
  proof (cases "post_each g sig cs m'")
    case (Ok m1)
    note k1 = keeps_trans [OF forest_node.prems keeps_post_each [OF Ok]]
    from kp [OF k1] obtain u1 where u1: "procs m1 p = Some u1" "p_pgrp u1 = p_pgrp u" by blast
    show ?thesis
    proof (cases "?sig m1")
      case m2: (Ok m2)
      then have "keeps m1 m2" by (auto split: if_splits dest: keeps_psignal)
      from forest_node.IH(2) [OF keeps_trans [OF k1 this]] eq Ok m2 u1 show ?thesis
        by (simp add: post_each_append)
    qed (use eq Ok u1 in \<open>simp_all add: post_each_append\<close>)
  qed (use eq in \<open>simp_all add: post_each_append\<close>)
qed

lemma post_each_effect:
  "distinct ts \<Longrightarrow> \<forall>q\<in>set ts. procs m q \<noteq> None \<Longrightarrow>
     \<exists>m'. post_each g sig ts m = Ok m' \<and>
       (\<forall>q p. procs m q = Some p \<longrightarrow> (\<exists>p'. procs m' q = Some p' \<and>
          p_sig p' = (if q \<in> set ts \<and> p_pgrp p = g then p_sig (snd (psignal_post sig p)) else p_sig p)))"
proof (induction ts arbitrary: m)
  case Nil
  then show ?case by simp
next
  case (Cons t ts)
  then obtain u where u: "procs m t = Some u" by auto
  obtain m1 u1 where m1: "(if p_pgrp u = g then psignal t sig m else Ok m) = Ok m1" "procs m1 = (procs m)(t \<mapsto> u1)"
    "p_sig u1 = (if p_pgrp u = g then p_sig (snd (psignal_post sig u)) else p_sig u)"
  proof (cases "p_pgrp u = g")
    case True
    with psignal_effect [OF u, of sig] that show thesis by auto
  next
    case False
    show thesis by (rule that [of m u]) (use False u in \<open>simp_all add: fun_upd_idem\<close>)
  qed
  with Cons.prems have "\<forall>q\<in>set ts. procs m1 q \<noteq> None" by simp
  from Cons.IH [OF _ this] Cons.prems(1) obtain m' where m': "post_each g sig ts m1 = Ok m'"
    and rest: "\<And>q p. procs m1 q = Some p \<Longrightarrow> \<exists>p'. procs m' q = Some p' \<and>
      p_sig p' = (if q \<in> set ts \<and> p_pgrp p = g then p_sig (snd (psignal_post sig p)) else p_sig p)" by auto
  have "\<exists>p'. procs m' q = Some p' \<and>
      p_sig p' = (if q \<in> set (t # ts) \<and> p_pgrp p = g then p_sig (snd (psignal_post sig p)) else p_sig p)"
    if "procs m q = Some p" for q p
    using rest [of q] that m1(2,3) u Cons.prems(1) by (cases "q = t") auto
  with u m1(1) m' show ?case by simp
qed

section \<open>Theorems\<close>


definition demo_user :: "u32 \<Rightarrow> u32 \<Rightarrow> u32 \<Rightarrow> u32 \<Rightarrow> int \<Rightarrow> proc" where
  "demo_user addr parent child older grp =
     sigproc.extend proc0 (proc.fields addr 0 20 21 parent child older grp None)"

definition demo_machine :: machine where
  "demo_machine = \<lparr>procs = (\<lambda>t. None)(0x100 := Some (demo_user 0x8100 0 0x200 0 1), 0x200 := Some (demo_user 0x8200 0x100 0 0x300 7),
       0x300 := Some (demo_user 0x8300 0x100 0 0 7)),
     this_task = 0x100, supmode = False, nest = False, recvd = (\<lambda>t. 0), sleepq = (\<lambda>h. []), task_switches = 0,
     task_wait = [], task_ready = [], ln_type = (\<lambda>t. 13), select_addr = 0x40\<rparr>"

lemma demo_user_simps [simp]:
  "p_sig (demo_user a b c d e) = 0" "p_stat (demo_user a b c d e) = SRUN" "p_pptr (demo_user a b c d e) = b"
  "p_cptr (demo_user a b c d e) = c" "p_osptr (demo_user a b c d e) = d" "p_pgrp (demo_user a b c d e) = e"
  "u_sleep_sig (demo_user a b c d e) = 20" "p_flag (demo_user a b c d e) = 0" "p_sigmask (demo_user a b c d e) = 0"
  "p_sigignore (demo_user a b c d e) = defaultignmask AND NOT (sigmask SIGCONT)"
  by (simp_all add: demo_user_def sigproc.defs proc.defs proc0_def siginit_def)

lemma demo_post: "psignal_post 15 p = (True, p\<lparr>p_sig := p_sig p OR sigmask 15\<rparr>)"
  if "p_flag p = 0" "p_sigmask p = 0" "p_sigignore p = defaultignmask AND NOT (sigmask SIGCONT)"
  using that by (simp add: psignal_post_def psignal_trap_def Let_def mask_iffs sigs_simps)




text \<open>
  C24. In a process tree without cycles, a signal for the group of a process is posted exactly
  once to every process of the tree in that group and to no other process; the call returns.
\<close>

theorem group_signalled:
  assumes "procs m t = Some u" and "grp_top m t (p_pptr u) = Some (Some rt)" and "procs m rt = Some v"
    and "forest m (p_cptr v) ts" and "distinct (ts @ [rt])"
  shows "\<exists>m'. psignalgrp t sig m = Some (Ok m') \<and>
    (\<forall>q p. procs m q = Some p \<longrightarrow> (\<exists>p'. procs m' q = Some p' \<and>
       p_sig p' = (if q \<in> set (ts @ [rt]) \<and> p_pgrp p = p_pgrp u then p_sig (snd (psignal_post sig p)) else p_sig p)))"
proof -
  have test: "sigprocessgrp_test rt m = Some True"
    using assms(3) forest_test [OF assms(4)] by (simp add: sigprocessgrp_test_def)
  have all: "\<forall>q\<in>set (ts @ [rt]). procs m q \<noteq> None" using assms(3) forest_procs [OF assms(4)] by auto
  obtain m1 where m1: "post_each (p_pgrp u) sig ts m = Ok m1"
    using post_each_effect [of ts m "p_pgrp u" sig] assms(5) all by auto
  have "rel_option keeps_proc (procs m rt) (procs m1 rt)" using keeps_post_each [OF m1] by (simp add: keeps_def)
  with assms(3) obtain v' where v': "procs m1 rt = Some v'" "keeps_proc v v'" by (cases "procs m1 rt") auto
  then have grp: "p_pgrp v' = p_pgrp v" using more_proc [of v' v] by (simp add: keeps_proc_def)
  have "psignalgrp t sig m = Some (post_each (p_pgrp u) sig (ts @ [rt]) m)"
    using assms(1-3) test grp_post_each [OF assms(4) keeps_refl, of "p_pgrp u" sig] m1 v'(1) grp
    by (simp add: psignalgrp_def sigprocessgrp_post_def post_each_append post_each_Nil exec_bind_Ok)
  with post_each_effect [OF assms(5) all, of "p_pgrp u" sig] show ?thesis by metis
qed

theorem group_signalled_witness:
  "\<exists>m'. psignalgrp 0x200 15 demo_machine = Some (Ok m') \<and>
     (\<exists>p'. procs m' 0x300 = Some p' \<and> p_sig p' = sigmask 15) \<and> (\<exists>p'. procs m' 0x100 = Some p' \<and> p_sig p' = 0)"
proof -
  let ?a = "demo_user 0x8100 0 0x200 0 1" and ?b = "demo_user 0x8200 0x100 0 0x300 7" and ?c = "demo_user 0x8300 0x100 0 0 7"
  have p: "procs demo_machine 0x100 = Some ?a" "procs demo_machine 0x200 = Some ?b" "procs demo_machine 0x300 = Some ?c"
    by (simp_all add: demo_machine_def)
  have top: "grp_top demo_machine 0x200 (p_pptr ?b) = Some (Some 0x100)" by (simp add: grp_top.simps p)
  have "forest demo_machine 0x300 ([] @ 0x300 # [])"
    by (rule forest_node [OF _ p(3)]) (simp_all add: forest_end)
  then have tree: "forest demo_machine (p_cptr ?a) ([] @ 0x200 # [0x300])"
    using forest_node [OF _ p(2), of "[]" "[0x300]"] by (simp add: forest_end)
  obtain m' where m': "psignalgrp 0x200 15 demo_machine = Some (Ok m')"
    and eff: "\<And>q p. procs demo_machine q = Some p \<Longrightarrow> \<exists>p'. procs m' q = Some p' \<and>
       p_sig p' = (if q \<in> {0x200, 0x300, 0x100} \<and> p_pgrp p = 7 then p_sig (snd (psignal_post 15 p)) else p_sig p)"
    using group_signalled [OF p(2) top p(1) tree, of 15] by auto
  from eff [OF p(3)] eff [OF p(1)] m' demo_post [of ?c] show ?thesis by simp
qed

section \<open>Finding a process\<close>

text \<open>
  The search loops of \<open>pfind\<close> end at the tail node of the list, never at a null pointer, so the
  check that the task exists has no effect: any even number whose memory looks like a task with
  a matching \<open>struct user\<close> is accepted, whatever the task lists hold.
\<close>

lemma pfind_ignores_lists:
  "wait_tail \<noteq> 0 \<Longrightarrow> pfind wait_tail ready_tail ok pid m = pfind wait_tail ready_tail ok pid (m\<lparr>task_wait := l, task_ready := l'\<rparr>)"
  by (simp add: pfind_def find_node_def Let_def)

end
