(* ===== verification/Ix_Buddy.thy ===== *)
theory Ix_Buddy
  imports Ix_Lists
begin

text \<open>
  The memory allocator inside the library: the buddy system of \<open>library/buddy-alloc.c\<close> and
  \<open>kmalloc\<close>, \<open>krealloc\<close>, \<open>kfree\<close> of \<open>library/kmalloc.c\<close>.  An address is a number; the header
  \<open>struct free_block\<close> of the block at an address is kept in three functions; a free list is
  the list of its blocks, as the operations of \<open>Ix_Lists\<close> implement it.  What \<open>AllocMem\<close> of
  exec.library returns is an argument, the memory obtained from it is recorded in \<open>exec_owned\<close>.
  The links and the index of a header lie in the memory the user of a block gets, so the code reads
  them only while the block is free; \<open>exec_block\<close> is kept shifted by two bits, which loses nothing as
  \<open>AllocMem\<close> returns long word addresses.
\<close>

abbreviation (input) MINLOG2 :: nat where "MINLOG2 \<equiv> 4"
abbreviation (input) MINSIZE :: int where "MINSIZE \<equiv> 16"
abbreviation (input) MAXLOG2 :: nat where "MAXLOG2 \<equiv> 16"
abbreviation (input) MAXSIZE :: nat where "MAXSIZE \<equiv> 65536"
abbreviation (input) BUDDY_LIMIT :: int where "BUDDY_LIMIT \<equiv> 2048"
abbreviation (input) NUMPOOLS :: nat where "NUMPOOLS \<equiv> 2"
abbreviation (input) OFFSET_NEXT :: nat where "OFFSET_NEXT \<equiv> 4"
abbreviation (input) TOPINDEX :: nat where "TOPINDEX \<equiv> 12"

record buddy =
  fb_pool :: "addr \<Rightarrow> nat"
  fb_exec_block :: "addr \<Rightarrow> addr"
  fb_index :: "addr \<Rightarrow> nat"
  buckets :: "nat \<Rightarrow> nat \<Rightarrow> addr list"
  exec_owned :: "(addr \<times> nat) list"

definition set_bucket :: "nat \<Rightarrow> nat \<Rightarrow> addr list \<Rightarrow> buddy \<Rightarrow> buddy" where
  "set_bucket pool ind l st = st\<lparr>buckets := (buckets st)(pool := (buckets st pool)(ind := l))\<rparr>"

definition init_buddy :: "buddy \<Rightarrow> buddy" where
  "init_buddy st = st\<lparr>buckets := (\<lambda>l i. if l < NUMPOOLS \<and> i < TOPINDEX then [] else buckets st l i)\<rparr>"

text \<open>\<open>unlink_block\<close> with a null block takes the first of the list; \<open>unlink_this\<close> a given one.\<close>

definition unlink_block :: "nat \<Rightarrow> nat \<Rightarrow> buddy \<Rightarrow> addr option \<times> buddy" where
  "unlink_block free_pool ind st =
     (case buckets st free_pool ind of
        [] \<Rightarrow> (None, st)
      | fb # l \<Rightarrow> (Some fb, (set_bucket free_pool ind l st)\<lparr>fb_pool := (fb_pool st)(fb := free_pool + 1)\<rparr>))"

definition unlink_this :: "nat \<Rightarrow> addr \<Rightarrow> buddy \<Rightarrow> buddy" where
  "unlink_this free_pool fb st =
     (set_bucket free_pool (fb_index st fb) (remove1 fb (buckets st free_pool (fb_index st fb))) st)
       \<lparr>fb_pool := (fb_pool st)(fb := free_pool + 1)\<rparr>"

definition link_block :: "nat \<Rightarrow> nat \<Rightarrow> addr \<Rightarrow> buddy \<Rightarrow> buddy" where
  "link_block free_pool ind fb st =
     (set_bucket free_pool ind (fb # buckets st free_pool ind) st)
       \<lparr>fb_pool := (fb_pool st)(fb := 0), fb_index := (fb_index st)(fb := ind)\<rparr>"

text \<open>The loop of \<open>log2\<close>: a size that is not positive never leaves it.\<close>

partial_function (option) log2_loop :: "int \<Rightarrow> int \<Rightarrow> int \<Rightarrow> int option" where
  "log2_loop sz lower_bound pow =
     (if lower_bound < sz then Some pow else log2_loop sz (lower_bound div 2) (pow - 1))"

definition log2 :: "int \<Rightarrow> int option" where
  "log2 sz = log2_loop sz (2 ^ (MAXLOG2 - 1)) (int MAXLOG2)"

text \<open>The index is at most \<open>MAXLOG2 - MINLOG2\<close>, where the recursion ends.\<close>

function get_block :: "nat \<Rightarrow> nat \<Rightarrow> addr option \<Rightarrow> buddy \<Rightarrow> addr option \<times> buddy" where
  "get_block free_pool index mem st =
     (if TOPINDEX \<le> index
      then case mem of
             None \<Rightarrow> (None, st)
           | Some fb \<Rightarrow>
               (Some fb, st\<lparr>fb_exec_block := (fb_exec_block st)(fb := fb), fb_pool := (fb_pool st)(fb := free_pool + 1),
                            exec_owned := (fb, free_pool) # exec_owned st\<rparr>)
      else case unlink_block free_pool index st of
             (Some fb, st1) \<Rightarrow> (Some fb, st1)
           | (None, st1) \<Rightarrow>
               (case get_block free_pool (index + 1) mem st1 of
                  (None, st2) \<Rightarrow> (None, st2)
                | (Some fb, st2) \<Rightarrow>
                    let b = fb + 2 ^ (index + MINLOG2)
                    in (Some fb, link_block free_pool index b
                          (st2\<lparr>fb_exec_block := (fb_exec_block st2)(b := fb_exec_block st2 fb)\<rparr>))))"
  by pat_completeness auto
termination
  by (relation "measure (\<lambda>(p, i, m, st). TOPINDEX - i)") auto

declare get_block.simps [simp del]

definition buddy_of :: "addr \<Rightarrow> nat \<Rightarrow> addr \<Rightarrow> addr" where
  "buddy_of base index fb = ((fb - base) XOR (2 ^ (index + MINLOG2))) + base"

function free_block :: "nat \<Rightarrow> nat \<Rightarrow> addr \<Rightarrow> buddy \<Rightarrow> buddy" where
  "free_block free_pool index fb st =
     (let b = buddy_of (fb_exec_block st fb) index fb
      in if TOPINDEX \<le> index then st\<lparr>exec_owned := remove1 (fb, free_pool) (exec_owned st)\<rparr>
         else if fb_pool st b \<noteq> 0 \<or> fb_index st b \<noteq> index then link_block free_pool index fb st
         else free_block free_pool (index + 1) (if fb < b then fb else b) (unlink_this free_pool b st))"
  by pat_completeness auto
termination
  by (relation "measure (\<lambda>(p, i, fb, st). TOPINDEX - i)") auto

declare free_block.simps [simp del]

text \<open>
  \<open>b_alloc\<close> and \<open>b_free\<close>: the outer \<open>None\<close> is a call that does not return.  A large request goes
  to Exec and does not change the buddy system.
\<close>

definition bucket_of :: "int \<Rightarrow> nat option" where
  "bucket_of sz = map_option (\<lambda>l. nat l - MINLOG2) (log2 sz)"

definition at_least_min :: "int \<Rightarrow> int" where
  "at_least_min sz = (if sz < MINSIZE then MINSIZE else sz)"

definition b_alloc :: "int \<Rightarrow> nat \<Rightarrow> addr option \<Rightarrow> buddy \<Rightarrow> (addr option \<times> buddy) option" where
  "b_alloc size0 pool mem st =
     (if size0 < 0 then Some (None, st)
      else let size = at_least_min size0
           in if BUDDY_LIMIT - int OFFSET_NEXT \<le> size then Some (mem, st)
              else Option.bind (bucket_of (size + int OFFSET_NEXT)) (\<lambda>bucket.
                     case get_block pool bucket mem st of
                       (None, st1) \<Rightarrow> Some (None, st1)
                     | (Some fb, st1) \<Rightarrow> Some (Some (fb + OFFSET_NEXT), st1)))"

definition b_free :: "addr \<Rightarrow> int \<Rightarrow> buddy \<Rightarrow> buddy option" where
  "b_free mem size0 st =
     (let size = at_least_min size0
      in if BUDDY_LIMIT - int OFFSET_NEXT \<le> size then Some st
         else Option.bind (bucket_of (size + int OFFSET_NEXT)) (\<lambda>bucket.
                let fb = mem - OFFSET_NEXT
                in Some (free_block (fb_pool st fb - 1) bucket fb st)))"

section \<open>kmalloc\<close>

text \<open>
  The size is kept in the long word before the memory handed out (\<open>words\<close>).  Sizes are 32 bits
  wide; the argument of \<open>b_alloc\<close> is signed.
\<close>

record kheap = buddy +
  words :: "addr \<Rightarrow> u32"

definition round4 :: "u32 \<Rightarrow> u32" where
  "round4 sz = (sz + 3) AND NOT 3"

definition with_buddy :: "kheap \<Rightarrow> buddy \<Rightarrow> kheap" where
  "with_buddy h st = buddy.extend st (kheap.fields (words h))"

definition kmalloc :: "u32 \<Rightarrow> addr option \<Rightarrow> kheap \<Rightarrow> (addr option \<times> kheap) option" where
  "kmalloc size0 mem h =
     (let size = round4 size0
      in Option.bind (b_alloc (sint (size + 4)) 1 mem (buddy.truncate h)) (\<lambda>(res, st).
           case res of
             None \<Rightarrow> Some (None, with_buddy h st)
           | Some a \<Rightarrow> Some (Some (a + 4), (with_buddy h st)\<lparr>words := (words h)(a := size)\<rparr>)))"

definition kfree :: "addr option \<Rightarrow> kheap \<Rightarrow> kheap option" where
  "kfree p h =
     (case p of
        None \<Rightarrow> Some h
      | Some a \<Rightarrow>
          map_option (with_buddy h) (b_free (a - 4) (sint (words h (a - 4) + 4)) (buddy.truncate h)))"

text \<open>\<open>krealloc\<close>; \<open>CopyMemQuick\<close> copies as many bytes as the old block has, word by word.\<close>

definition copy_words :: "addr \<Rightarrow> addr \<Rightarrow> nat \<Rightarrow> (addr \<Rightarrow> u32) \<Rightarrow> addr \<Rightarrow> u32" where
  "copy_words src dst n w = (\<lambda>a. if dst \<le> a \<and> a < dst + n then w (src + (a - dst)) else w a)"

definition krealloc :: "addr option \<Rightarrow> u32 \<Rightarrow> addr option \<Rightarrow> kheap \<Rightarrow> (addr option \<times> kheap) option" where
  "krealloc p size0 mem h =
     (case p of
        None \<Rightarrow> kmalloc size0 mem h
      | Some a \<Rightarrow>
          let size = round4 size0; old = words h (a - 4)
          in if size \<le> old then Some (Some a, h)
             else Option.bind (b_alloc (sint (size + 4)) 1 mem (buddy.truncate h)) (\<lambda>(res, st).
                    case res of
                      None \<Rightarrow> Some (None, with_buddy h st)
                    | Some b \<Rightarrow>
                        let h1 = (with_buddy h st)\<lparr>words := copy_words a (b + 4) (unat old) ((words h)(b := size))\<rparr>
                        in Option.bind (kfree (Some a) h1) (\<lambda>h2. Some (Some (b + 4), h2))))"

end
