(* ===== verification/Ix_Buddy_Inv.thy ===== *)
theory Ix_Buddy_Inv
  imports Ix_Buddy
begin

text \<open>
  The invariant of the buddy system.  \<open>used\<close> records the blocks handed out, by address, with
  their pool and index.  Free and used blocks together tile the chunks obtained from Exec; each
  is aligned within its chunk; no block and its buddy are both free.
\<close>

section \<open>Aligned blocks\<close>

lemma xor_exp_push: "push_bit k m XOR 2 ^ k = push_bit k (m XOR (1::nat))"
  by (rule bit_eqI) (auto simp: bit_simps)

lemma xor_one_nat: "m XOR 1 = (if even m then m + 1 else m - (1::nat))"
  by (simp add: xor_one_eq) (use xor_one_eq [of m] in simp)?

lemma xor_exp_cases:
  fixes x :: nat
  assumes "2 ^ k dvd x"
  shows "x XOR 2 ^ k = x + 2 ^ k \<and> 2 ^ Suc k dvd x \<or> (x XOR 2 ^ k) + 2 ^ k = x \<and> 2 ^ Suc k dvd (x XOR 2 ^ k)"
proof -
  from assms obtain m where m: "x = push_bit k m" by (auto simp: push_bit_eq_mult mult.commute elim: dvdE)
  show ?thesis
  proof (cases "even m")
    case True
    then have one: "m XOR 1 = m + 1" by (simp only: xor_one_nat if_True)
    from True show ?thesis unfolding m xor_exp_push one
      by (intro disjI1) (auto simp: push_bit_eq_mult algebra_simps elim!: evenE)
  next
    case False
    then have one: "m XOR 1 = m - 1" by (simp only: xor_one_nat if_False)
    from False show ?thesis unfolding m xor_exp_push one
      by (intro disjI2) (auto simp: push_bit_eq_mult algebra_simps elim!: oddE)
  qed
qed

lemma xor_exp_div: "(x XOR 2 ^ k) div 2 ^ Suc k = (x :: nat) div 2 ^ Suc k"
proof -
  have "drop_bit (Suc k) (x XOR 2 ^ k) = drop_bit (Suc k) x"
    by (rule bit_eqI) (auto simp: bit_simps)
  then show ?thesis by (simp only: drop_bit_eq_div)
qed

lemma xor_exp_invol: "(x XOR 2 ^ k) XOR 2 ^ k = (x :: nat)"
  by (simp add: xor.assoc)

text \<open>Membership in an aligned block, by its quotient.\<close>

lemma aligned_mem:
  fixes c :: nat
  assumes "2 ^ k dvd c"
  shows "c \<le> x \<and> x < c + 2 ^ k \<longleftrightarrow> x div 2 ^ k = c div 2 ^ k"
proof -
  from assms obtain m where m: "c = m * 2 ^ k" by (auto simp: mult.commute elim: dvdE)
  have "x div 2 ^ k = m \<longleftrightarrow> m * 2 ^ k \<le> x \<and> x < Suc m * 2 ^ k"
    by (metis div_nat_eqI dividend_less_times_div div_times_less_eq_dividend less_2_cases_iff mult.commute mult_Suc zero_less_power)
  then show ?thesis by (simp add: m add.commute)
qed

section \<open>The invariant\<close>

type_synonym used = "addr \<Rightarrow> (nat \<times> nat) option"

definition span :: "addr \<Rightarrow> nat \<Rightarrow> addr set" where
  "span a i = {a..<a + 2 ^ (i + MINLOG2)}"

definition placed :: "addr \<Rightarrow> addr \<Rightarrow> nat \<Rightarrow> bool" where
  "placed base a i \<longleftrightarrow> base \<le> a \<and> 2 ^ (i + MINLOG2) dvd (a - base) \<and> a - base < MAXSIZE"

definition block :: "buddy \<Rightarrow> used \<Rightarrow> addr \<Rightarrow> nat \<Rightarrow> nat \<Rightarrow> bool" where
  "block st u a i p \<longleftrightarrow> a \<in> set (buckets st p i) \<or> u a = Some (p, i)"

definition lists_ok :: "buddy \<Rightarrow> used \<Rightarrow> bool" where
  "lists_ok st u \<longleftrightarrow> (\<forall>p i. distinct (buckets st p i)) \<and>
     (\<forall>p i a. a \<in> set (buckets st p i) \<longrightarrow> i < TOPINDEX \<and> fb_pool st a = 0 \<and> fb_index st a = i \<and> u a = None \<and>
        buddy_of (fb_exec_block st a) i a \<notin> set (buckets st p i))"

definition heads_ok :: "buddy \<Rightarrow> used \<Rightarrow> bool" where
  "heads_ok st u \<longleftrightarrow> (\<forall>a p i. u a = Some (p, i) \<longrightarrow> fb_pool st a = p + 1 \<and> i \<le> TOPINDEX)"

definition place_ok :: "buddy \<Rightarrow> used \<Rightarrow> bool" where
  "place_ok st u \<longleftrightarrow> (\<forall>a i p. block st u a i p \<longrightarrow>
     (fb_exec_block st a, p) \<in> set (exec_owned st) \<and> placed (fb_exec_block st a) a i)"

definition disj_ok :: "buddy \<Rightarrow> used \<Rightarrow> bool" where
  "disj_ok st u \<longleftrightarrow> (\<forall>a i p a' i' p'. block st u a i p \<and> block st u a' i' p' \<and> span a i \<inter> span a' i' \<noteq> {} \<longrightarrow>
     a = a' \<and> i = i' \<and> p = p')"

definition cover_ok :: "buddy \<Rightarrow> used \<Rightarrow> bool" where
  "cover_ok st u \<longleftrightarrow> (\<forall>base p x. (base, p) \<in> set (exec_owned st) \<and> base \<le> x \<and> x < base + MAXSIZE \<longrightarrow>
     (\<exists>a i. block st u a i p \<and> fb_exec_block st a = base \<and> x \<in> span a i))"

definition own_ok :: "buddy \<Rightarrow> bool" where
  "own_ok st \<longleftrightarrow> distinct (exec_owned st) \<and>
     (\<forall>c\<in>set (exec_owned st). \<forall>c'\<in>set (exec_owned st).
        {fst c..<fst c + MAXSIZE} \<inter> {fst c'..<fst c' + MAXSIZE} \<noteq> {} \<longrightarrow> c = c')"

definition binv :: "buddy \<Rightarrow> used \<Rightarrow> bool" where
  "binv st u \<longleftrightarrow> lists_ok st u \<and> heads_ok st u \<and> place_ok st u \<and> disj_ok st u \<and> cover_ok st u \<and> own_ok st"

lemma span_self: "a \<in> span a i"
  by (simp add: span_def)

lemma freeD:
  assumes "binv st u" and "a \<in> set (buckets st p i)"
  shows "i < TOPINDEX" and "fb_pool st a = 0" and "fb_index st a = i" and "u a = None"
    and "buddy_of (fb_exec_block st a) i a \<notin> set (buckets st p i)" and "block st u a i p"
  using assms unfolding binv_def lists_ok_def block_def by blast+

lemma free_distinct: "binv st u \<Longrightarrow> distinct (buckets st p i)"
  by (simp add: binv_def lists_ok_def)

lemma usedD:
  assumes "binv st u" and "u a = Some (p, i)"
  shows "fb_pool st a = p + 1" and "i \<le> TOPINDEX" and "block st u a i p"
  using assms unfolding binv_def heads_ok_def block_def by blast+

lemma blockD:
  assumes "binv st u" and "block st u a i p"
  shows "(fb_exec_block st a, p) \<in> set (exec_owned st)" and "placed (fb_exec_block st a) a i" and "i \<le> TOPINDEX"
proof -
  show "(fb_exec_block st a, p) \<in> set (exec_owned st)" "placed (fb_exec_block st a) a i"
    using assms unfolding binv_def place_ok_def by blast+
  from assms(2) consider "a \<in> set (buckets st p i)" | "u a = Some (p, i)" unfolding block_def by blast
  then show "i \<le> TOPINDEX" using freeD(1) [OF assms(1), of a p i] usedD(2) [OF assms(1), of a p i] by cases auto
qed

lemma disjD:
  assumes "binv st u" and "block st u a i p" and "block st u a' i' p'" and "x \<in> span a i" and "x \<in> span a' i'"
  shows "a = a'" and "i = i'" and "p = p'"
proof -
  from assms(4,5) have "span a i \<inter> span a' i' \<noteq> {}" by blast
  with assms(1-3) show "a = a'" and "i = i'" and "p = p'" unfolding binv_def disj_ok_def by blast+
qed

lemma coverD:
  assumes "binv st u" and "(base, p) \<in> set (exec_owned st)" and "base \<le> x" and "x < base + MAXSIZE"
  obtains a i where "block st u a i p" "fb_exec_block st a = base" "x \<in> span a i"
  using assms unfolding binv_def cover_ok_def by blast

lemma ownD:
  assumes "binv st u" and "c \<in> set (exec_owned st)" and "c' \<in> set (exec_owned st)"
    and "x \<in> {fst c..<fst c + MAXSIZE}" and "x \<in> {fst c'..<fst c' + MAXSIZE}"
  shows "c = c'"
proof -
  from assms(4,5) have "{fst c..<fst c + MAXSIZE} \<inter> {fst c'..<fst c' + MAXSIZE} \<noteq> {}" by blast
  with assms(1-3) show ?thesis unfolding binv_def own_ok_def by blast
qed

text \<open>A block lies in its chunk.\<close>

lemma placed_span:
  assumes "placed base a i" and "i \<le> TOPINDEX" and "x \<in> span a i"
  shows "base \<le> x" and "x < base + MAXSIZE"
proof -
  let ?k = "i + 4"
  from assms(1) have al: "2 ^ ?k dvd (a - base)" and lt: "a - base < 2 ^ 16" and le: "base \<le> a" by (simp_all add: placed_def)
  have "2 ^ ?k dvd (2 :: nat) ^ 16" using assms(2) by (intro le_imp_power_dvd) simp
  with al lt have "a - base + 2 ^ ?k \<le> 2 ^ 16"
    by (auto elim!: dvdE) (metis Suc_leI mult.commute mult_Suc mult_le_mono1 nat_mult_less_cancel1 nat_0_less_mult_iff add.commute)
  with le assms(3) show "base \<le> x" "x < base + MAXSIZE" by (auto simp: span_def)
qed

section \<open>Moving a block between the free lists and its user\<close>

lemma binv_reblock:
  assumes inv: "binv st u" and bl: "\<And>a i p. block st' u' a i p = block st u a i p"
    and ow: "exec_owned st' = exec_owned st" and ex: "fb_exec_block st' = fb_exec_block st"
    and ls: "lists_ok st' u'" and hd: "heads_ok st' u'"
  shows "binv st' u'"
proof -
  have "place_ok st' u' = place_ok st u" "disj_ok st' u' = disj_ok st u" "cover_ok st' u' = cover_ok st u" "own_ok st' = own_ok st"
    unfolding place_ok_def disj_ok_def cover_ok_def own_ok_def bl ow ex by (rule refl)+
  with inv ls hd show ?thesis unfolding binv_def by simp
qed

lemma buckets_set_bucket [simp]: "buckets (set_bucket p i l st) q j = (if q = p \<and> j = i then l else buckets st q j)"
  by (simp add: set_bucket_def)

lemma set_bucket_sel [simp]:
  "fb_pool (set_bucket p i l st) = fb_pool st" "fb_exec_block (set_bucket p i l st) = fb_exec_block st"
  "fb_index (set_bucket p i l st) = fb_index st" "exec_owned (set_bucket p i l st) = exec_owned st"
  by (simp_all add: set_bucket_def)

text \<open>A free block leaves its list for its user.\<close>

definition take_free :: "nat \<Rightarrow> nat \<Rightarrow> addr \<Rightarrow> buddy \<Rightarrow> buddy" where
  "take_free p i fb st = (set_bucket p i (remove1 fb (buckets st p i)) st)\<lparr>fb_pool := (fb_pool st)(fb := p + 1)\<rparr>"

lemma unlink_block_take:
  "unlink_block p i st = (case buckets st p i of [] \<Rightarrow> (None, st) | fb # l \<Rightarrow> (Some fb, take_free p i fb st))"
  by (simp add: unlink_block_def take_free_def split: list.split)

lemma unlink_this_take: "unlink_this p fb st = take_free p (fb_index st fb) fb st"
  by (simp add: unlink_this_def take_free_def)

lemma binv_take:
  assumes inv: "binv st u" and mem: "fb \<in> set (buckets st p i)"
  shows "binv (take_free p i fb st) (u(fb \<mapsto> (p, i)))"
proof (rule binv_reblock [OF inv])
  have only: "q = p \<and> j = i" if "fb \<in> set (buckets st q j)" for q j
    using disjD(2,3) [OF inv freeD(6) [OF inv that] freeD(6) [OF inv mem] span_self span_self] by simp
  have dis: "distinct (buckets st q j)" for q j by (rule free_distinct [OF inv])
  show "block (take_free p i fb st) (u(fb \<mapsto> (p, i))) a j q = block st u a j q" for a j q
  proof (cases "a = fb")
    case True
    have "fb \<in> set (buckets st q j) \<longleftrightarrow> q = p \<and> j = i" using only [of q j] mem by metis
    with True freeD(4) [OF inv mem] show ?thesis by (simp add: block_def take_free_def dis eq_commute)
  next
    case False
    then show ?thesis by (simp add: block_def take_free_def dis)
  qed
  show "exec_owned (take_free p i fb st) = exec_owned st" "fb_exec_block (take_free p i fb st) = fb_exec_block st"
    by (simp_all add: take_free_def)
  show "lists_ok (take_free p i fb st) (u(fb \<mapsto> (p, i)))"
    unfolding lists_ok_def
  proof (intro conjI allI impI)
    fix q j a assume "a \<in> set (buckets (take_free p i fb st) q j)"
    then have m: "a \<in> set (buckets st q j)" and ne: "a \<noteq> fb"
      using only [of q j] by (auto simp: take_free_def dis split: if_splits)
    show "j < TOPINDEX" "fb_index (take_free p i fb st) a = j"
      using freeD [OF inv m] by (simp_all add: take_free_def)
    show "fb_pool (take_free p i fb st) a = 0" "(u(fb \<mapsto> (p, i))) a = None"
      using freeD [OF inv m] ne by (simp_all add: take_free_def)
    show "buddy_of (fb_exec_block (take_free p i fb st) a) j a \<notin> set (buckets (take_free p i fb st) q j)"
      using freeD(5) [OF inv m] by (auto simp: take_free_def dis)
  qed (simp add: take_free_def dis)
  show "heads_ok (take_free p i fb st) (u(fb \<mapsto> (p, i)))"
    using freeD(1) [OF inv mem] usedD(1,2) [OF inv] by (auto simp: heads_ok_def take_free_def)
qed

text \<open>The converse: a block whose buddy is not free is put on its list.\<close>

lemma binv_link:
  assumes inv: "binv st u" and us: "u fb = Some (p, i)" and i: "i < TOPINDEX"
    and bud: "buddy_of (fb_exec_block st fb) i fb \<notin> set (buckets st p i)"
    and bud': "\<And>a. a \<in> set (buckets st p i) \<Longrightarrow> buddy_of (fb_exec_block st a) i a \<noteq> fb"
    and self: "buddy_of (fb_exec_block st fb) i fb \<noteq> fb"
  shows "binv (link_block p i fb st) (u(fb := None))"
proof (rule binv_reblock [OF inv])
  have fresh: "fb \<notin> set (buckets st q j)" for q j using freeD(4) [OF inv, of fb q j] us by auto
  have dis: "distinct (buckets st q j)" for q j by (rule free_distinct [OF inv])
  show "block (link_block p i fb st) (u(fb := None)) a j q = block st u a j q" for a j q
    using us by (auto simp: block_def link_block_def)
  show "exec_owned (link_block p i fb st) = exec_owned st" "fb_exec_block (link_block p i fb st) = fb_exec_block st"
    by (simp_all add: link_block_def)
  show "lists_ok (link_block p i fb st) (u(fb := None))"
    unfolding lists_ok_def
  proof (intro conjI allI impI)
    fix q j a assume m: "a \<in> set (buckets (link_block p i fb st) q j)"
    then consider "a = fb" "q = p" "j = i" | "a \<noteq> fb" "a \<in> set (buckets st q j)"
      using fresh by (auto simp: link_block_def split: if_splits)
    note cas = this
    show "j < TOPINDEX" using cas by cases (use i freeD(1) [OF inv] in auto)
    show "fb_pool (link_block p i fb st) a = 0" using cas by cases (use freeD(2) [OF inv] in \<open>auto simp: link_block_def\<close>)
    show "fb_index (link_block p i fb st) a = j" using cas by cases (use freeD(3) [OF inv] in \<open>auto simp: link_block_def\<close>)
    show "(u(fb := None)) a = None" using cas by cases (use freeD(4) [OF inv] in \<open>auto simp: link_block_def\<close>)
    show "buddy_of (fb_exec_block (link_block p i fb st) a) j a \<notin> set (buckets (link_block p i fb st) q j)"
      using cas by cases (use bud self bud' freeD(5) [OF inv] in \<open>auto simp: link_block_def\<close>)
  qed (simp add: link_block_def dis fresh)
  show "heads_ok (link_block p i fb st) (u(fb := None))"
    using usedD(1,2) [OF inv] by (auto simp: heads_ok_def link_block_def)
qed

section \<open>Splitting and joining blocks\<close>

lemma span_Suc: "span a (Suc i) = span a i \<union> span (a + 2 ^ (i + MINLOG2)) i"
  by (auto simp: span_def power_add)

lemma span_halves: "span a i \<inter> span (a + 2 ^ (i + MINLOG2)) i = {}"
  by (auto simp: span_def)

lemma placed_halves:
  assumes "placed base a (Suc i)" and "i < TOPINDEX"
  shows "placed base a i" and "placed base (a + 2 ^ (i + MINLOG2)) i"
proof -
  let ?k = "i + 4"
  from assms have al: "2 * 2 ^ ?k dvd a - base" and le: "base \<le> a" by (simp_all add: placed_def power_add)
  from al have d: "2 ^ ?k dvd a - base" by (rule dvd_mult_right)
  have sh: "a + 2 ^ ?k - base = (a - base) + 2 ^ ?k" using le by simp
  from d have d': "2 ^ ?k dvd a + 2 ^ ?k - base" unfolding sh by (rule dvd_add) (rule dvd_refl)
  have mem: "a + 2 ^ ?k \<in> span a (Suc i)" by (simp add: span_def power_add)
  have lt: "a + 2 ^ ?k < base + MAXSIZE" by (rule placed_span(2) [OF assms(1) _ mem]) (use assms(2) in simp)
  have le': "base \<le> a + 2 ^ ?k" using le by (rule trans_le_add1)
  have "a - base < MAXSIZE" "a + 2 ^ ?k - base < MAXSIZE" using lt le by linarith+
  with d d' le le' show "placed base a i" "placed base (a + 2 ^ (i + MINLOG2)) i" unfolding placed_def by blast+
qed

lemma block_unique:
  assumes "binv st u" and "block st u a i p" and "block st u a j q"
  shows "j = i" and "q = p"
  using disjD(2,3) [OF assms span_self span_self] by simp_all

text \<open>
  Both directions replace one block by its two halves, or the halves by the block; what is asked
  of the state is stated for a relation \<open>B\<close> between addresses, indices and pools.
\<close>

definition tiles :: "(addr \<Rightarrow> nat \<Rightarrow> nat \<Rightarrow> bool) \<Rightarrow> (addr \<Rightarrow> addr) \<Rightarrow> (addr \<times> nat) list \<Rightarrow> bool" where
  "tiles B ex ow \<longleftrightarrow>
     (\<forall>a i p. B a i p \<longrightarrow> (ex a, p) \<in> set ow \<and> placed (ex a) a i) \<and>
     (\<forall>a i p a' i' p'. B a i p \<and> B a' i' p' \<and> span a i \<inter> span a' i' \<noteq> {} \<longrightarrow> a = a' \<and> i = i' \<and> p = p') \<and>
     (\<forall>base p x. (base, p) \<in> set ow \<and> base \<le> x \<and> x < base + MAXSIZE \<longrightarrow> (\<exists>a i. B a i p \<and> ex a = base \<and> x \<in> span a i))"

lemma binv_tiles:
  "binv st u \<longleftrightarrow> lists_ok st u \<and> heads_ok st u \<and> tiles (block st u) (fb_exec_block st) (exec_owned st) \<and> own_ok st"
  unfolding binv_def tiles_def place_ok_def disj_ok_def cover_ok_def by blast

definition halved :: "(addr \<Rightarrow> nat \<Rightarrow> nat \<Rightarrow> bool) \<Rightarrow> addr \<Rightarrow> nat \<Rightarrow> nat \<Rightarrow> addr \<Rightarrow> nat \<Rightarrow> nat \<Rightarrow> bool" where
  "halved B m i p a j q \<longleftrightarrow> (a = m \<or> a = m + 2 ^ (i + MINLOG2)) \<and> j = i \<and> q = p \<or> a \<noteq> m \<and> B a j q"

lemma tilesD1:
  assumes "tiles B ex ow" and "B a i p"
  shows "(ex a, p) \<in> set ow" and "placed (ex a) a i"
  using assms unfolding tiles_def by blast+

lemma tilesD2:
  assumes "tiles B ex ow" and "B a i p" and "B a' i' p'" and "span a i \<inter> span a' i' \<noteq> {}"
  shows "a = a' \<and> i = i' \<and> p = p'"
  using assms unfolding tiles_def by blast

lemma tilesD3:
  assumes "tiles B ex ow" and "(base, p) \<in> set ow" and "base \<le> x" and "x < base + MAXSIZE"
  obtains a i where "B a i p" "ex a = base" "x \<in> span a i"
  using assms unfolding tiles_def by blast

lemma half_not_block:
  assumes t: "tiles B ex ow" and m: "B m (Suc i) p"
  shows "\<not> B (m + 2 ^ (i + MINLOG2)) j q"
proof
  let ?b = "m + 2 ^ (i + 4)"
  assume b: "B ?b j q"
  have "?b \<in> span m (Suc i) \<inter> span ?b j" by (simp add: span_def power_add)
  then have "span m (Suc i) \<inter> span ?b j \<noteq> {}" by blast
  from tilesD2 [OF t m b this] show False by simp
qed

lemma halved_cases:
  assumes h: "halved B m i p a j q" and t: "tiles B ex ow" and m: "B m (Suc i) p"
  obtains (half) "a = m \<or> a = m + 2 ^ (i + MINLOG2)" "j = i" "q = p"
    | (other) "a \<noteq> m" "a \<noteq> m + 2 ^ (i + MINLOG2)" "B a j q"
  using h half_not_block [OF t m] unfolding halved_def by blast

lemma halved_within:
  assumes h: "halved B m i p a j q" and t: "tiles B ex ow" and m: "B m (Suc i) p"
  obtains c k where "B c k q" "span a j \<subseteq> span c k" "c = m \<longrightarrow> (a = m \<or> a = m + 2 ^ (i + MINLOG2)) \<and> j = i"
    "c \<noteq> m \<longrightarrow> c = a \<and> k = j"
  using assms
proof (cases rule: halved_cases)
  case half
  with m span_Suc [of m i] show ?thesis by (intro that [of m "Suc i"]) auto
next
  case other
  then show ?thesis by (intro that [of a j]) auto
qed

lemma halved_disj:
  assumes t: "tiles B ex ow" and m: "B m (Suc i) p" and h: "halved B m i p a j q" and h': "halved B m i p a' j' q'"
    and ov: "span a j \<inter> span a' j' \<noteq> {}"
  shows "a = a' \<and> j = j' \<and> q = q'"
proof -
  let ?b = "m + 2 ^ (i + 4)"
  from halved_within [OF h t m] obtain c k where c: "B c k q" "span a j \<subseteq> span c k"
    "c = m \<longrightarrow> (a = m \<or> a = ?b) \<and> j = i" "c \<noteq> m \<longrightarrow> c = a \<and> k = j" .
  from halved_within [OF h' t m] obtain c' k' where c': "B c' k' q'" "span a' j' \<subseteq> span c' k'"
    "c' = m \<longrightarrow> (a' = m \<or> a' = ?b) \<and> j' = i" "c' \<noteq> m \<longrightarrow> c' = a' \<and> k' = j'" .
  from ov c(2) c'(2) have "span c k \<inter> span c' k' \<noteq> {}" by blast
  from tilesD2 [OF t c(1) c'(1) this] have eq: "c = c'" "q = q'" "k = k'" by simp_all
  show ?thesis
  proof (cases "c = m")
    case True
    with c c' eq have "a = m \<or> a = ?b" "a' = m \<or> a' = ?b" "j = i" "j' = i" by simp_all
    with ov eq span_halves [of m i] show ?thesis by (elim disjE) (simp_all add: Int_commute)
  next
    case False
    with c c' eq show ?thesis by simp
  qed
qed

lemma halved_cover:
  assumes t: "tiles B ex ow" and m: "B m (Suc i) p" and c: "(base, q) \<in> set ow" "base \<le> x" "x < base + MAXSIZE"
  shows "\<exists>a j. halved B m i p a j q \<and> (ex(m + 2 ^ (i + MINLOG2) := ex m)) a = base \<and> x \<in> span a j"
proof -
  let ?b = "m + 2 ^ (i + 4)"
  from tilesD3 [OF t c] obtain a j where a: "B a j q" "ex a = base" "x \<in> span a j" .
  show ?thesis
  proof (cases "a = m")
    case True
    have "span a j \<inter> span m (Suc i) \<noteq> {}" using True span_self by blast
    from tilesD2 [OF t a(1) m this] have eq: "j = Suc i" "q = p" by simp_all
    with a(3) True have "x \<in> span m i \<or> x \<in> span ?b i" using span_Suc [of m i] by blast
    then show ?thesis
    proof
      assume "x \<in> span m i"
      with a True eq show ?thesis by (intro exI [of _ m] exI [of _ i]) (simp add: halved_def)
    next
      assume "x \<in> span ?b i"
      with a True eq show ?thesis by (intro exI [of _ ?b] exI [of _ i]) (simp add: halved_def)
    qed
  next
    case False
    with a half_not_block [OF t m] have "a \<noteq> ?b" by blast
    with a False show ?thesis by (intro exI [of _ a] exI [of _ j]) (simp add: halved_def)
  qed
qed

lemma tiles_halve:
  assumes t: "tiles B ex ow" and m: "B m (Suc i) p" and i: "i < TOPINDEX"
  shows "tiles (halved B m i p) (ex(m + 2 ^ (i + MINLOG2) := ex m)) ow"
proof -
  let ?ex = "ex(m + 2 ^ (i + 4) := ex m)"
  have "(?ex a, q) \<in> set ow \<and> placed (?ex a) a j" if h: "halved B m i p a j q" for a j q
    using h t m
  proof (cases rule: halved_cases)
    case half
    with placed_halves [OF tilesD1(2) [OF t m] i] tilesD1(1) [OF t m] show ?thesis by auto
  next
    case other
    with tilesD1 [OF t other(3)] show ?thesis by simp
  qed
  then show ?thesis unfolding tiles_def using halved_disj [OF t m] halved_cover [OF t m] by blast
qed

definition joined :: "(addr \<Rightarrow> nat \<Rightarrow> nat \<Rightarrow> bool) \<Rightarrow> addr \<Rightarrow> nat \<Rightarrow> nat \<Rightarrow> addr \<Rightarrow> nat \<Rightarrow> nat \<Rightarrow> bool" where
  "joined B m i p a j q \<longleftrightarrow> a = m \<and> j = Suc i \<and> q = p \<or> a \<noteq> m \<and> a \<noteq> m + 2 ^ (i + MINLOG2) \<and> B a j q"

lemma joined_disj:
  assumes t: "tiles B ex ow" and m: "B m i p" and b: "B (m + 2 ^ (i + MINLOG2)) i p"
    and h: "joined B m i p a j q" and h': "joined B m i p a' j' q'" and ov: "span a j \<inter> span a' j' \<noteq> {}"
  shows "a = a' \<and> j = j' \<and> q = q'"
proof -
  let ?b = "m + 2 ^ (i + 4)"
  have no: False if "joined B m i p a j q" "span m (Suc i) \<inter> span a j \<noteq> {}" "a \<noteq> m" for a j q
  proof -
    from that have a: "a \<noteq> ?b" "B a j q" by (simp_all add: joined_def)
    from that(2) have "span m i \<inter> span a j \<noteq> {} \<or> span ?b i \<inter> span a j \<noteq> {}" unfolding span_Suc by blast
    with tilesD2 [OF t m a(2)] tilesD2 [OF t b a(2)] that(3) a(1) show False by blast
  qed
  show ?thesis
  proof (cases "a = m \<or> a' = m")
    case True
    with h h' no [OF h] no [OF h'] ov have "a = m" "a' = m" by (auto simp: joined_def Int_commute)
    with h h' show ?thesis by (simp add: joined_def)
  next
    case False
    with h h' have "B a j q" "B a' j' q'" by (simp_all add: joined_def)
    then show ?thesis using ov by (rule tilesD2 [OF t])
  qed
qed

lemma joined_cover:
  assumes t: "tiles B ex ow" and m: "B m i p" and b: "B (m + 2 ^ (i + MINLOG2)) i p" and e: "ex (m + 2 ^ (i + MINLOG2)) = ex m"
    and c: "(base, q) \<in> set ow" "base \<le> x" "x < base + MAXSIZE"
  shows "\<exists>a j. joined B m i p a j q \<and> ex a = base \<and> x \<in> span a j"
proof -
  let ?b = "m + 2 ^ (i + 4)"
  from tilesD3 [OF t c] obtain a j where a: "B a j q" "ex a = base" "x \<in> span a j" .
  show ?thesis
  proof (cases "a = m \<or> a = ?b")
    case True
    have "span a j \<inter> span a i \<noteq> {}" using span_self by blast
    with True tilesD2 [OF t a(1) m] tilesD2 [OF t a(1) b] have "j = i" "q = p" by blast+
    with True a e have "x \<in> span m (Suc i)" "ex m = base" "q = p" unfolding span_Suc by auto
    then show ?thesis by (intro exI [of _ m] exI [of _ "Suc i"]) (simp add: joined_def)
  next
    case False
    with a show ?thesis by (intro exI [of _ a] exI [of _ j]) (simp add: joined_def)
  qed
qed

lemma tiles_join:
  assumes t: "tiles B ex ow" and m: "B m i p" and b: "B (m + 2 ^ (i + MINLOG2)) i p"
    and e: "ex (m + 2 ^ (i + MINLOG2)) = ex m" and al: "2 ^ (Suc i + MINLOG2) dvd m - ex m"
  shows "tiles (joined B m i p) ex ow"
proof -
  have "(ex a, q) \<in> set ow \<and> placed (ex a) a j" if h: "joined B m i p a j q" for a j q
  proof (cases "a = m")
    case True
    with h tilesD1 [OF t m] al show ?thesis by (simp add: joined_def placed_def)
  next
    case False
    with h tilesD1 [OF t] show ?thesis by (auto simp: joined_def)
  qed
  then show ?thesis unfolding tiles_def using joined_disj [OF t m b] joined_cover [OF t m b e] by blast
qed

section \<open>Obtaining and returning a chunk\<close>

abbreviation (input) chunk :: "addr \<Rightarrow> addr set" where "chunk base \<equiv> {base..<base + MAXSIZE}"

definition fresh_chunk :: "addr \<Rightarrow> buddy \<Rightarrow> bool" where
  "fresh_chunk m st \<longleftrightarrow> (\<forall>c\<in>set (exec_owned st). chunk m \<inter> chunk (fst c) = {})"

lemma span_top: "span m TOPINDEX = chunk m"
  by (simp add: span_def)

lemma block_in_chunk:
  assumes "binv st u" and "block st u a i p"
  shows "span a i \<subseteq> chunk (fb_exec_block st a)"
  using placed_span [OF blockD(2,3) [OF assms]] by auto

lemma fresh_not_block:
  assumes inv: "binv st u" and fr: "fresh_chunk m st" and b: "block st u a i p"
  shows "span a i \<inter> chunk m = {}" and "a \<noteq> m"
proof -
  from fr blockD(1) [OF inv b] have "chunk m \<inter> chunk (fb_exec_block st a) = {}" unfolding fresh_chunk_def by fastforce
  with block_in_chunk [OF inv b] show "span a i \<inter> chunk m = {}" by blast
  with span_self [of a i] show "a \<noteq> m" by auto
qed

definition added :: "(addr \<Rightarrow> nat \<Rightarrow> nat \<Rightarrow> bool) \<Rightarrow> addr \<Rightarrow> nat \<Rightarrow> addr \<Rightarrow> nat \<Rightarrow> nat \<Rightarrow> bool" where
  "added B m p a i q \<longleftrightarrow> (if a = m then i = TOPINDEX \<and> q = p else B a i q)"

lemma tiles_add:
  assumes t: "tiles B ex ow" and fr: "\<And>a i q. B a i q \<Longrightarrow> span a i \<inter> chunk m = {} \<and> a \<noteq> m"
  shows "tiles (added B m p) (ex(m := m)) ((m, p) # ow)"
proof -
  have pl: "((ex(m := m)) a, q) \<in> set ((m, p) # ow) \<and> placed ((ex(m := m)) a) a i" if "added B m p a i q" for a i q
  proof (cases "a = m")
    case False
    with that have "B a i q" by (simp add: added_def)
    from tilesD1 [OF t this] False show ?thesis by simp
  qed (use that in \<open>simp add: added_def placed_def\<close>)
  have dj: "a = a' \<and> i = i' \<and> q = q'"
    if h: "added B m p a i q" "added B m p a' i' q'" and ov: "span a i \<inter> span a' i' \<noteq> {}" for a i q a' i' q'
  proof -
    have no: "span m TOPINDEX \<inter> span a i = {}" if "added B m p a i q" "a \<noteq> m" for a i q
      using fr [of a i q] that by (auto simp: added_def span_top Int_commute)
    show ?thesis
    proof (cases "a = m \<or> a' = m")
      case True
      from h have "a = m \<Longrightarrow> i = TOPINDEX" "a' = m \<Longrightarrow> i' = TOPINDEX" by (simp_all add: added_def)
      with True no [OF h(1)] no [OF h(2)] ov have "a = m" "a' = m" by (metis Int_commute)+
      with h show ?thesis by (simp add: added_def)
    next
      case False
      with h have "B a i q" "B a' i' q'" by (simp_all add: added_def)
      then show ?thesis using ov by (rule tilesD2 [OF t])
    qed
  qed
  have cv: "\<exists>a i. added B m p a i q \<and> (ex(m := m)) a = base \<and> x \<in> span a i"
    if c: "(base, q) \<in> set ((m, p) # ow)" and x: "base \<le> x" "x < base + MAXSIZE" for base q x
  proof (cases "(base, q) = (m, p)")
    case True
    with x show ?thesis by (intro exI [of _ m] exI [of _ TOPINDEX]) (simp add: added_def span_top)
  next
    case False
    with c have "(base, q) \<in> set ow" by auto
    from tilesD3 [OF t this x] obtain a i where "B a i q" "ex a = base" "x \<in> span a i" .
    with fr [of a i q] show ?thesis by (intro exI [of _ a] exI [of _ i]) (auto simp: added_def)
  qed
  show ?thesis unfolding tiles_def using pl dj cv by blast
qed

text \<open>The lists do not change when only blocks outside them do.\<close>

lemma lists_ok_outside:
  assumes inv: "binv st u" and bk: "buckets st' = buckets st" and ix: "fb_index st' = fb_index st"
    and same: "\<And>a q i. a \<in> set (buckets st q i) \<Longrightarrow> fb_pool st' a = fb_pool st a \<and> fb_exec_block st' a = fb_exec_block st a \<and> u' a = u a"
  shows "lists_ok st' u'"
  unfolding lists_ok_def bk ix
proof (intro conjI allI impI)
  fix q i a assume m: "a \<in> set (buckets st q i)"
  from freeD [OF inv m] same [OF m] show "i < TOPINDEX" "fb_pool st' a = 0" "fb_index st a = i" "u' a = None"
    "buddy_of (fb_exec_block st' a) i a \<notin> set (buckets st q i)" by simp_all
qed (rule free_distinct [OF inv])

lemma binv_new:
  assumes inv: "binv st u" and fr: "fresh_chunk m st"
  shows "binv (st\<lparr>fb_exec_block := (fb_exec_block st)(m := m), fb_pool := (fb_pool st)(m := p + 1),
                  exec_owned := (m, p) # exec_owned st\<rparr>) (u(m \<mapsto> (p, TOPINDEX)))"
    (is "binv ?st ?u")
proof -
  have nf: "m \<notin> set (buckets st q i)" for q i using fresh_not_block(2) [OF inv fr freeD(6) [OF inv]] by blast
  have bl: "block ?st ?u = added (block st u) m p"
    using nf by (intro ext) (auto simp: block_def added_def)
  have "tiles (added (block st u) m p) ((fb_exec_block st)(m := m)) ((m, p) # exec_owned st)"
    by (rule tiles_add) (use inv fresh_not_block [OF inv fr] in \<open>simp_all add: binv_tiles\<close>)
  then have "tiles (block ?st ?u) (fb_exec_block ?st) (exec_owned ?st)" unfolding bl by simp
  moreover have "lists_ok ?st ?u"
    by (rule lists_ok_outside [OF inv]) (use nf in auto)
  moreover have "heads_ok ?st ?u" using usedD(1,2) [OF inv] by (auto simp: heads_ok_def)
  moreover have "own_ok ?st"
    using inv fr unfolding binv_def own_ok_def fresh_chunk_def by (fastforce simp: Int_commute)
  ultimately show ?thesis unfolding binv_tiles by blast
qed

lemma tiles_drop:
  assumes t: "tiles B ex ow" and m: "B m TOPINDEX p" and e: "ex m = m" and d: "distinct ow"
  shows "tiles (\<lambda>a i q. a \<noteq> m \<and> B a i q) ex (remove1 (m, p) ow)"
proof -
  have eq: "i = TOPINDEX \<and> q = p" if "B m i q" for i q
    using tilesD2 [OF t that m] span_self [of m] by blast
  have pl: "(ex a, q) \<in> set (remove1 (m, p) ow) \<and> placed (ex a) a i" if a: "a \<noteq> m" "B a i q" for a i q
  proof -
    have "ex a \<noteq> m"
    proof
      assume "ex a = m"
      with tilesD1(2) [OF t a(2)] have "a \<in> span a i \<inter> span m TOPINDEX"
        unfolding span_top by (auto simp: placed_def span_self)
      then have "span a i \<inter> span m TOPINDEX \<noteq> {}" by blast
      from tilesD2 [OF t a(2) m this] a(1) show False by simp
    qed
    with tilesD1 [OF t a(2)] d show ?thesis by simp
  qed
  have cv: "\<exists>a i. (a \<noteq> m \<and> B a i q) \<and> ex a = base \<and> x \<in> span a i"
    if c: "(base, q) \<in> set (remove1 (m, p) ow)" and x: "base \<le> x" "x < base + MAXSIZE" for base q x
  proof -
    from c d have c': "(base, q) \<in> set ow" "(base, q) \<noteq> (m, p)" by auto
    from tilesD3 [OF t c'(1) x] obtain a i where a: "B a i q" "ex a = base" "x \<in> span a i" .
    with c'(2) eq e have "a \<noteq> m" by blast
    with a show ?thesis by blast
  qed
  show ?thesis unfolding tiles_def using pl cv tilesD2 [OF t] by blast
qed

lemma binv_release:
  assumes inv: "binv st u" and us: "u m = Some (p, TOPINDEX)"
  shows "binv (st\<lparr>exec_owned := remove1 (m, p) (exec_owned st)\<rparr>) (u(m := None))" (is "binv ?st ?u")
proof -
  have nf: "m \<notin> set (buckets st q i)" for q i using freeD(4) [OF inv, of m q i] us by auto
  have bl: "block ?st ?u = (\<lambda>a i q. a \<noteq> m \<and> block st u a i q)"
    using nf us by (intro ext) (auto simp: block_def)
  have t: "tiles (block st u) (fb_exec_block st) (exec_owned st)" and d: "distinct (exec_owned st)"
    using inv by (simp_all add: binv_tiles own_ok_def)
  have e: "fb_exec_block st m = m"
    using blockD(2) [OF inv usedD(3) [OF inv us]] by (auto simp: placed_def elim!: dvdE)
  from tiles_drop [OF t usedD(3) [OF inv us] e d]
  have "tiles (block ?st ?u) (fb_exec_block ?st) (exec_owned ?st)" unfolding bl by simp
  moreover have "lists_ok ?st ?u" by (rule lists_ok_outside [OF inv]) (use nf in auto)
  moreover have "heads_ok ?st ?u" using usedD(1,2) [OF inv] by (auto simp: heads_ok_def)
  moreover have "own_ok ?st"
    using inv unfolding binv_def own_ok_def by (auto dest: notin_set_remove1)
  ultimately show ?thesis unfolding binv_tiles by blast
qed

lemma binv_split:
  assumes inv: "binv st u" and us: "u m = Some (p, Suc i)" and b: "b = m + 2 ^ (i + MINLOG2)"
  shows "binv (st\<lparr>fb_exec_block := (fb_exec_block st)(b := fb_exec_block st m), fb_pool := (fb_pool st)(b := p + 1)\<rparr>)
              (u(m \<mapsto> (p, i), b \<mapsto> (p, i)))" (is "binv ?st ?u")
proof -
  have t: "tiles (block st u) (fb_exec_block st) (exec_owned st)" using inv by (simp add: binv_tiles)
  note m = usedD(3) [OF inv us]
  have i: "i < TOPINDEX" using usedD(2) [OF inv us] by simp
  have nb: "\<not> block st u b j q" for j q unfolding b by (rule half_not_block [OF t m])
  have nf: "m \<notin> set (buckets st q j)" for q j using freeD(4) [OF inv, of m q j] us by auto
  have nf': "b \<notin> set (buckets st q j)" "u b \<noteq> Some (q, j)" for q j using nb [of j q] by (simp_all add: block_def)
  have bl: "block ?st ?u = halved (block st u) m i p"
    using nf nf' us b by (intro ext) (auto simp: block_def halved_def)
  from tiles_halve [OF t m i] have "tiles (block ?st ?u) (fb_exec_block ?st) (exec_owned ?st)" unfolding bl by (simp add: b)
  moreover have "lists_ok ?st ?u" by (rule lists_ok_outside [OF inv]) (use nf nf' in auto)
  moreover have "heads_ok ?st ?u" using usedD(1,2) [OF inv] us i by (fastforce simp: heads_ok_def)
  moreover have "own_ok ?st" using inv by (simp add: binv_def own_ok_def)
  ultimately show ?thesis unfolding binv_tiles by blast
qed

lemma binv_join:
  assumes inv: "binv st u" and us: "u m = Some (p, i)" and b: "b = m + 2 ^ (i + MINLOG2)" and ub: "u b = Some (p, i)"
    and e: "fb_exec_block st b = fb_exec_block st m" and i: "i < TOPINDEX"
    and al: "2 ^ (Suc i + MINLOG2) dvd m - fb_exec_block st m"
  shows "binv st (u(b := None, m \<mapsto> (p, Suc i)))" (is "binv st ?u")
proof -
  have t: "tiles (block st u) (fb_exec_block st) (exec_owned st)" using inv by (simp add: binv_tiles)
  note m = usedD(3) [OF inv us] and b' = usedD(3) [OF inv ub]
  have nf: "m \<notin> set (buckets st q j)" for q j using freeD(4) [OF inv, of m q j] us by auto
  have nf': "b \<notin> set (buckets st q j)" for q j using freeD(4) [OF inv, of b q j] ub by auto
  have bl: "block st ?u = joined (block st u) m i p"
    using nf nf' b by (intro ext) (auto simp: block_def joined_def)
  have "tiles (joined (block st u) m i p) (fb_exec_block st) (exec_owned st)"
    by (rule tiles_join [OF t m _ _ al]) (use b' e in \<open>simp_all add: b\<close>)
  then have "tiles (block st ?u) (fb_exec_block st) (exec_owned st)" unfolding bl .
  moreover have "lists_ok st ?u" by (rule lists_ok_outside [OF inv]) (use nf nf' in auto)
  moreover have "heads_ok st ?u" using usedD(1,2) [OF inv] us i by (auto simp: heads_ok_def)
  moreover have "own_ok st" using inv by (simp add: binv_def)
  ultimately show ?thesis unfolding binv_tiles by blast
qed

end
