(* ===== verification/Ix_Buddy_Props.thy ===== *)
theory Ix_Buddy_Props
  imports Ix_Buddy_Inv
begin

text \<open>
  The operations of the buddy system keep the invariant: what \<open>get_block\<close> hands out, what
  \<open>free_block\<close> takes back; sequences of calls of \<open>b_alloc\<close> and \<open>b_free\<close>; and the properties of the allocator.
\<close>

section \<open>Buddies\<close>

lemma buddy_cases:
  assumes pl: "placed base a i"
  shows "buddy_of base i a = a + 2 ^ (i + MINLOG2) \<and> 2 ^ (Suc i + MINLOG2) dvd a - base \<or>
         buddy_of base i a + 2 ^ (i + MINLOG2) = a \<and> 2 ^ (Suc i + MINLOG2) dvd buddy_of base i a - base"
proof -
  from pl have le: "base \<le> a" and al: "2 ^ (i + 4) dvd a - base" by (simp_all add: placed_def)
  have s: "Suc i + 4 = Suc (i + 4)" by simp
  from xor_exp_cases [OF al] show ?thesis
  proof (elim disjE conjE)
    assume "a - base XOR 2 ^ (i + 4) = a - base + 2 ^ (i + 4)" "2 ^ Suc (i + 4) dvd a - base"
    with le show ?thesis unfolding buddy_of_def s by (intro disjI1) simp
  next
    assume "(a - base XOR 2 ^ (i + 4)) + 2 ^ (i + 4) = a - base" "2 ^ Suc (i + 4) dvd a - base XOR 2 ^ (i + 4)"
    with le show ?thesis unfolding buddy_of_def s by (intro disjI2 conjI) simp_all
  qed
qed

lemma buddy_base: "buddy_of base i a - base = (a - base) XOR 2 ^ (i + MINLOG2)"
  by (simp add: buddy_of_def)

lemma buddy_invol: "base \<le> a \<Longrightarrow> buddy_of base i (buddy_of base i a) = a"
  by (simp add: buddy_of_def xor_exp_invol)

lemma buddy_neq:
  assumes "placed base a i"
  shows "buddy_of base i a \<noteq> a"
proof
  assume e: "buddy_of base i a = a"
  from buddy_cases [OF assms] show False unfolding e by simp
qed

lemma buddy_placed:
  assumes pl: "placed base a i" and i: "i < TOPINDEX"
  shows "placed base (buddy_of base i a) i"
  using buddy_cases [OF pl]
proof (elim disjE conjE)
  assume b: "buddy_of base i a = a + 2 ^ (i + MINLOG2)" and al: "2 ^ (Suc i + MINLOG2) dvd a - base"
  from pl al have "placed base a (Suc i)" by (simp add: placed_def)
  from placed_halves(2) [OF this i] show ?thesis unfolding b .
next
  assume b: "buddy_of base i a + 2 ^ (i + MINLOG2) = a" and al: "2 ^ (Suc i + MINLOG2) dvd buddy_of base i a - base"
  have "base \<le> buddy_of base i a" by (simp add: buddy_of_def)
  moreover from al have "2 ^ (i + 4) dvd buddy_of base i a - base" by (rule power_le_dvd) simp
  moreover have "buddy_of base i a \<le> a" using b by linarith
  then have "buddy_of base i a - base < MAXSIZE" using pl unfolding placed_def by linarith
  ultimately show ?thesis by (simp only: placed_def simp_thms)
qed

lemma buddy_half_up:
  assumes "placed base a (Suc i)"
  shows "buddy_of base i a = a + 2 ^ (i + MINLOG2)"
proof -
  let ?k = "i + 4"
  from assms have le: "base \<le> a" and al: "2 ^ Suc ?k dvd a - base" by (simp_all add: placed_def)
  from al have al': "2 ^ ?k dvd a - base" by (rule power_le_dvd) simp
  show ?thesis using xor_exp_cases [OF al']
  proof (elim disjE conjE)
    assume "(a - base XOR 2 ^ ?k) + 2 ^ ?k = a - base" "2 ^ Suc ?k dvd a - base XOR 2 ^ ?k"
    with al have "2 ^ Suc ?k dvd (2 :: nat) ^ ?k" by (metis dvd_add_right_iff)
    then have "Suc ?k \<le> ?k" by (rule power_dvd_imp_le) simp
    then show ?thesis by simp
  qed (use le in \<open>simp add: buddy_of_def\<close>)
qed

lemma placed_chunk: "placed base a i \<Longrightarrow> a \<in> chunk base"
  by (auto simp: placed_def)

text \<open>The chunk of a block is the only one its address lies in.\<close>

lemma block_base:
  assumes inv: "binv st u" and b: "block st u b j q" and c: "(base, p) \<in> set (exec_owned st)" and mem: "b \<in> chunk base"
  shows "fb_exec_block st b = base" and "q = p"
proof -
  from placed_chunk [OF blockD(2) [OF inv b]] have "b \<in> chunk (fb_exec_block st b)" .
  with ownD [OF inv blockD(1) [OF inv b] c] mem have "(fb_exec_block st b, q) = (base, p)" by simp
  then show "fb_exec_block st b = base" "q = p" by simp_all
qed

lemma buddy_sym:
  assumes inv: "binv st u" and a: "block st u a i p" and i: "i < TOPINDEX"
    and b: "block st u b j q" "buddy_of (fb_exec_block st a) i a = b"
  shows "buddy_of (fb_exec_block st b) i b = a"
proof -
  note pl = blockD(2) [OF inv a]
  from placed_chunk [OF buddy_placed [OF pl i]] b(2) have "b \<in> chunk (fb_exec_block st a)" by simp
  from block_base(1) [OF inv b(1) blockD(1) [OF inv a] this] b(2) pl
  show ?thesis using buddy_invol [of "fb_exec_block st a" a i] by (simp add: placed_def)
qed

text \<open>The buddy of a block is itself the start of a block, of at most the same size.\<close>

lemma span_div:
  assumes pl: "placed base a i" and x: "base \<le> x"
  shows "x \<in> span a i \<longleftrightarrow> (x - base) div 2 ^ (i + MINLOG2) = (a - base) div 2 ^ (i + MINLOG2)"
proof -
  from pl have al: "2 ^ (i + 4) dvd a - base" and le: "base \<le> a" by (simp_all add: placed_def)
  have "x \<in> span a i \<longleftrightarrow> a - base \<le> x - base \<and> x - base < a - base + 2 ^ (i + 4)"
    unfolding span_def using le x by auto
  with aligned_mem [OF al, of "x - base"] show ?thesis by simp
qed

lemma div_exp_mono:
  assumes "x div 2 ^ k = y div (2 :: nat) ^ k" and "k \<le> l"
  shows "x div 2 ^ l = y div 2 ^ l"
proof -
  have e: "(2 :: nat) ^ l = 2 ^ k * 2 ^ (l - k)" using assms(2) by (simp flip: power_add)
  show ?thesis unfolding e div_mult2_eq assms(1) ..
qed

lemma buddy_block:
  assumes inv: "binv st u" and us: "block st u fb i p" and i: "i < TOPINDEX"
    and b: "b = buddy_of (fb_exec_block st fb) i fb"
  obtains j where "block st u b j p" "fb_exec_block st b = fb_exec_block st fb" "j \<le> i"
proof -
  define base where "base = fb_exec_block st fb"
  note pl = blockD(2) [OF inv us, folded base_def] and ow = blockD(1) [OF inv us, folded base_def]
  have plb: "placed base b i" unfolding b base_def [symmetric] by (rule buddy_placed [OF pl i])
  from placed_chunk [OF plb] have "base \<le> b" "b < base + MAXSIZE" by simp_all
  from coverD [OF inv ow this] obtain a j where a: "block st u a j p" "fb_exec_block st a = base" "b \<in> span a j" .
  note pa = blockD(2) [OF inv a(1), unfolded a(2)]
  have db: "(b - base) div 2 ^ (j + 4) = (a - base) div 2 ^ (j + 4)" using span_div [OF pa \<open>base \<le> b\<close>] a(3) by simp
  have "b = a \<and> j \<le> i"
  proof (cases "j \<le> i")
    case True
    then have "2 ^ (j + 4) dvd (2 :: nat) ^ (i + 4)" by (intro le_imp_power_dvd) simp
    with plb have "2 ^ (j + 4) dvd b - base" unfolding placed_def using dvd_trans by blast
    moreover from pa have "2 ^ (j + 4) dvd a - base" by (simp add: placed_def)
    ultimately have "b - base = a - base" using db by (metis dvd_div_mult_self)
    with \<open>base \<le> b\<close> pa True show ?thesis unfolding placed_def by linarith
  next
    case False
    have "(b - base) div 2 ^ Suc (i + 4) = (fb - base) div 2 ^ Suc (i + 4)"
      unfolding b base_def [symmetric] buddy_base by (rule xor_exp_div)
    from div_exp_mono [OF this, of "j + 4"] False db have "(fb - base) div 2 ^ (j + 4) = (a - base) div 2 ^ (j + 4)" by simp
    with span_div [OF pa, of fb] pl have "fb \<in> span a j" by (simp add: placed_def)
    from disjD(2) [OF inv us a(1) span_self this] False show ?thesis by simp
  qed
  with a show thesis by (intro that [of j]) (simp_all add: base_def)
qed

section \<open>get\_block and free\_block\<close>

lemma used_not_free: "binv st u \<Longrightarrow> u a = Some (p, i) \<Longrightarrow> a \<notin> set (buckets st q j)"
  using freeD(4) by fastforce

lemma link_as_used:
  "link_block p i b (st\<lparr>fb_exec_block := E, fb_pool := (fb_pool st)(b := x)\<rparr>) = link_block p i b (st\<lparr>fb_exec_block := E\<rparr>)"
  by (simp add: link_block_def set_bucket_def)

text \<open>A used block whose buddy is used is put on its list.\<close>

lemma binv_link_used:
  assumes inv: "binv st u" and us: "u fb = Some (p, i)" and i: "i < TOPINDEX"
    and nb: "buddy_of (fb_exec_block st fb) i fb \<notin> set (buckets st p i)"
  shows "binv (link_block p i fb st) (u(fb := None))"
proof (rule binv_link [OF inv us i nb])
  show "buddy_of (fb_exec_block st a) i a \<noteq> fb" if a: "a \<in> set (buckets st p i)" for a
    using buddy_sym [OF inv freeD(6) [OF inv a] i usedD(3) [OF inv us]] nb a by metis
  show "buddy_of (fb_exec_block st fb) i fb \<noteq> fb"
    by (rule buddy_neq [OF blockD(2) [OF inv usedD(3) [OF inv us]]])
qed

lemma binv_split_link:
  assumes inv: "binv st u" and us: "u fb = Some (p, Suc i)" and b: "b = fb + 2 ^ (i + MINLOG2)"
  shows "binv (link_block p i b (st\<lparr>fb_exec_block := (fb_exec_block st)(b := fb_exec_block st fb)\<rparr>)) (u(fb \<mapsto> (p, i)))"
proof -
  let ?st = "st\<lparr>fb_exec_block := (fb_exec_block st)(b := fb_exec_block st fb), fb_pool := (fb_pool st)(b := p + 1)\<rparr>"
  let ?u = "u(fb \<mapsto> (p, i), b \<mapsto> (p, i))"
  have inv': "binv ?st ?u" by (rule binv_split [OF inv us b])
  have ne: "fb \<noteq> b" using b by simp
  have i: "i < TOPINDEX" using usedD(2) [OF inv us] by simp
  have t: "tiles (block st u) (fb_exec_block st) (exec_owned st)" using inv by (simp add: binv_tiles)
  have ub: "u b = None" using half_not_block [OF t usedD(3) [OF inv us]] unfolding b block_def by (metis not_None_eq surj_pair)
  have uf: "?u fb = Some (p, i)" using ne by simp
  have pf: "placed (fb_exec_block st fb) fb (Suc i)" by (rule blockD(2) [OF inv usedD(3) [OF inv us]])
  then have "buddy_of (fb_exec_block st fb) i fb = b"
    using b buddy_half_up [OF pf] by simp
  then have "buddy_of (fb_exec_block ?st b) i b = fb"
    using buddy_invol [of "fb_exec_block st fb" fb i] pf by (simp add: placed_def)
  then have "binv (link_block p i b ?st) (?u(b := None))"
    by (intro binv_link_used [OF inv' _ i]) (use used_not_free [OF inv' uf] in simp_all)
  moreover have "?u(b := None) = u(fb \<mapsto> (p, i))" using ub ne by auto
  ultimately show ?thesis unfolding link_as_used by simp
qed

lemma get_block_ok:
  assumes "binv st u" and "i \<le> TOPINDEX" and "\<And>m. mem = Some m \<Longrightarrow> fresh_chunk m st"
  shows "case get_block p i mem st of
           (None, st') \<Rightarrow> mem = None \<and> binv st' u
         | (Some fb, st') \<Rightarrow> u fb = None \<and> binv st' (u(fb \<mapsto> (p, i)))"
  using assms
proof (induction p i mem st rule: get_block.induct)
  case (1 p i mem st)
  show ?case
  proof (cases "TOPINDEX \<le> i")
    case True
    with "1.prems" have i: "i = TOPINDEX" by simp
    show ?thesis
    proof (cases mem)
      case (Some m)
      have "u m = None" using fresh_not_block(2) [OF "1.prems"(1) "1.prems"(3) [OF Some]] usedD(3) [OF "1.prems"(1)]
        by (metis not_None_eq surj_pair)
      then show ?thesis using binv_new [OF "1.prems"(1) "1.prems"(3) [OF Some], of p] Some i by (subst get_block.simps) simp
    qed (use True "1.prems" in \<open>subst get_block.simps, simp\<close>)
  next
    case False
    show ?thesis
    proof (cases "buckets st p i")
      case (Cons fb l)
      then have m: "fb \<in> set (buckets st p i)" by simp
      from binv_take [OF "1.prems"(1) m] freeD(4) [OF "1.prems"(1) m] False Cons show ?thesis
        by (subst get_block.simps) (simp add: unlink_block_take)
    next
      case Nil
      have IH: "case get_block p (i + 1) mem st of
           (None, st') \<Rightarrow> mem = None \<and> binv st' u | (Some fb, st') \<Rightarrow> u fb = None \<and> binv st' (u(fb \<mapsto> (p, i + 1)))"
        by (rule "1.IH" [OF False]) (use "1.prems" False Nil in \<open>simp_all add: unlink_block_take\<close>)
      have unf: "get_block p i mem st = (case get_block p (i + 1) mem st of (None, st2) \<Rightarrow> (None, st2)
          | (Some fb, st2) \<Rightarrow> let b = fb + 2 ^ (i + MINLOG2)
               in (Some fb, link_block p i b (st2\<lparr>fb_exec_block := (fb_exec_block st2)(b := fb_exec_block st2 fb)\<rparr>)))"
        using False Nil by (subst get_block.simps) (simp add: unlink_block_take)
      obtain r st2 where g: "get_block p (i + 1) mem st = (r, st2)" by (cases "get_block p (i + 1) mem st")
      show ?thesis
      proof (cases r)
        case (Some fb)
        with IH g have "u fb = None" "binv st2 (u(fb \<mapsto> (p, Suc i)))" by simp_all
        with binv_split_link [OF this(2) _ refl, of fb p i] show ?thesis unfolding unf g Some by (simp add: Let_def)
      next
        case None
        with IH g show ?thesis unfolding unf g None by simp
      qed
    qed
  qed
qed

text \<open>Two buddies in use are one block of twice the size.\<close>

lemma binv_merge:
  assumes inv: "binv st u" and us: "u fb = Some (p, i)" and ub: "u b = Some (p, i)" and i: "i < TOPINDEX"
    and b: "b = buddy_of (fb_exec_block st fb) i fb" and e: "fb_exec_block st b = fb_exec_block st fb"
    and m: "m = (if fb < b then fb else b)"
  shows "binv st ((u(fb := None, b := None))(m \<mapsto> (p, Suc i)))"
proof -
  note pl = blockD(2) [OF inv usedD(3) [OF inv us]]
  from buddy_cases [OF pl] show ?thesis unfolding b [symmetric]
  proof (elim disjE conjE)
    assume up: "b = fb + 2 ^ (i + MINLOG2)" and al: "2 ^ (Suc i + MINLOG2) dvd fb - fb_exec_block st fb"
    have "m = fb" using m up by simp
    moreover have "binv st (u(b := None, fb \<mapsto> (p, Suc i)))" by (rule binv_join [OF inv us up ub e i al])
    moreover have "u(b := None, fb \<mapsto> (p, Suc i)) = (u(fb := None, b := None))(fb \<mapsto> (p, Suc i))" by (rule ext) simp
    ultimately show ?thesis by (simp only:)
  next
    assume dn: "b + 2 ^ (i + MINLOG2) = fb" and al: "2 ^ (Suc i + MINLOG2) dvd b - fb_exec_block st fb"
    have "m = b" using m dn by auto
    moreover have "binv st (u(fb := None, b \<mapsto> (p, Suc i)))"
      by (rule binv_join [OF inv ub dn [symmetric] us e [symmetric] i]) (use al e in simp)
    moreover have "u(fb := None, b \<mapsto> (p, Suc i)) = (u(fb := None, b := None))(b \<mapsto> (p, Suc i))" by (rule ext) simp
    ultimately show ?thesis by (simp only:)
  qed
qed

lemma free_block_ok:
  assumes "binv st u" and "u fb = Some (p, i)"
  shows "binv (free_block p i fb st) (u(fb := None))"
  using assms
proof (induction p i fb st arbitrary: u rule: free_block.induct)
  case (1 p i fb st)
  note inv = "1.prems"(1) and us = "1.prems"(2)
  define b where b: "b = buddy_of (fb_exec_block st fb) i fb"
  show ?case
  proof (cases "TOPINDEX \<le> i")
    case True
    with usedD(2) [OF inv us] have "i = TOPINDEX" by simp
    with binv_release [OF inv] us show ?thesis by (subst free_block.simps) simp
  next
    case False
    then have i: "i < TOPINDEX" by simp
    from buddy_block [OF inv usedD(3) [OF inv us] i b] obtain j
      where bj: "block st u b j p" and e: "fb_exec_block st b = fb_exec_block st fb" .
    show ?thesis
    proof (cases "fb_pool st b \<noteq> 0 \<or> fb_index st b \<noteq> i")
      case True
      then have "b \<notin> set (buckets st p i)" using freeD(2,3) [OF inv, of b p i] by metis
      from binv_link_used [OF inv us i] this b have "binv (link_block p i fb st) (u(fb := None))" by simp
      then show ?thesis using True False b by (subst free_block.simps) (simp add: Let_def)
    next
      case free: False
      with bj usedD(1) [OF inv, of b p j] have "b \<in> set (buckets st p j)" unfolding block_def by fastforce
      with freeD(3) [OF inv this] free have mem: "b \<in> set (buckets st p i)" by simp
      have ne: "b \<noteq> fb" using used_not_free [OF inv us, of p i] mem by blast
      let ?st = "unlink_this p b st" and ?u = "u(b \<mapsto> (p, i))" and ?m = "if fb < b then fb else b"
      have st: "?st = take_free p i b st" using free by (simp add: unlink_this_take)
      have ex: "fb_exec_block ?st = fb_exec_block st" by (simp add: st take_free_def)
      have "binv ?st ?u" unfolding st by (rule binv_take [OF inv mem])
      then have inv': "binv ?st ((?u(fb := None, b := None))(?m \<mapsto> (p, Suc i)))"
        by (rule binv_merge [OF _ _ _ i _ _ refl]) (use us ne b e ex in simp_all)
      have "binv (free_block p (i + 1) ?m ?st) (((?u(fb := None, b := None))(?m \<mapsto> (p, Suc i)))(?m := None))"
        by (rule "1.IH" [OF b False free inv']) simp
      moreover have "((?u(fb := None, b := None))(?m \<mapsto> (p, Suc i)))(?m := None) = u(fb := None)"
        using freeD(4) [OF inv mem] by (intro ext) simp
      moreover have "free_block p i fb st = free_block p (i + 1) ?m ?st"
        using False free by (subst free_block.simps) (simp add: b [symmetric])
      ultimately show ?thesis by (simp only:)
    qed
  qed
qed

section \<open>Sizes\<close>

lemma log2_loop_least:
  "1 \<le> sz \<Longrightarrow> sz \<le> 2 ^ Suc n \<Longrightarrow>
     \<exists>k. log2_loop sz (2 ^ n) (int (Suc n)) = Some (int k) \<and> k \<le> Suc n \<and> sz \<le> 2 ^ k \<and> 2 ^ k < 2 * sz"
proof (induction n)
  case 0
  then consider "sz = 1" | "sz = 2" by fastforce
  then show ?case
    by cases (simp add: log2_loop.simps [of _ 1] log2_loop.simps [of _ 0], simp add: log2_loop.simps [of _ 1] exI [of _ 1])
next
  case (Suc n)
  show ?case
  proof (cases "2 ^ Suc n < sz")
    case True
    with Suc.prems show ?thesis by (subst log2_loop.simps) (intro exI [of _ "Suc (Suc n)"], simp)
  next
    case False
    then have "log2_loop sz (2 ^ Suc n) (int (Suc (Suc n))) = log2_loop sz (2 ^ n) (int (Suc n))"
      by (subst log2_loop.simps) simp
    with Suc.IH Suc.prems(1) False show ?thesis by (auto simp: not_less intro: le_SucI)
  qed
qed

end
