(* ===== verification/Ix_Buddy_Run.thy ===== *)
theory Ix_Buddy_Run
  imports Ix_Buddy_Props
begin

text \<open>
  Clients of the buddy system.  A run is a sequence of calls of \<open>b_alloc\<close> and \<open>b_free\<close> and of writes
  of the clients; \<open>live\<close> is what they hold: address, requested size and pool.  A client returns
  what it got with the size it asked for (\<open>the clients have to do this instead\<close>, the comment at the
  head of \<open>buddy-alloc.c\<close>) and writes to its memory only.  Exec hands out memory that is not in use.
  The list links and the index of a \<open>struct free_block\<close> lie in the memory its user gets, so a
  write may change them, and the headers of addresses that are not the start of a block.
\<close>

type_synonym entry = "addr \<times> int \<times> nat"

definition large :: "int \<Rightarrow> bool" where
  "large sz \<longleftrightarrow> BUDDY_LIMIT - int OFFSET_NEXT \<le> at_least_min sz"

definition exec_ranges :: "buddy \<Rightarrow> entry list \<Rightarrow> (addr \<times> nat) list" where
  "exec_ranges st live = map (\<lambda>(b, p). (b, MAXSIZE)) (exec_owned st) @ map (\<lambda>(a, sz, p). (a, nat sz)) (filter (\<lambda>(a, sz, p). large sz) live)"

definition exec_fresh :: "addr \<Rightarrow> nat \<Rightarrow> buddy \<Rightarrow> entry list \<Rightarrow> bool" where
  "exec_fresh m n st live = list_all (\<lambda>(b, k). m + n \<le> b \<or> b + k \<le> m) (exec_ranges st live)"

definition writable :: "entry list \<Rightarrow> addr \<Rightarrow> bool" where
  "writable live x = list_ex (\<lambda>(a, sz, p). a \<le> x \<and> x + 4 \<le> a + nat sz) live"

datatype bcall = BAlloc int nat "addr option" | BFree nat | BWrite "addr \<Rightarrow> nat" "addr \<Rightarrow> addr" "addr \<Rightarrow> nat"

fun bstep :: "bcall \<Rightarrow> buddy \<times> entry list \<Rightarrow> (buddy \<times> entry list) option" where
  "bstep (BAlloc sz p mem) (st, live) =
     (case b_alloc sz p mem st of
        None \<Rightarrow> None
      | Some (None, st1) \<Rightarrow> Some (st1, live)
      | Some (Some a, st1) \<Rightarrow> Some (st1, (a, sz, p) # live))"
| "bstep (BFree k) (st, live) =
     (if k < length live
      then case live ! k of (a, sz, p) \<Rightarrow> map_option (\<lambda>st1. (st1, take k live @ drop (Suc k) live)) (b_free a sz st)
      else Some (st, live))"
| "bstep (BWrite f g h) (st, live) =
     Some (st\<lparr>fb_pool := (\<lambda>x. if writable live x then f x else fb_pool st x),
              fb_exec_block := (\<lambda>x. if writable live x then g x else fb_exec_block st x),
              fb_index := (\<lambda>x. if writable live (x + 12) then h x else fb_index st x)\<rparr>, live)"

fun bcall_ok :: "bcall \<Rightarrow> buddy \<times> entry list \<Rightarrow> bool" where
  "bcall_ok (BAlloc sz p (Some m)) (st, live) = exec_fresh m (if large sz then nat sz else MAXSIZE) st live"
| "bcall_ok c s = True"

fun bok :: "bcall list \<Rightarrow> buddy \<times> entry list \<Rightarrow> bool" where
  "bok [] s = True"
| "bok (c # cs) s = (bcall_ok c s \<and> (case bstep c s of None \<Rightarrow> True | Some s1 \<Rightarrow> bok cs s1))"

fun brun :: "bcall list \<Rightarrow> buddy \<times> entry list \<Rightarrow> (buddy \<times> entry list) option" where
  "brun [] s = Some s"
| "brun (c # cs) s = Option.bind (bstep c s) (brun cs)"

definition buddy0 :: "(addr \<Rightarrow> nat) \<Rightarrow> (addr \<Rightarrow> addr) \<Rightarrow> (addr \<Rightarrow> nat) \<Rightarrow> buddy" where
  "buddy0 f g h = init_buddy \<lparr>fb_pool = f, fb_exec_block = g, fb_index = h, buckets = (\<lambda>_ _. []), exec_owned = []\<rparr>"

text \<open>The memory an entry holds, with the header before it.\<close>

fun held :: "entry \<Rightarrow> addr set" where
  "held (a, sz, p) = (if large sz then {a..<a + nat sz} else {a - OFFSET_NEXT..<a + nat sz})"

section \<open>Sizes\<close>

lemma log2_20:
  assumes "20 \<le> sz" and "sz < BUDDY_LIMIT"
  obtains k where "log2 sz = Some (int k)" "4 < k" "k \<le> 11" "sz \<le> 2 ^ k"
proof -
  from log2_loop_least [of sz 15] assms obtain k
    where k: "log2_loop sz (2 ^ 15) 16 = Some (int k)" "sz \<le> 2 ^ k" "2 ^ k < 2 * sz" by auto
  have "\<not> k \<le> 4"
  proof
    assume "k \<le> 4"
    then have "(2 :: int) ^ k \<le> 2 ^ 4" by (intro power_increasing) simp_all
    with k(2) assms show False by simp
  qed
  moreover have "(2 :: int) ^ k < 2 ^ 12" using k(3) assms by simp
  then have "k < 12" by (rule power_less_imp_less_exp [rotated]) simp
  ultimately show thesis using k by (intro that [of k]) (simp_all add: log2_def)
qed

definition idx :: "int \<Rightarrow> nat" where
  "idx sz = the (bucket_of (at_least_min sz + int OFFSET_NEXT))"

lemma idx:
  assumes "\<not> large sz"
  shows "bucket_of (at_least_min sz + int OFFSET_NEXT) = Some (idx sz)" and "idx sz \<le> TOPINDEX"
    and "at_least_min sz + int OFFSET_NEXT \<le> 2 ^ (idx sz + MINLOG2)"
proof -
  let ?s = "at_least_min sz + 4"
  have "20 \<le> ?s" "?s < BUDDY_LIMIT" using assms by (auto simp: large_def at_least_min_def)
  then obtain k where k: "log2 ?s = Some (int k)" "4 < k" "k \<le> 11" "?s \<le> 2 ^ k" by (rule log2_20)
  then have b: "bucket_of ?s = Some (k - 4)" by (simp add: bucket_of_def)
  then have "idx sz = k - 4" by (simp add: idx_def)
  with b k show "bucket_of (at_least_min sz + int OFFSET_NEXT) = Some (idx sz)" "idx sz \<le> TOPINDEX"
    "at_least_min sz + int OFFSET_NEXT \<le> 2 ^ (idx sz + MINLOG2)" by simp_all
qed

section \<open>The invariant of a run\<close>

definition used_of :: "entry list \<Rightarrow> used" where
  "used_of live = map_of (map (\<lambda>(a, sz, p). (a - OFFSET_NEXT, (p, idx sz))) (filter (\<lambda>(a, sz, p). \<not> large sz) live))"

fun entry_ok :: "buddy \<Rightarrow> entry \<Rightarrow> bool" where
  "entry_ok st (a, sz, p) \<longleftrightarrow> 0 \<le> sz \<and>
     (if large sz then \<forall>c\<in>set (exec_owned st). {a..<a + nat sz} \<inter> chunk (fst c) = {} else OFFSET_NEXT \<le> a)"

definition entries_ok :: "buddy \<Rightarrow> entry list \<Rightarrow> bool" where
  "entries_ok st live \<longleftrightarrow> sorted_wrt (\<lambda>x y. held x \<inter> held y = {}) live \<and> (\<forall>e\<in>set live. entry_ok st e)"

definition rinv :: "buddy \<times> entry list \<Rightarrow> bool" where
  "rinv s \<longleftrightarrow> binv (fst s) (used_of (snd s)) \<and> entries_ok (fst s) (snd s)"

lemma used_of_Cons: "used_of ((a, sz, p) # live) = (if large sz then used_of live else (used_of live)(a - OFFSET_NEXT \<mapsto> (p, idx sz)))"
  by (simp add: used_of_def)

lemma used_of_append: "used_of (xs @ ys) = used_of ys ++ used_of xs"
  by (simp add: used_of_def)

lemma used_ofD:
  assumes "used_of live b = Some (p, i)"
  obtains a sz where "(a, sz, p) \<in> set live" "\<not> large sz" "b = a - OFFSET_NEXT" "i = idx sz"
  using assms by (auto simp: used_of_def dest!: map_of_SomeD)

lemma small_held: "\<not> large sz \<Longrightarrow> OFFSET_NEXT \<le> a \<Longrightarrow> a - OFFSET_NEXT \<in> held (a, sz, p)"
  by simp

lemma held_span:
  assumes "\<not> large sz" and "0 \<le> sz" and "OFFSET_NEXT \<le> a"
  shows "held (a, sz, p) \<subseteq> span (a - OFFSET_NEXT) (idx sz)"
proof -
  from idx(3) [OF assms(1)] assms(2) have "int (nat sz) + 4 \<le> 2 ^ (idx sz + 4)" by (auto simp: at_least_min_def split: if_splits)
  then have "int (nat sz + 4) \<le> int (2 ^ (idx sz + 4))" by simp
  then have "nat sz + 4 \<le> 2 ^ (idx sz + 4)" by (simp only: of_nat_le_iff)
  with assms show ?thesis by (auto simp: span_def)
qed

lemma entryD:
  assumes "entries_ok st live" and "(a, sz, p) \<in> set live"
  shows "0 \<le> sz" and "large sz \<Longrightarrow> c \<in> set (exec_owned st) \<Longrightarrow> {a..<a + nat sz} \<inter> chunk (fst c) = {}"
    and "\<not> large sz \<Longrightarrow> OFFSET_NEXT \<le> a"
proof -
  from assms have e: "entry_ok st (a, sz, p)" unfolding entries_ok_def by blast
  from e show "0 \<le> sz" by (simp only: entry_ok.simps)
  from e show "large sz \<Longrightarrow> c \<in> set (exec_owned st) \<Longrightarrow> {a..<a + nat sz} \<inter> chunk (fst c) = {}"
    unfolding entry_ok.simps by (simp only: if_True)
  from e show "\<not> large sz \<Longrightarrow> OFFSET_NEXT \<le> a" by (simp only: entry_ok.simps if_False)
qed

lemma entry_okI:
  assumes "0 \<le> sz" and "\<And>c. large sz \<Longrightarrow> c \<in> set (exec_owned st) \<Longrightarrow> {a..<a + nat sz} \<inter> chunk (fst c) = {}"
    and "\<not> large sz \<Longrightarrow> OFFSET_NEXT \<le> a"
  shows "entry_ok st (a, sz, p)"
  unfolding entry_ok.simps using assms by (intro conjI) (assumption, cases "large sz", simp_all only: if_True if_False, blast+)

lemma entry_ok_mono: "entry_ok st e \<Longrightarrow> set (exec_owned st') \<subseteq> set (exec_owned st) \<Longrightarrow> entry_ok st' e"
  by (cases e) (simp only: entry_ok.simps, meson subsetD)

lemma entries_mid:
  assumes "entries_ok st (xs @ e # ys)" and "e' \<in> set xs \<union> set ys"
  shows "held e \<inter> held e' = {}"
  using assms unfolding entries_ok_def sorted_wrt_append by (auto simp del: held.simps)

lemma used_of_mid:
  assumes ok: "entries_ok st (xs @ (a, sz, p) # ys)" and sm: "\<not> large sz"
  shows "used_of xs (a - OFFSET_NEXT) = None" and "used_of ys (a - OFFSET_NEXT) = None"
proof -
  have no: "used_of zs (a - 4) = None" if sub: "set zs \<subseteq> set xs \<union> set ys" for zs
  proof (rule ccontr)
    assume "used_of zs (a - 4) \<noteq> None"
    then obtain q i where "used_of zs (a - 4) = Some (q, i)" by auto
    from used_ofD [OF this] obtain a' sz' where e: "(a', sz', q) \<in> set zs" "\<not> large sz'" "a - 4 = a' - 4" .
    have "(a', sz', q) \<in> set xs \<union> set ys" using e(1) sub by blast
    with entries_mid [OF ok this] entryD(3) [OF ok, of a sz p] entryD(3) [OF ok, of a' sz' q] sm e
    show False using small_held [of sz a p] small_held [of sz' a' q] by auto
  qed
  show "used_of xs (a - OFFSET_NEXT) = None" "used_of ys (a - OFFSET_NEXT) = None" by (rule no, simp)+
qed

lemma used_of_mem:
  assumes ok: "entries_ok st live" and m: "(a, sz, p) \<in> set live" and sm: "\<not> large sz"
  shows "used_of live (a - OFFSET_NEXT) = Some (p, idx sz)"
proof -
  from m obtain xs ys where l: "live = xs @ (a, sz, p) # ys" by (auto dest: split_list)
  from used_of_mid(1) [OF ok [unfolded l] sm] sm show ?thesis unfolding l used_of_append used_of_Cons
    by (simp add: map_add_def)
qed

lemma used_of_remove:
  assumes ok: "entries_ok st (xs @ (a, sz, p) # ys)"
  shows "used_of (xs @ ys) = (if large sz then used_of (xs @ (a, sz, p) # ys) else (used_of (xs @ (a, sz, p) # ys))(a - OFFSET_NEXT := None))"
  using used_of_mid [OF ok] by (auto simp: used_of_append used_of_Cons map_add_def fun_eq_iff split: option.splits)

lemma entries_ok_remove:
  assumes "entries_ok st (xs @ e # ys)" and "set (exec_owned st') \<subseteq> set (exec_owned st)"
  shows "entries_ok st' (xs @ ys)"
  using assms(1) entry_ok_mono [OF _ assms(2)] unfolding entries_ok_def by (simp add: sorted_wrt_append)

lemma entry_span:
  assumes inv: "rinv (st, live)" and m: "(a, sz, p) \<in> set live" and sm: "\<not> large sz"
  shows "held (a, sz, p) \<subseteq> span (a - OFFSET_NEXT) (idx sz)" and "block st (used_of live) (a - OFFSET_NEXT) (idx sz) p"
proof -
  from inv have ok: "entries_ok st live" by (simp add: rinv_def)
  show "held (a, sz, p) \<subseteq> span (a - OFFSET_NEXT) (idx sz)" by (rule held_span [OF sm entryD(1,3) [OF ok m]]) (rule sm)
  show "block st (used_of live) (a - OFFSET_NEXT) (idx sz) p" using used_of_mem [OF ok m sm] by (simp add: block_def)
qed

section \<open>Every call keeps it\<close>

lemma get_block_owned:
  "get_block p i mem st = (r, st') \<Longrightarrow> set (exec_owned st') \<subseteq> set (exec_owned st) \<union> {(m, p) |m. mem = Some m}"
proof (induction p i mem st arbitrary: r st' rule: get_block.induct)
  case (1 p i mem st)
  show ?case
  proof (cases "TOPINDEX \<le> i")
    case True
    with "1.prems" show ?thesis by (subst (asm) get_block.simps) (auto split: option.splits)
  next
    case False
    show ?thesis
    proof (cases "buckets st p i")
      case (Cons fb l)
      with "1.prems" False show ?thesis by (subst (asm) get_block.simps) (auto simp: unlink_block_take take_free_def)
    next
      case Nil
      obtain r2 st2 where g: "get_block p (i + 1) mem st = (r2, st2)" by (cases "get_block p (i + 1) mem st")
      have "set (exec_owned st2) \<subseteq> set (exec_owned st) \<union> {(m, p) |m. mem = Some m}"
        by (rule "1.IH" [OF False _ refl g]) (simp add: unlink_block_take Nil)
      with "1.prems" False Nil g show ?thesis
        by (subst (asm) get_block.simps) (auto simp: unlink_block_take link_block_def Let_def split: option.splits)
    qed
  qed
qed

lemma free_block_owned: "set (exec_owned (free_block p i fb st)) \<subseteq> set (exec_owned st)"
proof (induction p i fb st rule: free_block.induct)
  case (1 p i fb st)
  show ?case
    by (subst free_block.simps)
      (use "1.IH" [OF refl] in \<open>auto simp: Let_def link_block_def unlink_this_take take_free_def dest: subsetD [OF set_remove1_subset]\<close>)
qed

text \<open>What Exec returns is outside all the memory in use.\<close>

lemma exec_freshD:
  assumes "exec_fresh m n st live"
  shows "c \<in> set (exec_owned st) \<Longrightarrow> {m..<m + n} \<inter> chunk (fst c) = {}"
    and "(a, sz, p) \<in> set live \<Longrightarrow> large sz \<Longrightarrow> {m..<m + n} \<inter> {a..<a + nat sz} = {}"
proof -
  from assms have all: "\<forall>(b, k)\<in>set (exec_ranges st live). m + n \<le> b \<or> b + k \<le> m"
    by (simp only: exec_fresh_def list_all_iff)
  show "{m..<m + n} \<inter> chunk (fst c) = {}" if "c \<in> set (exec_owned st)"
  proof -
    from that have "(fst c, MAXSIZE) \<in> set (exec_ranges st live)" by (auto simp: exec_ranges_def image_iff split_beta intro: bexI)
    with all have "m + n \<le> fst c \<or> fst c + MAXSIZE \<le> m" by blast
    then show ?thesis by auto
  qed
  show "{m..<m + n} \<inter> {a..<a + nat sz} = {}" if "(a, sz, p) \<in> set live" "large sz"
  proof -
    from that have "(a, nat sz) \<in> set (exec_ranges st live)" unfolding exec_ranges_def by force
    with all have "m + n \<le> a \<or> a + nat sz \<le> m" by blast
    then show ?thesis by auto
  qed
qed

lemma alloc_large:
  assumes inv: "rinv (st, live)" and fr: "exec_fresh m (nat sz) st live" and l: "large sz" and pos: "0 \<le> sz"
  shows "rinv (st, (m, sz, p) # live)"
proof -
  have "held (m, sz, p) \<inter> held e = {}" if e: "e \<in> set live" for e
  proof -
    obtain a s q where ee: "e = (a, s, q)" by (cases e)
    show ?thesis
    proof (cases "large s")
      case True
      with exec_freshD(2) [OF fr e [unfolded ee]] l ee show ?thesis by simp
    next
      case False
      note sp = entry_span [OF inv e [unfolded ee] False]
      from inv have b: "binv st (used_of live)" by (simp add: rinv_def)
      from exec_freshD(1) [OF fr blockD(1) [OF b sp(2)]] block_in_chunk [OF b sp(2)] sp(1) l ee
      show ?thesis by (fastforce simp del: atLeastLessThan_iff)
    qed
  qed
  moreover have "entry_ok st (m, sz, p)" using exec_freshD(1) [OF fr] l pos by (simp only: entry_ok.simps if_True) blast
  ultimately show ?thesis using inv l by (simp add: rinv_def used_of_Cons entries_ok_def del: held.simps entry_ok.simps)
qed

lemma entry_ok_grown:
  assumes ok: "entries_ok st live" and e: "e \<in> set live" and fr: "\<And>m. mem = Some m \<Longrightarrow> exec_fresh m MAXSIZE st live"
    and g: "get_block p i mem st = (r, st')"
  shows "entry_ok st' e"
proof -
  obtain a s q where ee: "e = (a, s, q)" by (cases e)
  have "{a..<a + nat s} \<inter> chunk (fst c) = {}" if l: "large s" and c: "c \<in> set (exec_owned st')" for c
  proof -
    from get_block_owned [OF g] c consider "c \<in> set (exec_owned st)" | m where "mem = Some m" "fst c = m" by auto
    then show ?thesis
    proof cases
      case 1
      with entryD(2) [OF ok e [unfolded ee] l] show ?thesis .
    next
      case 2
      with exec_freshD(2) [OF fr e [unfolded ee] l] show ?thesis by (metis Int_commute)
    qed
  qed
  then show ?thesis unfolding ee by (intro entry_okI entryD(1,3) [OF ok e [unfolded ee]])
qed

text \<open>The block handed out does not meet what the clients hold.\<close>

lemma new_block_disj:
  assumes ok: "entries_ok st live" and n: "used_of live fb = None" and b: "binv st' ((used_of live)(fb \<mapsto> (p, i)))"
    and e: "e \<in> set live" and eo: "entry_ok st' e"
  shows "span fb i \<inter> held e = {}"
proof -
  let ?u = "(used_of live)(fb \<mapsto> (p, i))"
  obtain a s q where ee: "e = (a, s, q)" by (cases e)
  have bf: "block st' ?u fb i p" by (simp add: block_def)
  show ?thesis
  proof (cases "large s")
    case True
    with eo ee have "{a..<a + nat s} \<inter> chunk (fb_exec_block st' fb) = {}"
      using blockD(1) [OF b bf] by (simp only: entry_ok.simps if_True) fastforce
    moreover have "held e = {a..<a + nat s}" using True ee by simp
    ultimately show ?thesis using block_in_chunk [OF b bf] by blast
  next
    case False
    have u: "used_of live (a - 4) = Some (q, idx s)" by (rule used_of_mem [OF ok e [unfolded ee] False])
    with n have ne: "a - 4 \<noteq> fb" by auto
    with u have "block st' ?u (a - 4) (idx s) q" by (simp add: block_def)
    from disjD(1) [OF b bf this] ne have "span fb i \<inter> span (a - 4) (idx s) = {}" by blast
    moreover have "held e \<subseteq> span (a - 4) (idx s)"
      unfolding ee by (intro held_span [OF False] entryD(1,3) [OF ok e [unfolded ee]] False)
    ultimately show ?thesis by blast
  qed
qed

lemma alloc_small:
  assumes inv: "rinv (st, live)" and fr: "\<And>m. mem = Some m \<Longrightarrow> exec_fresh m MAXSIZE st live" and l: "\<not> large sz" and pos: "0 \<le> sz"
    and g: "get_block p (idx sz) mem st = (r, st')"
  shows "rinv (st', case r of None \<Rightarrow> live | Some fb \<Rightarrow> (fb + OFFSET_NEXT, sz, p) # live)"
proof -
  from inv have b: "binv st (used_of live)" and ok: "entries_ok st live" by (simp_all add: rinv_def)
  have fc: "fresh_chunk m st" if "mem = Some m" for m
    unfolding fresh_chunk_def by (intro ballI exec_freshD(1) [OF fr [OF that]])
  note gb = get_block_ok [OF b idx(2) [OF l] fc, of mem p, unfolded g]
  have eo: "entry_ok st' e" if "e \<in> set live" for e by (rule entry_ok_grown [OF ok that fr g])
  show ?thesis
  proof (cases r)
    case None
    with gb ok eo show ?thesis by (simp add: rinv_def entries_ok_def)
  next
    case (Some fb)
    let ?e = "(fb + 4, sz, p)"
    from gb Some have n: "used_of live fb = None" and b': "binv st' ((used_of live)(fb \<mapsto> (p, idx sz)))" by simp_all
    have hs: "held ?e \<subseteq> span fb (idx sz)" using held_span [OF l pos, of "fb + 4" p] by simp
    have "held ?e \<inter> held e = {}" if "e \<in> set live" for e
      using new_block_disj [OF ok n b' that eo [OF that]] hs by blast
    with eo ok b' l pos show ?thesis unfolding Some
      by (simp add: rinv_def used_of_Cons entries_ok_def del: held.simps)
  qed
qed

lemma step_alloc:
  assumes inv: "rinv (st, live)" and ok: "bcall_ok (BAlloc sz p mem) (st, live)"
  obtains s' where "bstep (BAlloc sz p mem) (st, live) = Some s'" "rinv s'"
proof -
  have fr: "exec_fresh m (if large sz then nat sz else MAXSIZE) st live" if "mem = Some m" for m using ok that by simp
  consider "sz < 0" | "0 \<le> sz" "large sz" | "0 \<le> sz" "\<not> large sz" by linarith
  then show thesis
  proof cases
    case 1
    then show thesis using inv by (intro that [of "(st, live)"]) (simp_all add: b_alloc_def)
  next
    case 2
    then have "b_alloc sz p mem st = Some (mem, st)" by (simp add: b_alloc_def large_def Let_def)
    then show thesis using inv alloc_large [OF inv _ 2(2,1), of _ p] fr 2 by (cases mem) (auto intro: that)
  next
    case 3
    obtain r st' where g: "get_block p (idx sz) mem st = (r, st')" by (cases "get_block p (idx sz) mem st")
    have "b_alloc sz p mem st = Some (map_option (\<lambda>fb. fb + 4) r, st')"
      using 3 idx(1) [OF 3(2)] g by (simp add: b_alloc_def large_def Let_def split: option.splits)
    moreover have "rinv (st', case r of None \<Rightarrow> live | Some fb \<Rightarrow> (fb + OFFSET_NEXT, sz, p) # live)"
      by (rule alloc_small [OF inv _ 3(2,1) g]) (use fr 3 in simp)
    ultimately show thesis by (cases r) (auto intro: that)
  qed
qed

lemma step_free:
  assumes inv: "rinv (st, live)"
  obtains s' where "bstep (BFree k) (st, live) = Some s'" "rinv s'"
proof (cases "k < length live")
  case True
  obtain a sz p where e: "live ! k = (a, sz, p)" by (cases "live ! k")
  define xs ys where xy: "xs = take k live" "ys = drop (Suc k) live"
  have l: "live = xs @ (a, sz, p) # ys" using id_take_nth_drop [OF True] e by (simp add: xy)
  from inv have b: "binv st (used_of live)" and ok: "entries_ok st live" by (simp_all add: rinv_def)
  have m: "(a, sz, p) \<in> set live" by (simp add: l)
  note ur = used_of_remove [OF ok [unfolded l]]
  show thesis
  proof (cases "large sz")
    case large: True
    then have "b_free a sz st = Some st" by (simp add: b_free_def large_def Let_def)
    moreover have "rinv (st, xs @ ys)"
      using b entries_ok_remove [OF ok [unfolded l] subset_refl] ur large by (simp add: rinv_def l)
    ultimately show thesis using True e xy by (intro that) simp_all
  next
    case False
    have u: "used_of live (a - 4) = Some (p, idx sz)" by (rule used_of_mem [OF ok m False])
    have pool: "fb_pool st (a - 4) - 1 = p" using usedD(1) [OF b u] by simp
    let ?st = "free_block p (idx sz) (a - 4) st"
    have "b_free a sz st = Some ?st"
      using False idx(1) [OF False] pool by (simp add: b_free_def large_def Let_def)
    moreover have "rinv (?st, xs @ ys)"
      using free_block_ok [OF b u] entries_ok_remove [OF ok [unfolded l] free_block_owned] ur False by (simp add: rinv_def l)
    ultimately show thesis using True e xy by (intro that) simp_all
  qed
qed (use inv in \<open>auto intro: that\<close>)

text \<open>A write reaches neither the header of a block nor the index of a free one.\<close>

lemma writable_held:
  assumes "writable live x"
  obtains a sz p where "(a, sz, p) \<in> set live" "x \<in> held (a, sz, p)" "a \<le> x"
proof -
  from assms obtain a sz p where "(a, sz, p) \<in> set live" "a \<le> x" "x + 4 \<le> a + nat sz"
    by (auto simp: writable_def list_ex_iff)
  then show thesis by (intro that [of a sz p]) auto
qed

lemma not_writable:
  assumes inv: "rinv (st, live)" and b: "block st (used_of live) c i p" and x: "x \<in> span c i"
    and h: "x = c \<or> c \<in> set (buckets st p i)"
  shows "\<not> writable live x"
proof
  from inv have bi: "binv st (used_of live)" and ok: "entries_ok st live" by (simp_all add: rinv_def)
  assume "writable live x"
  then obtain a sz q where e: "(a, sz, q) \<in> set live" "x \<in> held (a, sz, q)" "a \<le> x" by (rule writable_held)
  show False
  proof (cases "large sz")
    case True
    with entryD(2) [OF ok e(1) True blockD(1) [OF bi b]] block_in_chunk [OF bi b] x e(2) show False
      by (auto simp del: Int_atLeastLessThan)
  next
    case False
    note sp = entry_span [OF inv e(1) False]
    from disjD(1) [OF bi b sp(2) x] e(2) sp(1) have c: "c = a - 4" by blast
    from h show False
    proof
      assume "x = c" then show False using c e(3) entryD(3) [OF ok e(1) False] by linarith
    next
      assume "c \<in> set (buckets st p i)"
      then show False using freeD(4) [OF bi] used_of_mem [OF ok e(1) False] c by fastforce
    qed
  qed
qed

lemma tiles_cong:
  assumes "\<And>a i p. B a i p \<Longrightarrow> ex' a = ex a"
  shows "tiles B ex ow = tiles B ex' ow"
  unfolding tiles_def using assms by (smt (verit, best))

lemma binv_rehead:
  assumes inv: "binv st u" and bk: "buckets st' = buckets st" and ow: "exec_owned st' = exec_owned st"
    and same: "\<And>a i p. block st u a i p \<Longrightarrow> fb_pool st' a = fb_pool st a \<and> fb_exec_block st' a = fb_exec_block st a"
    and ix: "\<And>a i p. a \<in> set (buckets st p i) \<Longrightarrow> fb_index st' a = fb_index st a"
  shows "binv st' u"
proof -
  have bl: "block st' u = block st u" by (intro ext) (simp add: block_def bk)
  have "lists_ok st' u"
    unfolding lists_ok_def bk
  proof (intro conjI allI impI)
    fix q i a assume m: "a \<in> set (buckets st q i)"
    from freeD [OF inv m] same [OF freeD(6) [OF inv m]] ix [OF m]
    show "i < TOPINDEX" "fb_pool st' a = 0" "fb_index st' a = i" "u a = None"
      "buddy_of (fb_exec_block st' a) i a \<notin> set (buckets st q i)" by simp_all
  qed (rule free_distinct [OF inv])
  moreover have "heads_ok st' u" unfolding heads_ok_def using usedD [OF inv] same by metis
  moreover have "tiles (block st' u) (fb_exec_block st') (exec_owned st')"
    using inv tiles_cong [of "block st u" "fb_exec_block st'" "fb_exec_block st"] same unfolding bl ow binv_tiles by blast
  moreover have "own_ok st'" using inv by (simp add: binv_def own_ok_def ow)
  ultimately show ?thesis unfolding binv_tiles by blast
qed

lemma step_write:
  assumes inv: "rinv (st, live)"
  obtains s' where "bstep (BWrite f g h) (st, live) = Some s'" "rinv s'"
proof -
  from inv have b: "binv st (used_of live)" and ok: "entries_ok st live" by (simp_all add: rinv_def)
  obtain st' where st': "bstep (BWrite f g h) (st, live) = Some (st', live)" by simp
  have "binv st' (used_of live)"
  proof (rule binv_rehead [OF b])
    show "buckets st' = buckets st" "exec_owned st' = exec_owned st" using st' by auto
    show "fb_pool st' a = fb_pool st a \<and> fb_exec_block st' a = fb_exec_block st a" if "block st (used_of live) a i p" for a i p
      using not_writable [OF inv that span_self] st' by auto
    show "fb_index st' a = fb_index st a" if m: "a \<in> set (buckets st p i)" for a i p
    proof -
      have "1 \<le> (2 :: nat) ^ i" by simp
      then have "12 < 16 * (2 :: nat) ^ i" by linarith
      then have "a + 12 \<in> span a i" unfolding span_def by (simp add: power_add)
      from not_writable [OF inv freeD(6) [OF b m] this] m st' show ?thesis by auto
    qed
  qed
  moreover have "set (exec_owned st') \<subseteq> set (exec_owned st)" using st' by auto
  then have "entries_ok st' live" using ok entry_ok_mono [of st _ st'] unfolding entries_ok_def by blast
  ultimately have "rinv (st', live)" by (simp add: rinv_def)
  from that [OF st' this] show thesis .
qed

lemma bstep_ok:
  assumes "rinv (st, live)" and "bcall_ok c (st, live)"
  shows "\<exists>s1. bstep c (st, live) = Some s1 \<and> rinv s1"
proof (cases c)
  case (BAlloc sz p mem)
  from step_alloc [OF assms(1) assms(2) [unfolded this]] show ?thesis unfolding BAlloc by blast
next
  case (BFree k)
  from step_free [OF assms(1)] show ?thesis unfolding BFree by blast
next
  case (BWrite f g h)
  from step_write [OF assms(1)] show ?thesis unfolding BWrite by blast
qed

lemma brun_ok:
  assumes "rinv s" and "bok cs s"
  shows "\<exists>s'. brun cs s = Some s' \<and> rinv s'"
  using assms
proof (induction cs arbitrary: s)
  case (Cons c cs)
  obtain st live where s: "s = (st, live)" by (cases s)
  from bstep_ok [of st live c] Cons.prems s obtain s1 where s1: "bstep c s = Some s1" "rinv s1" by auto
  with Cons.prems(2) have "bok cs s1" by simp
  from Cons.IH [OF s1(2) this] s1(1) show ?case by simp
qed simp

lemma rinv_init: "rinv (buddy0 f g h, [])"
  by (simp add: rinv_def buddy0_def init_buddy_def binv_def lists_ok_def heads_ok_def place_ok_def disj_ok_def
      cover_ok_def own_ok_def used_of_def block_def entries_ok_def)

section \<open>Properties\<close>

lemma rinv_separate:
  assumes inv: "rinv (st, live)" and e: "e \<in> set live" and f: "f \<in> set (buckets st p i)"
  shows "held e \<inter> span f i = {}"
proof -
  from inv have b: "binv st (used_of live)" and ok: "entries_ok st live" by (simp_all add: rinv_def)
  obtain a sz q where ee: "e = (a, sz, q)" by (cases e)
  note bf = freeD(6) [OF b f]
  show ?thesis
  proof (cases "large sz")
    case True
    then have "held e = {a..<a + nat sz}" by (simp add: ee)
    with entryD(2) [OF ok e [unfolded ee] True blockD(1) [OF b bf]] block_in_chunk [OF b bf] show ?thesis by fastforce
  next
    case False
    note sp = entry_span [OF inv e [unfolded ee] False]
    have "a - 4 \<noteq> f" using freeD(4) [OF b f] used_of_mem [OF ok e [unfolded ee] False] by auto
    with disjD(1) [OF b sp(2) bf] have "span (a - 4) (idx sz) \<inter> span f i = {}" by blast
    with sp(1) ee show ?thesis by blast
  qed
qed

lemma all_free_nothing_owned:
  assumes b: "binv st Map.empty"
  shows "exec_owned st = []"
proof (rule ccontr)
  assume "exec_owned st \<noteq> []"
  then obtain base q where c: "(base, q) \<in> set (exec_owned st)" by (cases "exec_owned st") auto
  have "base \<le> base" "base < base + MAXSIZE" by simp_all
  from coverD [OF b c this] obtain a i where "block st Map.empty a i q" .
  then have "\<exists>i p a. a \<in> set (buckets st p i)" by (auto simp: block_def)
  then obtain i where i: "\<exists>p a. a \<in> set (buckets st p i)" and least: "\<And>j. j < i \<Longrightarrow> \<not> (\<exists>p a. a \<in> set (buckets st p j))"
    using exists_least_iff [of "\<lambda>i. \<exists>p a. a \<in> set (buckets st p i)"] by auto
  from i obtain p a where m: "a \<in> set (buckets st p i)" by blast
  from buddy_block [OF b freeD(6) [OF b m] freeD(1) [OF b m] refl] obtain j
    where j: "block st Map.empty (buddy_of (fb_exec_block st a) i a) j p" "j \<le> i" .
  then have f: "buddy_of (fb_exec_block st a) i a \<in> set (buckets st p j)" by (simp add: block_def)
  with least [of j] j(2) have "j = i" using nat_less_le by blast
  with f freeD(5) [OF b m] show False by simp
qed

lemma get_block_mem:
  "TOPINDEX - i = n \<Longrightarrow> i \<le> TOPINDEX \<Longrightarrow> (\<And>j. buckets st p j = []) \<Longrightarrow>
     \<exists>st'. get_block p i (Some m) st = (Some m, st') \<and> exec_owned st' = (m, p) # exec_owned st"
proof (induction n arbitrary: i)
  case 0
  then show ?case by (subst get_block.simps) simp
next
  case (Suc n)
  have "TOPINDEX - (i + 1) = n" "i + 1 \<le> TOPINDEX" using Suc.prems by linarith+
  from Suc.IH [OF this Suc.prems(3)] obtain st' where
    "get_block p (i + 1) (Some m) st = (Some m, st')" "exec_owned st' = (m, p) # exec_owned st" by auto
  with Suc.prems show ?case by (subst get_block.simps) (auto simp: unlink_block_take link_block_def Let_def)
qed

lemma first_alloc:
  assumes "\<not> large sz" and "0 \<le> sz"
  shows "\<exists>st. bstep (BAlloc sz p (Some m)) (buddy0 f g h, []) = Some (st, [(m + OFFSET_NEXT, sz, p)]) \<and> exec_owned st = [(m, p)]"
proof -
  have e: "buckets (buddy0 f g h) p j = []" "exec_owned (buddy0 f g h) = []" for j by (simp_all add: buddy0_def init_buddy_def)
  from get_block_mem [OF refl idx(2) [OF assms(1)] e(1), of m] e(2) obtain st where
    g: "get_block p (idx sz) (Some m) (buddy0 f g h) = (Some m, st)" "exec_owned st = [(m, p)]" by auto
  have "b_alloc sz p (Some m) (buddy0 f g h) = Some (Some (m + 4), st)"
    using assms idx(1) [OF assms(1)] g by (simp add: b_alloc_def large_def Let_def)
  with g show ?thesis by simp
qed

lemma run_example:
  "bok [BAlloc 100 1 (Some 65536), BAlloc 3000 1 (Some 131072), BWrite (\<lambda>_. 0) id (\<lambda>_. 3), BFree 1] (buddy0 f g h, [])"
proof -
  have l: "\<not> large 100" "large 3000" by (simp_all add: large_def at_least_min_def)
  from first_alloc [OF l(1), of 1 65536 f g h] show ?thesis
    by (auto simp: exec_fresh_def exec_ranges_def buddy0_def init_buddy_def l split: option.splits)
qed

text \<open>
  C4. A client of the buddy system that returns what it got with the size it asked for, and
  writes only to its memory, is always served or refused, never left in a loop.  At any point of any run the blocks the
  clients hold, each with the header before it, are pairwise disjoint, and none of them meets a block on a free list.
\<close>

theorem buddy_calls_safe:
  assumes "bok calls (buddy0 f g h, [])"
  shows "\<exists>st live. brun calls (buddy0 f g h, []) = Some (st, live) \<and>
           sorted_wrt (\<lambda>x y. held x \<inter> held y = {}) live \<and>
           (\<forall>e p i b. e \<in> set live \<and> b \<in> set (buckets st p i) \<longrightarrow> held e \<inter> span b i = {})"
proof -
  from brun_ok [OF rinv_init assms] obtain st live
    where r: "brun calls (buddy0 f g h, []) = Some (st, live)" "rinv (st, live)" by auto
  then have "sorted_wrt (\<lambda>x y. held x \<inter> held y = {}) live" by (simp add: rinv_def entries_ok_def)
  with r rinv_separate [OF r(2)] show ?thesis by blast
qed

theorem buddy_calls_safe_witness:
  "\<exists>st live. brun [BAlloc 100 1 (Some 65536), BAlloc 3000 1 (Some 131072), BWrite (\<lambda>_. 0) id (\<lambda>_. 3), BFree 1]
     (buddy0 (\<lambda>_. 0) id (\<lambda>_. 0), []) = Some (st, live) \<and>
     sorted_wrt (\<lambda>x y. held x \<inter> held y = {}) live"
  using buddy_calls_safe [of "[BAlloc 100 1 (Some 65536), BAlloc 3000 1 (Some 131072), BWrite (\<lambda>_. 0) id (\<lambda>_. 3), BFree 1]"
      "\<lambda>_. 0" id "\<lambda>_. 0"] run_example by blast

text \<open>
  C10. When every block the buddy system handed out has been returned, it has returned every chunk to Exec:
  each free joins all the buddies that can be joined, whatever the order of the calls was.
\<close>

theorem buddy_no_leak:
  assumes "bok calls (buddy0 f g h, [])" and "brun calls (buddy0 f g h, []) = Some (st, live)"
    and "list_all (\<lambda>(a, sz, p). large sz) live"
  shows "exec_owned st = []"
proof (rule all_free_nothing_owned)
  from brun_ok [OF rinv_init assms(1)] assms(2) have "binv st (used_of live)" by (simp add: rinv_def)
  moreover have "filter (\<lambda>(a, sz, p). \<not> large sz) live = []"
    using assms(3) by (auto simp: filter_empty_conv list_all_iff)
  then have "used_of live = Map.empty" by (simp add: used_of_def)
  ultimately show "binv st Map.empty" by simp
qed

theorem buddy_no_leak_witness:
  "\<exists>st. brun [BAlloc 100 1 (Some 65536), BFree 0] (buddy0 (\<lambda>_. 0) id (\<lambda>_. 0), []) = Some (st, []) \<and> exec_owned st = []"
proof -
  let ?s = "(buddy0 (\<lambda>_. 0) id (\<lambda>_. 0), []) :: buddy \<times> entry list"
  have l: "\<not> large 100" by (simp add: large_def at_least_min_def)
  from first_alloc [OF l, of 1 65536 "\<lambda>_. 0" id "\<lambda>_. 0"] obtain st where st: "bstep (BAlloc 100 1 (Some 65536)) ?s = Some (st, [(65540, 100, 1)])" by auto
  have ok: "bok [BAlloc 100 1 (Some 65536), BFree 0] ?s"
    by (auto simp: exec_fresh_def exec_ranges_def buddy0_def init_buddy_def l split: option.splits)
  from brun_ok [OF rinv_init this] obtain st' live' where r: "brun [BAlloc 100 1 (Some 65536), BFree 0] ?s = Some (st', live')" by auto
  with st have "live' = []" by (auto simp: map_option_case split: option.splits)
  with r buddy_no_leak [OF ok r] show ?thesis by simp
qed

text \<open>
  C35. \<open>log2\<close> returns for every size from 1 to 64K, and returns the least power whose block holds it.
\<close>

theorem log2_least:
  assumes "0 < sz" and "sz \<le> 2 ^ MAXLOG2"
  shows "\<exists>k. log2 sz = Some (int k) \<and> k \<le> MAXLOG2 \<and> sz \<le> 2 ^ k \<and> (\<forall>j. sz \<le> 2 ^ j \<longrightarrow> k \<le> j)"
proof -
  from log2_loop_least [of sz 15] assms obtain k
    where k: "log2_loop sz (2 ^ 15) 16 = Some (int k)" "k \<le> 16" "sz \<le> 2 ^ k" "2 ^ k < 2 * sz" by auto
  have "k \<le> j" if "sz \<le> 2 ^ j" for j
  proof -
    from k(4) that have "(2 :: int) ^ k < 2 ^ Suc j" by simp
    then have "k < Suc j" by (rule power_less_imp_less_exp [rotated]) simp
    then show ?thesis by simp
  qed
  with k show ?thesis by (auto simp: log2_def)
qed

theorem log2_least_witness: "\<exists>k. log2 1000 = Some (int k) \<and> 1000 \<le> (2 :: int) ^ k"
  using log2_least [of 1000] by auto

end
