(* ===== verification/Ix_Kmalloc.thy ===== *)
theory Ix_Kmalloc
  imports Ix_Buddy_Run
begin

text \<open>
  Clients of \<open>kmalloc\<close>, \<open>krealloc\<close> and \<open>kfree\<close> (\<open>library/kmalloc.c\<close>).  They hold pointers with the
  rounded sizes; each call is a call, or two, of the buddy system by a client that keeps its protocol, so
  what is shown of such clients in \<open>Ix_Buddy_Run\<close> holds.  \<open>words\<close> is the memory at long word addresses;
  what the allocator writes to the links of free blocks is outside the memory in use and is not recorded in it.
\<close>

type_synonym kentry = "addr \<times> u32"

datatype kcall = KMalloc u32 "addr option" | KFree nat | KRealloc nat u32 "addr option"
  | KWrite "addr \<Rightarrow> u32" "addr \<Rightarrow> nat" "addr \<Rightarrow> addr" "addr \<Rightarrow> nat"

definition without :: "nat \<Rightarrow> 'a list \<Rightarrow> 'a list" where
  "without k xs = take k xs @ drop (Suc k) xs"

definition kwritable :: "kentry list \<Rightarrow> addr \<Rightarrow> bool" where
  "kwritable live x = list_ex (\<lambda>(a, sz). a \<le> x \<and> x + 4 \<le> a + unat sz) live"

fun kstep :: "kcall \<Rightarrow> kheap \<times> kentry list \<Rightarrow> (kheap \<times> kentry list) option" where
  "kstep (KMalloc sz mem) (h, live) =
     Option.bind (kmalloc sz mem h) (\<lambda>(r, h1). Some (h1, case r of None \<Rightarrow> live | Some a \<Rightarrow> (a, round4 sz) # live))"
| "kstep (KFree k) (h, live) =
     (if k < length live then map_option (\<lambda>h1. (h1, without k live)) (kfree (Some (fst (live ! k))) h) else Some (h, live))"
| "kstep (KRealloc k sz mem) (h, live) =
     (if k < length live
      then Option.bind (krealloc (Some (fst (live ! k))) sz mem h) (\<lambda>(r, h1).
             Some (h1, case r of None \<Rightarrow> live
                       | Some b \<Rightarrow> if b = fst (live ! k) then live else (b, round4 sz) # without k live))
      else Some (h, live))"
| "kstep (KWrite w f g i) (h, live) =
     Some (h\<lparr>words := (\<lambda>x. if kwritable live x then w x else words h x),
             fb_pool := (\<lambda>x. if kwritable live x then f x else fb_pool h x),
             fb_exec_block := (\<lambda>x. if kwritable live x then g x else fb_exec_block h x),
             fb_index := (\<lambda>x. if kwritable live (x + 12) then i x else fb_index h x)\<rparr>, live)"

text \<open>The memory of the buddy system a pointer stands for: the size is kept before it.\<close>

fun centry :: "kentry \<Rightarrow> entry" where
  "centry (a, sz) = (a - 4, int (unat sz) + 4, 1)"

fun karea :: "kentry \<Rightarrow> addr set" where
  "karea (a, sz) = {a..<a + unat sz}"

definition kfresh :: "u32 \<Rightarrow> addr option \<Rightarrow> kheap \<Rightarrow> kentry list \<Rightarrow> bool" where
  "kfresh sz mem h live \<longleftrightarrow> unat sz \<le> 0x7FFFFFF8 \<and>
     bcall_ok (BAlloc (int (unat (round4 sz)) + 4) 1 mem) (buddy.truncate h, map centry live)"

fun kcall_ok :: "kcall \<Rightarrow> kheap \<times> kentry list \<Rightarrow> bool" where
  "kcall_ok (KMalloc sz mem) (h, live) = kfresh sz mem h live"
| "kcall_ok (KRealloc k sz mem) (h, live) = kfresh sz mem h live"
| "kcall_ok c s = True"

fun kok :: "kcall list \<Rightarrow> kheap \<times> kentry list \<Rightarrow> bool" where
  "kok [] s = True"
| "kok (c # cs) s = (kcall_ok c s \<and> (case kstep c s of None \<Rightarrow> True | Some s1 \<Rightarrow> kok cs s1))"

fun krun :: "kcall list \<Rightarrow> kheap \<times> kentry list \<Rightarrow> (kheap \<times> kentry list) option" where
  "krun [] s = Some s"
| "krun (c # cs) s = Option.bind (kstep c s) (krun cs)"

definition kheap0 :: "(addr \<Rightarrow> nat) \<Rightarrow> (addr \<Rightarrow> addr) \<Rightarrow> (addr \<Rightarrow> nat) \<Rightarrow> (addr \<Rightarrow> u32) \<Rightarrow> kheap" where
  "kheap0 f g i w = buddy.extend (buddy0 f g i) (kheap.fields w)"

section \<open>Sizes\<close>

lemma sint_add4:
  assumes "unat (x :: u32) \<le> 0x7FFFFFF8"
  shows "sint (x + 4) = int (unat x) + 4"
proof -
  have u4: "unat (x + 4) = unat x + 4" using assms by (subst unat_add_lem [THEN iffD1]) simp_all
  have "unat (x + 4) < 2 ^ 31" unfolding u4 using assms by simp
  then have "int (unat (x + 4)) < int (2 ^ 31)" by (simp only: of_nat_less_iff)
  then have "signed_take_bit 31 (uint (x + 4)) = uint (x + 4)"
    by (intro signed_take_bit_int_eq_self order_trans [OF _ uint_ge_0]) simp_all
  then have "sint (x + 4) = int (unat (x + 4))" by (simp add: sint_uint)
  then show ?thesis unfolding u4 by (simp only: of_nat_add of_nat_numeral)
qed

lemma round4_props:
  assumes "unat sz \<le> 0x7FFFFFF8"
  shows "unat sz \<le> unat (round4 sz)" and "unat (round4 sz) \<le> 0x7FFFFFF8" and "unat (round4 sz) mod 4 = 0"
    and "sint (round4 sz + 4) = int (unat (round4 sz)) + 4"
proof -
  have u3: "unat (sz + 3) = unat sz + 3" using assms by (subst unat_add_lem [THEN iffD1]) simp_all
  have nt: "NOT (3 :: u32) = NOT (mask 2)" by (simp add: mask_eq_exp_minus_1)
  have "round4 sz = push_bit 2 (drop_bit 2 (sz + 3))" unfolding round4_def nt
    by (rule bit_word_eqI) (auto simp: bit_simps, (metis add_2_eq_Suc le_add_diff_inverse not_less)+)
  then have r: "unat (round4 sz) = (unat sz + 3) div 4 * 4"
    using u3 assms by (simp add: unat_drop_bit_eq push_bit_eq_mult drop_bit_eq_div unat_mult_lem [THEN iffD1] unat_div)
  show a: "unat sz \<le> unat (round4 sz)" "unat (round4 sz) \<le> 0x7FFFFFF8" "unat (round4 sz) mod 4 = 0"
    unfolding r using assms by presburger+
  show "sint (round4 sz + 4) = int (unat (round4 sz)) + 4" by (rule sint_add4 [OF a(2)])
qed

section \<open>Each call is a call of the buddy system\<close>

definition kinv :: "kheap \<times> kentry list \<Rightarrow> bool" where
  "kinv s \<longleftrightarrow> rinv (buddy.truncate (fst s), map centry (snd s)) \<and>
     (\<forall>e\<in>set (snd s). 4 \<le> fst e \<and> words (fst s) (fst e - 4) = snd e \<and> unat (snd e) \<le> 0x7FFFFFF8)"

lemma truncate_with_buddy [simp]: "buddy.truncate (with_buddy h st) = st" "words (with_buddy h st) = words h"
  "exec_owned (with_buddy h st) = exec_owned st"
  by (simp_all add: with_buddy_def buddy.defs kheap.defs)

lemma truncate_words [simp]: "buddy.truncate (h\<lparr>words := w\<rparr>) = buddy.truncate h"
  by (simp add: buddy.defs)

lemma kentryD:
  assumes "kinv (h, live)" and "(a, sz) \<in> set live"
  shows "4 \<le> a" and "words h (a - 4) = sz" and "unat sz \<le> 0x7FFFFFF8"
  using assms by (auto simp: kinv_def)

lemma centry_held:
  assumes "4 \<le> a"
  shows "{a - 4..<a + unat sz} \<subseteq> held (centry (a, sz))"
  using assms by (auto simp: nat_add_distrib)

lemma sorted_wrt_mem:
  assumes "sorted_wrt P xs" and "\<And>x y. P x y \<Longrightarrow> P y x" and "x \<in> set xs" and "y \<in> set xs" and "x \<noteq> y"
  shows "P x y"
  using assms by (induction xs) auto

lemma kentries_disj:
  assumes inv: "kinv (h, live)" and e: "(a, sz) \<in> set live" "(a', sz') \<in> set live" and ne: "(a, sz) \<noteq> (a', sz')"
  shows "{a - 4..<a + unat sz} \<inter> {a' - 4..<a' + unat sz'} = {}"
proof -
  have c: "centry (a, sz) \<noteq> centry (a', sz')" using ne kentryD(1) [OF inv e(1)] kentryD(1) [OF inv e(2)]
    by (auto dest: word_uint_eqI)
  have "sorted_wrt (\<lambda>x y. held x \<inter> held y = {}) (map centry live)"
    using inv by (simp add: kinv_def rinv_def entries_ok_def)
  then have "held (centry (a, sz)) \<inter> held (centry (a', sz')) = {}"
    by (rule sorted_wrt_mem) (use e c in \<open>simp_all add: Int_commute rev_image_eqI del: held.simps centry.simps\<close>)
  with centry_held [OF kentryD(1) [OF inv e(1)]] centry_held [OF kentryD(1) [OF inv e(2)]] show ?thesis by blast
qed

text \<open>An allocation: what \<open>kmalloc\<close> and \<open>krealloc\<close> share.\<close>

lemma kalloc:
  assumes inv: "kinv (h, live)" and ok: "kfresh sz mem h live"
  obtains r st where "b_alloc (sint (round4 sz + 4)) 1 mem (buddy.truncate h) = Some (r, st)"
    "rinv (st, map centry (case r of None \<Rightarrow> live | Some b \<Rightarrow> (b + 4, round4 sz) # live))"
proof -
  let ?s = "(buddy.truncate h, map centry live)" and ?n = "int (unat (round4 sz)) + 4"
  from ok have sz: "unat sz \<le> 0x7FFFFFF8" and bo: "bcall_ok (BAlloc ?n 1 mem) ?s" by (simp_all only: kfresh_def simp_thms)
  from inv have "rinv ?s" by (simp add: kinv_def)
  from step_alloc [OF this bo] obtain s1 where s1: "bstep (BAlloc ?n 1 mem) ?s = Some s1" "rinv s1" .
  from s1(1) obtain r st where r: "b_alloc ?n 1 mem (buddy.truncate h) = Some (r, st)"
    by (auto split: option.splits)
  have "s1 = (st, map centry (case r of None \<Rightarrow> live | Some b \<Rightarrow> (b + 4, round4 sz) # live))"
    using s1(1) r by (auto split: option.splits)
  with s1(2) r show thesis unfolding round4_props(4) [OF sz, symmetric] by (intro that) simp_all
qed

lemma kinv_new:
  assumes inv: "kinv (h, live)" and sz: "unat sz \<le> 0x7FFFFFF8"
    and r: "rinv (st, map centry ((b + 4, round4 sz) # live))"
    and w: "w b = round4 sz" "\<And>x. x \<notin> {b..<b + 4 + unat (round4 sz)} \<Longrightarrow> w x = words h x"
  shows "kinv ((with_buddy h st)\<lparr>words := w\<rparr>, (b + 4, round4 sz) # live)"
proof -
  have dj: "held (centry (b + 4, round4 sz)) \<inter> held (centry e) = {}" if "e \<in> set live" for e
    using r that by (simp add: rinv_def entries_ok_def del: held.simps)
  have "w (a - 4) = words h (a - 4)" if e: "(a, s) \<in> set live" for a s
  proof (rule w(2))
    have "a - 4 \<in> {a - 4..<a + unat s}" using kentryD(1) [OF inv e] by simp
    with centry_held [OF kentryD(1) [OF inv e], of s] dj [OF e] have "a - 4 \<notin> held (centry (b + 4, round4 sz))" by blast
    with centry_held [of "b + 4" "round4 sz"] show "a - 4 \<notin> {b..<b + 4 + unat (round4 sz)}" by auto
  qed
  moreover from inv have "\<forall>e\<in>set live. 4 \<le> fst e \<and> words h (fst e - 4) = snd e \<and> unat (snd e) \<le> 0x7FFFFFF8" by (simp add: kinv_def)
  ultimately show ?thesis using r w(1) round4_props(2) [OF sz] unfolding kinv_def
    by (auto simp del: centry.simps)
qed

lemma kinv_none: "kinv (h, live) \<Longrightarrow> rinv (st, map centry live) \<Longrightarrow> kinv (with_buddy h st, live)"
  by (simp add: kinv_def)

lemma kstep_malloc:
  assumes inv: "kinv (h, live)" and ok: "kfresh sz mem h live"
  shows "\<exists>s. kstep (KMalloc sz mem) (h, live) = Some s \<and> kinv s"
proof -
  from ok have sz: "unat sz \<le> 0x7FFFFFF8" by (simp only: kfresh_def)
  from kalloc [OF inv ok] obtain r st where b: "b_alloc (sint (round4 sz + 4)) 1 mem (buddy.truncate h) = Some (r, st)"
    "rinv (st, map centry (case r of None \<Rightarrow> live | Some b \<Rightarrow> (b + 4, round4 sz) # live))" .
  show ?thesis
  proof (cases r)
    case None
    with b kinv_none [OF inv] show ?thesis by (simp add: kmalloc_def Let_def)
  next
    case (Some c)
    let ?h = "(with_buddy h st)\<lparr>words := (words h)(c := round4 sz)\<rparr>"
    have "kinv (?h, (c + 4, round4 sz) # live)" by (rule kinv_new [OF inv sz]) (use b(2) Some in auto)
    moreover have "kstep (KMalloc sz mem) (h, live) = Some (?h, (c + 4, round4 sz) # live)"
      using b(1) Some by (simp add: kmalloc_def Let_def)
    ultimately show ?thesis by blast
  qed
qed

lemma kfree_ok:
  assumes inv: "kinv (h, live)" and k: "k < length live"
  shows "\<exists>st. kfree (Some (fst (live ! k))) h = Some (with_buddy h st) \<and> kinv (with_buddy h st, without k live)"
proof -
  obtain a sz where e: "live ! k = (a, sz)" by (cases "live ! k")
  with k have m: "(a, sz) \<in> set live" by (metis nth_mem)
  note d = kentryD [OF inv m]
  from inv have "rinv (buddy.truncate h, map centry live)" by (simp add: kinv_def)
  from step_free [OF this, of k] obtain s1
    where s1: "bstep (BFree k) (buddy.truncate h, map centry live) = Some s1" "rinv s1" .
  from s1(1) k e obtain st where st: "b_free (a - 4) (int (unat sz) + 4) (buddy.truncate h) = Some st"
      "s1 = (st, map centry (without k live))"
    by (auto simp: without_def take_map drop_map)
  have "kfree (Some a) h = Some (with_buddy h st)"
    using st(1) unfolding sint_add4 [OF d(3), symmetric] by (simp add: kfree_def d(2))
  moreover have "set (without k live) \<subseteq> set live" unfolding without_def using set_take_subset set_drop_subset by fastforce
  then have "kinv (with_buddy h st, without k live)" using inv s1(2) unfolding st(2) kinv_def by auto
  ultimately show ?thesis using e by auto
qed

lemma without_Suc: "without (Suc k) (x # xs) = x # without k xs"
  by (simp add: without_def)

text \<open>What \<open>krealloc\<close> does when the block has to move: the new block gets the old contents, and no
  other word in use changes.\<close>

lemma krealloc_moves:
  assumes inv: "kinv (h, live)" and ok: "kfresh sz mem h live" and k: "k < length live" and e: "live ! k = (a, old)"
    and lt: "\<not> round4 sz \<le> old"
    and b: "b_alloc (sint (round4 sz + 4)) 1 mem (buddy.truncate h) = Some (Some b, st)"
    "rinv (st, map centry ((b + 4, round4 sz) # live))"
  shows "\<exists>h2. krealloc (Some a) sz mem h = Some (Some (b + 4), h2) \<and> kinv (h2, (b + 4, round4 sz) # without k live) \<and>
           b + 4 \<noteq> a \<and> (\<forall>i<unat old. words h2 (b + 4 + i) = words h (a + i))"
proof -
  from ok have sz: "unat sz \<le> 0x7FFFFFF8" by (simp only: kfresh_def)
  from k e have m: "(a, old) \<in> set live" by (metis nth_mem)
  let ?w = "copy_words a (b + 4) (unat old) ((words h)(b := round4 sz))"
  let ?h = "(with_buddy h st)\<lparr>words := ?w\<rparr>" and ?new = "(b + 4, round4 sz)"
  have lt': "unat old < unat (round4 sz)" using lt by (simp add: word_le_nat_alt)
  have inv1: "kinv (?h, ?new # live)"
    by (rule kinv_new [OF inv sz b(2)]) (use lt' in \<open>auto simp: copy_words_def\<close>)
  from kfree_ok [OF inv1, of "Suc k"] k e obtain st2
    where f: "kfree (Some a) ?h = Some (with_buddy ?h st2)" "kinv (with_buddy ?h st2, ?new # without k live)"
    by (auto simp: without_Suc)
  have "?new \<noteq> (a, old)" using lt' by auto
  from kentries_disj [OF inv1 _ _ this] m have dj: "{b..<b + 4 + unat (round4 sz)} \<inter> {a - 4..<a + unat old} = {}" by simp
  note a4 = kentryD(1) [OF inv m]
  have "b \<notin> {a - 4..<a + unat old}" using dj by fastforce
  then have nb: "b \<noteq> a + i" if "i < unat old" for i using that by auto
  have "b + 4 \<noteq> a"
  proof
    assume "b + 4 = a"
    then have "b \<in> {b..<b + 4 + unat (round4 sz)} \<inter> {a - 4..<a + unat old}" by simp
    with dj show False by blast
  qed
  moreover have "krealloc (Some a) sz mem h = Some (Some (b + 4), with_buddy ?h st2)"
    using lt b(1) f(1) kentryD(2) [OF inv m] by (simp add: krealloc_def Let_def)
  ultimately show ?thesis using f(2) nb by (auto simp: copy_words_def)
qed

lemma krealloc_cases:
  assumes inv: "kinv (h, live)" and ok: "kfresh sz mem h live" and k: "k < length live" and e: "live ! k = (a, old)"
  obtains (stay) "krealloc (Some a) sz mem h = Some (Some a, h)"
    | (fail) h2 where "krealloc (Some a) sz mem h = Some (None, h2)" "kinv (h2, live)" "words h2 = words h"
    | (move) b h2 where "krealloc (Some a) sz mem h = Some (Some b, h2)" "kinv (h2, (b, round4 sz) # without k live)" "b \<noteq> a"
        "\<forall>i<unat old. words h2 (b + i) = words h (a + i)"
proof (cases "round4 sz \<le> old")
  case True
  from k e have m: "(a, old) \<in> set live" by (metis nth_mem)
  with True kentryD(2) [OF inv m] show thesis by (intro stay) (simp add: krealloc_def Let_def)
next
  case False
  from k e have m: "(a, old) \<in> set live" by (metis nth_mem)
  from kalloc [OF inv ok] obtain r st where b: "b_alloc (sint (round4 sz + 4)) 1 mem (buddy.truncate h) = Some (r, st)"
    "rinv (st, map centry (case r of None \<Rightarrow> live | Some b \<Rightarrow> (b + 4, round4 sz) # live))" .
  show thesis
  proof (cases r)
    case None
    with b False kentryD(2) [OF inv m] kinv_none [OF inv] show thesis
      by (intro fail [of "with_buddy h st"]) (simp_all add: krealloc_def Let_def)
  next
    case (Some c)
    with krealloc_moves [OF inv ok k e False, of c st] b show thesis using move by auto
  qed
qed

lemma kstep_realloc:
  assumes inv: "kinv (h, live)" and ok: "kfresh sz mem h live"
  shows "\<exists>s. kstep (KRealloc k sz mem) (h, live) = Some s \<and> kinv s"
proof (cases "k < length live")
  case True
  obtain a old where e: "live ! k = (a, old)" by (cases "live ! k")
  from inv ok True e show ?thesis by (cases rule: krealloc_cases) (use True e inv in simp_all)
qed (use inv in simp)

lemma kwritable_writable: "kwritable live x \<Longrightarrow> \<forall>e\<in>set live. 4 \<le> fst e \<Longrightarrow> writable (map centry live) x"
  by (force simp: kwritable_def writable_def list_ex_iff nat_add_distrib)

lemma kstep_write:
  assumes inv: "kinv (h, live)"
  shows "\<exists>s. kstep (KWrite w f g i) (h, live) = Some s \<and> kinv s"
proof -
  let ?W = "kwritable live" and ?s = "(buddy.truncate h, map centry live)"
  let ?f = "\<lambda>x. if ?W x then f x else fb_pool h x" and ?g = "\<lambda>x. if ?W x then g x else fb_exec_block h x"
    and ?i = "\<lambda>x. if ?W (x + 12) then i x else fb_index h x"
  obtain h1 where h1: "kstep (KWrite w f g i) (h, live) = Some (h1, live)" by simp
  from inv have r: "rinv ?s" and l4: "\<forall>e\<in>set live. 4 \<le> fst e" by (auto simp: kinv_def)
  have wr: "writable (map centry live) x" if "?W x" for x using kwritable_writable [OF that l4] .
  from step_write [OF r, of ?f ?g ?i] obtain s1 where s1: "bstep (BWrite ?f ?g ?i) ?s = Some s1" "rinv s1" .
  have "s1 = (buddy.truncate h1, map centry live)"
    using s1(1) h1 wr by (auto simp: buddy.defs fun_eq_iff)
  with s1(2) have "rinv (buddy.truncate h1, map centry live)" by simp
  moreover have "words h1 (a - 4) = sz" if e: "(a, sz) \<in> set live" for a sz
  proof -
    have "\<not> ?W (a - 4)"
    proof
      assume "?W (a - 4)"
      then obtain a' sz' where e': "(a', sz') \<in> set live" "a' \<le> a - 4" "a - 4 + 4 \<le> a' + unat sz'"
        by (auto simp: kwritable_def list_ex_iff)
      with kentryD(1) [OF inv e] have "(a, sz) \<noteq> (a', sz')" "a - 4 \<in> {a - 4..<a + unat sz} \<inter> {a' - 4..<a' + unat sz'}" by auto
      with kentries_disj [OF inv e e'(1)] show False by blast
    qed
    with h1 kentryD(2) [OF inv e] show ?thesis by auto
  qed
  ultimately have "kinv (h1, live)" using inv by (auto simp: kinv_def)
  with h1 show ?thesis by blast
qed

lemma krun_ok:
  assumes "kinv s" and "kok cs s"
  shows "\<exists>s'. krun cs s = Some s' \<and> kinv s'"
  using assms
proof (induction cs arbitrary: s)
  case (Cons c cs)
  obtain h live where s: "s = (h, live)" by (cases s)
  have inv: "kinv (h, live)" and ok: "kcall_ok c (h, live)" using Cons.prems s by simp_all
  have "\<exists>s1. kstep c (h, live) = Some s1 \<and> kinv s1"
  proof (cases c)
    case (KFree k)
    with inv kfree_ok [OF inv, of k] show ?thesis by (cases "k < length live") auto
  qed (use ok kstep_malloc [OF inv] kstep_realloc [OF inv] kstep_write [OF inv] in \<open>simp_all del: kstep.simps\<close>)
  then obtain s1 where s1: "kstep c s = Some s1" "kinv s1" unfolding s by blast
  with Cons.prems(2) have "kok cs s1" by simp
  from Cons.IH [OF s1(2) this] s1(1) show ?case by simp
qed simp

lemma kinv_init: "kinv (kheap0 f g i w, [])"
proof -
  have "buddy.truncate (kheap0 f g i w) = buddy0 f g i" by (simp add: kheap0_def buddy.defs kheap.defs)
  then show ?thesis using rinv_init by (simp add: kinv_def)
qed

section \<open>Properties\<close>


lemma krun_example:
  obtains h where "kok [KMalloc 100 (Some 65536)] (kheap0 f g i w, [])"
    "krun [KMalloc 100 (Some 65536)] (kheap0 f g i w, []) = Some (h, [(65544, 100)])" "exec_owned h = [(65536, 1)]"
proof -
  let ?s = "(kheap0 f g i w, []) :: kheap \<times> kentry list"
  have t: "buddy.truncate (kheap0 f g i w) = buddy0 f g i" by (simp add: kheap0_def buddy.defs kheap.defs)
  have l: "\<not> large 104" by (simp add: large_def at_least_min_def)
  have r4: "round4 100 = 100" by (simp add: round4_def)
  from first_alloc [OF l, of 1 65536 f g i] obtain st
    where st: "b_alloc 104 1 (Some 65536) (buddy0 f g i) = Some (Some 65540, st)" "exec_owned st = [(65536, 1)]"
    by (auto split: option.splits)
  have "kok [KMalloc 100 (Some 65536)] ?s"
    by (simp add: kfresh_def t r4 exec_fresh_def exec_ranges_def l buddy0_def init_buddy_def split: option.split)
  moreover have "krun [KMalloc 100 (Some 65536)] ?s = Some ((with_buddy (kheap0 f g i w) st)\<lparr>words := (words (kheap0 f g i w))(65540 := 100)\<rparr>, [(65544, 100)])"
    using st(1) by (simp add: kmalloc_def t r4)
  ultimately show thesis by (rule that) (use st(2) in simp)
qed


text \<open>
  C25. \<open>krealloc\<close> keeps the contents: wherever the area is after the call, it holds what the old one held.
\<close>

theorem krealloc_keeps:
  assumes "kok calls (kheap0 f g i w, [])" and "krun calls (kheap0 f g i w, []) = Some (h, live)"
    and "k < length live" and "kcall_ok (KRealloc k sz mem) (h, live)"
    and "krealloc (Some (fst (live ! k))) sz mem h = Some (Some b, h2)" and "n < unat (snd (live ! k))"
  shows "words h2 (b + n) = words h (fst (live ! k) + n)"
proof -
  from krun_ok [OF kinv_init assms(1)] assms(2) have inv: "kinv (h, live)" by simp
  obtain a old where e: "live ! k = (a, old)" by (cases "live ! k")
  from assms(4) have ok: "kfresh sz mem h live" by simp
  from inv ok assms(3) e show ?thesis by (cases rule: krealloc_cases) (use assms(5,6) e in auto)
qed

theorem krealloc_keeps_witness:
  "\<exists>h live b h2. krun [KMalloc 100 (Some 65536)] (kheap0 (\<lambda>_. 0) id (\<lambda>_. 0) (\<lambda>_. 0), []) = Some (h, live) \<and>
     krealloc (Some (fst (live ! 0))) 5000 (Some 131072) h = Some (Some b, h2) \<and>
     words h2 (b + 96) = words h (fst (live ! 0) + 96)"
proof (rule krun_example [of "\<lambda>_. 0" id "\<lambda>_. 0" "\<lambda>_. 0"])
  let ?s = "(kheap0 (\<lambda>_. 0) id (\<lambda>_. 0) (\<lambda>_. 0), []) :: kheap \<times> kentry list"
  fix h assume k: "kok [KMalloc 100 (Some 65536)] ?s" "krun [KMalloc 100 (Some 65536)] ?s = Some (h, [(65544, 100)])"
    and o: "exec_owned h = [(65536, 1)]"
  have r4: "round4 5000 = 5000" by (simp add: round4_def)
  have l: "large 5004" "\<not> large 104" by (simp_all add: large_def at_least_min_def)
  have "exec_owned (buddy.truncate h) = [(65536, 1)]" using o by (simp add: buddy.defs)
  then have ok: "kcall_ok (KRealloc 0 5000 (Some 131072)) (h, [(65544, 100)])"
    by (simp add: kfresh_def r4 exec_fresh_def exec_ranges_def l)
  from krun_ok [OF kinv_init k(1)] k(2) have inv: "kinv (h, [(65544, 100)])" by simp
  have w: "words h 65540 = 100" using kentryD(2) [OF inv, of 65544 100] by simp
  from inv ok have "krealloc (Some 65544) 5000 (Some 131072) h \<noteq> Some (None, h2)" for h2
    using w by (simp add: krealloc_def r4 b_alloc_def at_least_min_def bind_eq_Some_conv)
  moreover from kstep_realloc [OF inv, of 5000 "Some 131072" 0] ok
  obtain r h2 where r: "krealloc (Some 65544) 5000 (Some 131072) h = Some (r, h2)" by (auto simp: bind_eq_Some_conv)
  ultimately obtain b where b: "krealloc (Some 65544) 5000 (Some 131072) h = Some (Some b, h2)" by (cases r) auto
  from krealloc_keeps [OF k _ ok, of b h2 96] b k(2) show ?thesis by auto
qed

text \<open>
  Rounding a size up wraps around: a request for nearly 4G of memory is served as a request
  for none.
\<close>

theorem kmalloc_wraps: "kmalloc 0xFFFFFFFD mem h = kmalloc 0 mem h"
proof -
  have r: "round4 0xFFFFFFFD = round4 0" by code_simp
  show ?thesis unfolding kmalloc_def r ..
qed

end
