(* ===== verification/Ix_Msg.thy ===== *)
theory Ix_Msg
  imports Ix_Ipc
begin

text \<open>
  System V message queues: \<open>library/sysv_msg.c\<close> with \<open>include/sys/msg.h\<close>.  The tables \<open>msgmaps\<close>,
  \<open>msghdrs\<close>, \<open>msqids\<close> and the pool are functions of the index; the code never leaves them, as it tests the
  indices it follows and panics.  A pointer to a header is its index, the null pointer \<open>None\<close>.  The
  calls run under \<open>Forbid\<close>, so each piece of code between two sleeps is one function; a call that
  goes to sleep returns what it keeps, and what runs after the sleep is a function of its own.
  The loops that follow the links of a queue are partial; \<open>None\<close> is a call that does not return.
\<close>

abbreviation (input) MSGSSZ :: nat where "MSGSSZ \<equiv> 8"
abbreviation (input) MSGSEG :: nat where "MSGSEG \<equiv> 2048"
abbreviation (input) MSGMNB :: u32 where "MSGMNB \<equiv> 2048"
abbreviation (input) MSGMNI :: nat where "MSGMNI \<equiv> 40"
abbreviation (input) MSGTQL :: nat where "MSGTQL \<equiv> 40"
abbreviation (input) MSG_LOCKED :: u16 where "MSG_LOCKED \<equiv> 0x200"
abbreviation (input) MSG_NOERROR :: int where "MSG_NOERROR \<equiv> 0x1000"
abbreviation (input) MSG_NOWAIT :: int where "MSG_NOWAIT \<equiv> 0x800"

section \<open>Data\<close>

record msg =
  msg_next :: "nat option"
  msg_type :: int
  msg_ts :: u16
  msg_spot :: int

record msqid_ds =
  msg_perm :: ipc_perm
  msg_first :: "nat option"
  msg_last :: "nat option"
  msg_cbytes :: u32
  msg_qnum :: u32
  msg_qbytes :: u32
  msg_lspid :: nat
  msg_lrpid :: nat
  msg_stime :: int
  msg_rtime :: int
  msg_ctime :: int

record msg_sys =
  nfree_msgmaps :: int
  free_msgmaps :: int
  free_msghdrs :: "nat option"
  msgpool :: "nat \<Rightarrow> u8"
  msgmaps :: "nat \<Rightarrow> int"
  msghdrs :: "nat \<Rightarrow> msg"
  msqids :: "nat \<Rightarrow> msqid_ds"
  msg_errno :: int
  msg_wakes :: "nat list"

text \<open>What a sleeping call keeps: the queue, and for a sender whether it has locked it.\<close>

datatype msg_out = MsgRet int msg_sys | SndSleep nat bool msg_sys | RcvSleep nat msg_sys
  | MsgGot int int "u8 list" msg_sys

definition msg_error :: "int \<Rightarrow> msg_sys \<Rightarrow> msg_out" where
  "msg_error e st = MsgRet (-1) (st\<lparr>msg_errno := e\<rparr>)"

definition set_hdr :: "nat \<Rightarrow> msg \<Rightarrow> msg_sys \<Rightarrow> msg_sys" where
  "set_hdr h m st = st\<lparr>msghdrs := (msghdrs st)(h := m)\<rparr>"

definition set_queue :: "nat \<Rightarrow> msqid_ds \<Rightarrow> msg_sys \<Rightarrow> msg_sys" where
  "set_queue q ds st = st\<lparr>msqids := (msqids st)(q := ds)\<rparr>"

definition msg_wakeup :: "nat \<Rightarrow> msg_sys \<Rightarrow> msg_sys" where
  "msg_wakeup q st = st\<lparr>msg_wakes := msg_wakes st @ [q]\<rparr>"

definition msg_locked :: "msqid_ds \<Rightarrow> bool" where
  "msg_locked ds \<longleftrightarrow> mode (msg_perm ds) AND MSG_LOCKED \<noteq> 0"

definition lock_queue :: "nat \<Rightarrow> msg_sys \<Rightarrow> msg_sys" where
  "lock_queue q st =
     (let ds = msqids st q in set_queue q (ds\<lparr>msg_perm := (msg_perm ds)\<lparr>mode := mode (msg_perm ds) OR MSG_LOCKED\<rparr>\<rparr>) st)"

definition unlock_queue :: "nat \<Rightarrow> msg_sys \<Rightarrow> msg_sys" where
  "unlock_queue q st =
     (let ds = msqids st q in set_queue q (ds\<lparr>msg_perm := (msg_perm ds)\<lparr>mode := mode (msg_perm ds) AND NOT MSG_LOCKED\<rparr>\<rparr>) st)"

section \<open>Initialisation\<close>

definition msginit_map :: "nat \<Rightarrow> (nat \<Rightarrow> int) \<Rightarrow> nat \<Rightarrow> int" where
  "msginit_map i m = (if 0 < i then m(i - 1 := int i) else m)(i := -1)"

definition msginit_hdr :: "nat \<Rightarrow> (nat \<Rightarrow> msg) \<Rightarrow> nat \<Rightarrow> msg" where
  "msginit_hdr i m =
     (let m1 = m(i := (m i)\<lparr>msg_type := 0\<rparr>);
          m2 = (if 0 < i then m1(i - 1 := (m1 (i - 1))\<lparr>msg_next := Some i\<rparr>) else m1)
      in m2(i := (m2 i)\<lparr>msg_next := None\<rparr>))"

definition msginit_queue :: "nat \<Rightarrow> (nat \<Rightarrow> msqid_ds) \<Rightarrow> nat \<Rightarrow> msqid_ds" where
  "msginit_queue i m = m(i := (m i)\<lparr>msg_qbytes := 0, msg_perm := (msg_perm (m i))\<lparr>seq := 0\<rparr>\<rparr>)"

definition msginit :: "msg_sys \<Rightarrow> msg_sys" where
  "msginit st = st\<lparr>msgmaps := fold msginit_map [0..<MSGSEG] (msgmaps st), free_msgmaps := 0,
     nfree_msgmaps := int MSGSEG, msghdrs := fold msginit_hdr [0..<MSGTQL] (msghdrs st), free_msghdrs := Some 0,
     msqids := fold msginit_queue [0..<MSGMNI] (msqids st)\<rparr>"

section \<open>Freeing a message\<close>

function msg_freesegs :: "u16 \<Rightarrow> int \<Rightarrow> msg_sys \<Rightarrow> (int \<times> msg_sys) exec" where
  "msg_freesegs ts spot st =
     (if 0 < ts
      then if spot < 0 \<or> int MSGSEG \<le> spot then Panic ''msghdr->msg_spot out of range''
           else msg_freesegs (if 8 \<le> ts then ts - 8 else 0) (msgmaps st (nat spot))
                  (st\<lparr>msgmaps := (msgmaps st)(nat spot := free_msgmaps st), free_msgmaps := spot,
                      nfree_msgmaps := nfree_msgmaps st + 1\<rparr>)
      else Ok (spot, st))"
  by pat_completeness auto
termination
  by (relation "measure (\<lambda>(ts, spot, st). unat ts)") (auto simp: word_less_nat_alt word_le_nat_alt unat_sub_if')

declare msg_freesegs.simps [simp del]

definition msg_freehdr :: "nat \<Rightarrow> msg_sys \<Rightarrow> msg_sys exec" where
  "msg_freehdr h st =
     exec_bind (msg_freesegs (msg_ts (msghdrs st h)) (msg_spot (msghdrs st h)) st) (\<lambda>(spot, st1).
       if spot \<noteq> -1 then Panic ''msghdr->msg_spot != -1''
       else Ok ((set_hdr h ((msghdrs st1 h)\<lparr>msg_ts := 0, msg_spot := spot, msg_next := free_msghdrs st1\<rparr>) st1)
                  \<lparr>free_msghdrs := Some h\<rparr>))"

section \<open>msgctl\<close>

text \<open>The checks all three calls start with: index, allocation, sequence number of the index.\<close>

definition msq_bad :: "int \<Rightarrow> msg_sys \<Rightarrow> bool" where
  "msq_bad ix st \<longleftrightarrow> ix < 0 \<or> int MSGMNI \<le> ix \<or> msg_qbytes (msqids st (nat ix)) = 0 \<or>
     uint (seq (msg_perm (msqids st (nat ix)))) \<noteq> IPCID_TO_SEQ ix"

text \<open>The loop of \<open>IPC_RMID\<close> over the messages of the queue.\<close>

partial_function (option) msg_rmloop :: "nat \<Rightarrow> nat option \<Rightarrow> msg_sys \<Rightarrow> msg_sys exec option" where
  "msg_rmloop q msghdr st =
     (case msghdr of
        None \<Rightarrow> Some (Ok st)
      | Some h \<Rightarrow>
          let ds = msqids st q;
              st1 = set_queue q (ds\<lparr>msg_cbytes := msg_cbytes ds - ucast (msg_ts (msghdrs st h)), msg_qnum := msg_qnum ds - 1\<rparr>) st
          in case msg_freehdr h st1 of
               Ok st2 \<Rightarrow> msg_rmloop q (msg_next (msghdrs st1 h)) st2
             | Panic m \<Rightarrow> Some (Panic m)
             | Wild \<Rightarrow> Some Wild)"

datatype msg_cmd = IPC_RMID | IPC_SET | IPC_STAT | IPC_OTHER

definition msg_rmid :: "nat \<Rightarrow> msg_sys \<Rightarrow> msg_sys exec option" where
  "msg_rmid q st =
     map_option (\<lambda>r. exec_bind r (\<lambda>st1.
       if msg_cbytes (msqids st1 q) \<noteq> 0 then Panic ''msg_cbytes is screwed up''
       else if msg_qnum (msqids st1 q) \<noteq> 0 then Panic ''msg_qnum is screwed up''
       else Ok (msg_wakeup q (set_queue q ((msqids st1 q)\<lparr>msg_qbytes := 0\<rparr>) st1))))
     (msg_rmloop q (msg_first (msqids st q)) st)"

definition msg_ipcset :: "int \<Rightarrow> nat \<Rightarrow> msqid_ds \<Rightarrow> msg_sys \<Rightarrow> msg_sys" where
  "msg_ipcset now q buf st =
     (let ds = msqids st q; pm = msg_perm ds; um = msg_perm buf
      in set_queue q (ds\<lparr>msg_perm := pm\<lparr>uid := uid um, gid := gid um,
           mode := (mode pm AND NOT 0x1ff) OR (mode um AND 0x1ff)\<rparr>,
           msg_qbytes := msg_qbytes buf, msg_ctime := now\<rparr>) st)"

text \<open>The result, the caller's buffer and the state after \<open>ix_msgctl\<close>.\<close>

definition ix_msgctl :: "ucred \<Rightarrow> int \<Rightarrow> int \<Rightarrow> msg_cmd \<Rightarrow> msqid_ds \<Rightarrow> msg_sys \<Rightarrow> (int \<times> msqid_ds \<times> msg_sys) exec option" where
  "ix_msgctl cred now msqid cmd buf st =
     (let ix = IPCID_TO_IX msqid; q = nat ix; err = (\<lambda>e b. Some (Ok (-1, b, st\<lparr>msg_errno := e\<rparr>)))
      in if msq_bad ix st then err EINVAL buf
         else case cmd of
           IPC_RMID \<Rightarrow>
             if ipcperm cred (msg_perm (msqids st q)) IPC_M \<noteq> 0 then err (ipcperm cred (msg_perm (msqids st q)) IPC_M) buf
             else map_option (\<lambda>r. exec_bind r (\<lambda>st1. Ok (0, buf, st1))) (msg_rmid q st)
         | IPC_SET \<Rightarrow>
             if ipcperm cred (msg_perm (msqids st q)) IPC_M \<noteq> 0 then err (ipcperm cred (msg_perm (msqids st q)) IPC_M) buf
             else if msg_qbytes (msqids st q) < msg_qbytes buf \<and> cr_uid cred \<noteq> 0 then err EPERM buf
             else let buf1 = (if MSGMNB < msg_qbytes buf then buf\<lparr>msg_qbytes := MSGMNB\<rparr> else buf)
                  in if msg_qbytes buf1 = 0 then err EINVAL buf1 else Some (Ok (0, buf1, msg_ipcset now q buf1 st))
         | IPC_STAT \<Rightarrow>
             if ipcperm cred (msg_perm (msqids st q)) IPC_R \<noteq> 0 then err (ipcperm cred (msg_perm (msqids st q)) IPC_R) buf
             else Some (Ok (0, msqids st q, st))
         | IPC_OTHER \<Rightarrow> err EINVAL buf)"

section \<open>msgget\<close>

definition msg_create :: "ucred \<Rightarrow> int \<Rightarrow> int \<Rightarrow> int \<Rightarrow> msqid_ds \<Rightarrow> msqid_ds" where
  "msg_create cred now ky msgflg ds =
     ds\<lparr>msg_perm := (msg_perm ds)\<lparr>key := ky, cuid := cr_uid cred, uid := cr_uid cred, cgid := cr_gid cred, gid := cr_gid cred,
          mode := word_of_int (msgflg AND 0x1ff), seq := seq (msg_perm ds) + 1\<rparr>,
        msg_first := None, msg_last := None, msg_cbytes := 0, msg_qnum := 0, msg_qbytes := MSGMNB,
        msg_lspid := 0, msg_lrpid := 0, msg_stime := 0, msg_rtime := 0, msg_ctime := now\<rparr>"

definition ix_msgget :: "ucred \<Rightarrow> int \<Rightarrow> int \<Rightarrow> int \<Rightarrow> msg_sys \<Rightarrow> msg_out" where
  "ix_msgget cred now ky msgflg st =
     (let queues = map (msqids st) [0..<MSGMNI];
          create = (if ky = IPC_PRIVATE \<or> msgflg AND IPC_CREAT \<noteq> 0
                    then case scan (\<lambda>ds. msg_qbytes ds = 0 \<and> \<not> msg_locked ds) 0 queues of
                           None \<Rightarrow> msg_error ENOSPC st
                         | Some q \<Rightarrow>
                             let ds = msg_create cred now ky msgflg (msqids st q)
                             in MsgRet (IXSEQ_TO_IPCID (int q) (msg_perm ds)) (set_queue q ds st)
                    else msg_error ENOENT st)
      in if ky \<noteq> IPC_PRIVATE
         then case scan (\<lambda>ds. msg_qbytes ds \<noteq> 0 \<and> key (msg_perm ds) = ky) 0 queues of
                Some q \<Rightarrow>
                  let perm = msg_perm (msqids st q); eval = ipcperm cred perm (msgflg AND 0x1c0)
                  in if msgflg AND IPC_CREAT \<noteq> 0 \<and> msgflg AND IPC_EXCL \<noteq> 0 then msg_error EEXIST st
                     else if eval \<noteq> 0 then msg_error eval st
                     else MsgRet (IXSEQ_TO_IPCID (int q) perm) st
              | None \<Rightarrow> create
         else create)"

section \<open>msgsnd\<close>

text \<open>The loop that allocates segments and links them to the header.\<close>

fun msg_alloc :: "nat \<Rightarrow> int \<Rightarrow> msg_sys \<Rightarrow> (int \<times> msg_sys) exec" where
  "msg_alloc 0 spot st = Ok (spot, st)"
| "msg_alloc (Suc segs_needed) spot st =
     (if nfree_msgmaps st \<le> 0 then Panic ''not enough msgmaps''
      else if free_msgmaps st = -1 then Panic ''nil free_msgmaps''
      else if free_msgmaps st \<le> -1 then Panic ''next too low #1''
      else if int MSGSEG \<le> free_msgmaps st then Panic ''next out of range #1''
      else let n = free_msgmaps st
           in msg_alloc segs_needed n
                (st\<lparr>free_msgmaps := msgmaps st (nat n), nfree_msgmaps := nfree_msgmaps st - 1,
                    msgmaps := (msgmaps st)(nat n := spot)\<rparr>))"

text \<open>The loop that copies the message body into its segments; \<open>body\<close> is the user's memory after the type.\<close>

definition pool_write :: "nat \<Rightarrow> nat \<Rightarrow> (nat \<Rightarrow> u8) \<Rightarrow> (nat \<Rightarrow> u8) \<Rightarrow> nat \<Rightarrow> u8" where
  "pool_write at n src pool = (\<lambda>x. if at \<le> x \<and> x < at + n then src (x - at) else pool x)"

function msg_copyin :: "nat \<Rightarrow> int \<Rightarrow> (nat \<Rightarrow> u8) \<Rightarrow> msg_sys \<Rightarrow> (int \<times> msg_sys) exec" where
  "msg_copyin msgsz n body st =
     (if 0 < msgsz
      then let tlen = (if MSGSSZ < msgsz then MSGSSZ else msgsz)
           in if n \<le> -1 then Panic ''next too low #2''
              else if int MSGSEG \<le> n then Panic ''next out of range #2''
              else msg_copyin (msgsz - tlen) (msgmaps st (nat n)) (\<lambda>x. body (tlen + x))
                     (st\<lparr>msgpool := pool_write (nat n * MSGSSZ) tlen body (msgpool st)\<rparr>)
      else Ok (n, st))"
  by pat_completeness auto
termination
  by (relation "measure (\<lambda>(msgsz, n, body, st). msgsz)") auto

declare msg_copyin.simps [simp del]

text \<open>The message joins the queue.\<close>

definition msg_enqueue :: "nat \<Rightarrow> nat \<Rightarrow> nat \<Rightarrow> int \<Rightarrow> msg_sys \<Rightarrow> msg_sys exec" where
  "msg_enqueue p q h now st =
     (let ds = msqids st q
      in exec_bind
           (case msg_first ds of
              None \<Rightarrow> Ok (set_queue q (ds\<lparr>msg_first := Some h, msg_last := Some h\<rparr>) st)
            | Some _ \<Rightarrow>
                (case msg_last ds of
                   None \<Rightarrow> Wild
                 | Some l \<Rightarrow> Ok (set_queue q (ds\<lparr>msg_last := Some h\<rparr>) (set_hdr l ((msghdrs st l)\<lparr>msg_next := Some h\<rparr>) st))))
           (\<lambda>st1. let st2 = set_hdr h ((msghdrs st1 h)\<lparr>msg_next := None\<rparr>) st1; ds2 = msqids st2 q
                  in Ok (msg_wakeup q (set_queue q (ds2\<lparr>msg_cbytes := msg_cbytes ds2 + ucast (msg_ts (msghdrs st2 h)),
                       msg_qnum := msg_qnum ds2 + 1, msg_lspid := p, msg_stime := now\<rparr>) st2))))"

text \<open>What follows the loop that waits for resources.\<close>

definition msgsnd_put :: "nat \<Rightarrow> int \<Rightarrow> nat \<Rightarrow> nat \<Rightarrow> u32 \<Rightarrow> int \<Rightarrow> (nat \<Rightarrow> u8) \<Rightarrow> msg_sys \<Rightarrow> msg_out exec" where
  "msgsnd_put p now q segs_needed msgsz mtyp body st =
     (if msg_locked (msqids st q) then Panic ''msg_perm.mode & MSG_LOCKED''
      else if nfree_msgmaps st < int segs_needed then Panic ''segs_needed > nfree_msgmaps''
      else if msg_qbytes (msqids st q) < msgsz + msg_cbytes (msqids st q) then Panic ''msgsz + msg_cbytes > msg_qbytes''
      else case free_msghdrs st of
        None \<Rightarrow> Panic ''no more msghdrs''
      | Some h \<Rightarrow>
          let st1 = lock_queue q st;
              st2 = st1\<lparr>free_msghdrs := msg_next (msghdrs st1 h)\<rparr>
          in exec_bind (msg_alloc segs_needed (-1) st2) (\<lambda>(spot, st3).
               let st4 = set_hdr h ((msghdrs st3 h)\<lparr>msg_ts := ucast msgsz, msg_spot := spot, msg_type := mtyp\<rparr>) st3
               in if mtyp < 1
                  then exec_bind (msg_freehdr h st4) (\<lambda>st5. Ok (msg_error EINVAL (msg_wakeup q (unlock_queue q st5))))
                  else exec_bind (msg_copyin (unat msgsz) spot body st4) (\<lambda>(n, st5).
                         if n \<noteq> -1 then Panic ''didn't use all the msg segments''
                         else let st6 = unlock_queue q st5
                              in if msg_qbytes (msqids st6 q) = 0
                                 then exec_bind (msg_freehdr h st6) (\<lambda>st7. Ok (msg_error EINVAL (msg_wakeup q st7)))
                                 else exec_bind (msg_enqueue p q h now st6) (\<lambda>st7. Ok (MsgRet 0 st7)))))"

text \<open>One turn of the loop; a sender that finds the queue unlocked locks it before it sleeps.\<close>

definition msg_segs :: "u32 \<Rightarrow> nat" where
  "msg_segs msgsz = unat ((msgsz + 7) div 8)"

definition msgsnd_needs :: "nat \<Rightarrow> u32 \<Rightarrow> msg_sys \<Rightarrow> bool" where
  "msgsnd_needs q msgsz st \<longleftrightarrow>
     msg_locked (msqids st q) \<or> msg_qbytes (msqids st q) < msgsz + msg_cbytes (msqids st q) \<or>
     nfree_msgmaps st < int (msg_segs msgsz) \<or> free_msghdrs st = None"

definition msgsnd_turn :: "nat \<Rightarrow> int \<Rightarrow> nat \<Rightarrow> u32 \<Rightarrow> int \<Rightarrow> int \<Rightarrow> (nat \<Rightarrow> u8) \<Rightarrow> msg_sys \<Rightarrow> msg_out exec" where
  "msgsnd_turn p now q msgsz msgflg mtyp body st =
     (if msg_qbytes (msqids st q) < msgsz then Ok (msg_error EINVAL st)
      else if msgsnd_needs q msgsz st
      then if msgflg AND MSG_NOWAIT \<noteq> 0 then Ok (msg_error EAGAIN st)
           else if msg_locked (msqids st q) then Ok (SndSleep q False st)
           else Ok (SndSleep q True (lock_queue q st))
      else msgsnd_put p now q (msg_segs msgsz) msgsz mtyp body st)"

definition ix_msgsnd :: "ucred \<Rightarrow> nat \<Rightarrow> int \<Rightarrow> int \<Rightarrow> u32 \<Rightarrow> int \<Rightarrow> int \<Rightarrow> (nat \<Rightarrow> u8) \<Rightarrow> msg_sys \<Rightarrow> msg_out exec" where
  "ix_msgsnd cred p now msqid msgsz msgflg mtyp body st =
     (let ix = IPCID_TO_IX msqid; q = nat ix; eval = ipcperm cred (msg_perm (msqids st q)) IPC_W
      in if msq_bad ix st then Ok (msg_error EINVAL st)
         else if eval \<noteq> 0 then Ok (msg_error eval st)
         else msgsnd_turn p now q msgsz msgflg mtyp body st)"

text \<open>After the sleep: \<open>eval\<close> is what \<open>ix_sleep\<close> returned.\<close>

definition msgsnd_woken :: "nat \<Rightarrow> int \<Rightarrow> nat \<Rightarrow> bool \<Rightarrow> int \<Rightarrow> u32 \<Rightarrow> int \<Rightarrow> int \<Rightarrow> (nat \<Rightarrow> u8) \<Rightarrow> msg_sys \<Rightarrow> msg_out exec" where
  "msgsnd_woken p now q own eval msgsz msgflg mtyp body st =
     (let st1 = (if own then unlock_queue q st else st)
      in if eval \<noteq> 0 then Ok (msg_error EINTR st1)
         else if msg_qbytes (msqids st1 q) = 0 then Ok (msg_error EINVAL st1)
         else msgsnd_turn p now q msgsz msgflg mtyp body st1)"

section \<open>msgrcv\<close>

text \<open>The place a pointer to a header is kept: \<open>&msqptr->msg_first\<close> or \<open>&msghdr->msg_next\<close>.\<close>

datatype slot = FirstSlot | NextSlot nat

definition slot_get :: "nat \<Rightarrow> slot \<Rightarrow> msg_sys \<Rightarrow> nat option" where
  "slot_get q s st = (case s of FirstSlot \<Rightarrow> msg_first (msqids st q) | NextSlot h \<Rightarrow> msg_next (msghdrs st h))"

definition slot_put :: "nat \<Rightarrow> slot \<Rightarrow> nat option \<Rightarrow> msg_sys \<Rightarrow> msg_sys" where
  "slot_put q s v st =
     (case s of
        FirstSlot \<Rightarrow> set_queue q ((msqids st q)\<lparr>msg_first := v\<rparr>) st
      | NextSlot h \<Rightarrow> set_hdr h ((msghdrs st h)\<lparr>msg_next := v\<rparr>) st)"

definition msg_matches :: "int \<Rightarrow> msg \<Rightarrow> bool" where
  "msg_matches msgtyp m \<longleftrightarrow> msgtyp = msg_type m \<or> msg_type m \<le> s32 (- msgtyp)"

partial_function (option) msg_search :: "nat \<Rightarrow> int \<Rightarrow> msg_sys \<Rightarrow> nat option \<Rightarrow> slot \<Rightarrow> (nat option \<times> slot \<times> nat option) option" where
  "msg_search q msgtyp st previous prev =
     (case slot_get q prev st of
        None \<Rightarrow> Some (previous, prev, None)
      | Some h \<Rightarrow>
          if msg_matches msgtyp (msghdrs st h) then Some (previous, prev, Some h)
          else msg_search q msgtyp st (Some h) (NextSlot h))"

definition msg_toobig :: "u32 \<Rightarrow> int \<Rightarrow> msg \<Rightarrow> bool" where
  "msg_toobig msgsz msgflg m \<longleftrightarrow> msgsz < ucast (msg_ts m) \<and> msgflg AND MSG_NOERROR = 0"

text \<open>Taking the message found out of the queue.\<close>

definition msg_unlink_first :: "nat \<Rightarrow> nat \<Rightarrow> msg_sys \<Rightarrow> msg_sys exec" where
  "msg_unlink_first q h st =
     (let ds = msqids st q
      in if msg_first ds = msg_last ds then Ok (set_queue q (ds\<lparr>msg_first := None, msg_last := None\<rparr>) st)
         else if msg_next (msghdrs st h) = None then Panic ''msg_first/last screwed up #1''
         else Ok (set_queue q (ds\<lparr>msg_first := msg_next (msghdrs st h)\<rparr>) st))"

definition msg_unlink_at :: "nat \<Rightarrow> nat option \<Rightarrow> slot \<Rightarrow> nat \<Rightarrow> msg_sys \<Rightarrow> msg_sys exec" where
  "msg_unlink_at q previous prev h st =
     (let st1 = slot_put q prev (msg_next (msghdrs st h)) st; ds = msqids st1 q
      in if msg_last ds = Some h
         then case previous of
                None \<Rightarrow>
                  if prev \<noteq> FirstSlot then Panic ''msg_first/last screwed up #2''
                  else Ok (set_queue q (ds\<lparr>msg_first := None, msg_last := None\<rparr>) st1)
              | Some l \<Rightarrow>
                  if prev = FirstSlot then Panic ''msg_first/last screwed up #3''
                  else Ok (set_queue q (ds\<lparr>msg_last := Some l\<rparr>) st1)
         else Ok st1)"

text \<open>The loop that copies the segments to the user: the bytes it writes to the buffer, one after the other.
  The length of a piece is computed from the whole length \<open>msgsz\<close>, not from what is left.\<close>

function msg_copyout :: "nat \<Rightarrow> nat \<Rightarrow> int \<Rightarrow> msg_sys \<Rightarrow> u8 list exec" where
  "msg_copyout len msgsz n st =
     (if len < msgsz
      then let tlen = (if MSGSSZ < msgsz then MSGSSZ else msgsz)
           in if n \<le> -1 then Panic ''next too low #3''
              else if int MSGSEG \<le> n then Panic ''next out of range #3''
              else exec_bind (msg_copyout (len + MSGSSZ) msgsz (msgmaps st (nat n)) st) (\<lambda>rest.
                     Ok (map (\<lambda>j. msgpool st (nat n * MSGSSZ + j)) [0..<tlen] @ rest))
      else Ok [])"
  by pat_completeness auto
termination
  by (relation "measure (\<lambda>(len, msgsz, n, st). msgsz - len)") auto

declare msg_copyout.simps [simp del]

definition msgrcv_take :: "nat \<Rightarrow> int \<Rightarrow> nat \<Rightarrow> nat \<Rightarrow> u32 \<Rightarrow> msg_sys \<Rightarrow> msg_out exec" where
  "msgrcv_take p now q h msgsz st =
     (let ds = msqids st q; m = msghdrs st h;
          st1 = set_queue q (ds\<lparr>msg_cbytes := msg_cbytes ds - ucast (msg_ts m), msg_qnum := msg_qnum ds - 1,
                                msg_lrpid := p, msg_rtime := now\<rparr>) st;
          sz = (if ucast (msg_ts m) < msgsz then ucast (msg_ts m) else msgsz)
      in exec_bind (msg_copyout 0 (unat sz) (msg_spot m) st1) (\<lambda>out.
           exec_bind (msg_freehdr h st1) (\<lambda>st2.
             Ok (MsgGot (int (unat sz)) (msg_type m) out (msg_wakeup q st2)))))"

definition msgrcv_turn :: "nat \<Rightarrow> int \<Rightarrow> nat \<Rightarrow> u32 \<Rightarrow> int \<Rightarrow> int \<Rightarrow> msg_sys \<Rightarrow> msg_out exec option" where
  "msgrcv_turn p now q msgsz msgtyp msgflg st =
     (let nothing = (if msgflg AND MSG_NOWAIT \<noteq> 0 then msg_error EAGAIN st else RcvSleep q st)
      in if msgtyp = 0
         then case msg_first (msqids st q) of
                None \<Rightarrow> Some (Ok nothing)
              | Some h \<Rightarrow>
                  if msg_toobig msgsz msgflg (msghdrs st h) then Some (Ok (msg_error E2BIG st))
                  else Some (exec_bind (msg_unlink_first q h st) (\<lambda>st1. msgrcv_take p now q h msgsz st1))
         else map_option (\<lambda>(previous, prev, r).
                case r of
                  None \<Rightarrow> Ok nothing
                | Some h \<Rightarrow>
                    if msg_toobig msgsz msgflg (msghdrs st h) then Ok (msg_error E2BIG st)
                    else exec_bind (msg_unlink_at q previous prev h st) (\<lambda>st1. msgrcv_take p now q h msgsz st1))
              (msg_search q msgtyp st None FirstSlot))"

definition ix_msgrcv :: "ucred \<Rightarrow> nat \<Rightarrow> int \<Rightarrow> int \<Rightarrow> u32 \<Rightarrow> int \<Rightarrow> int \<Rightarrow> msg_sys \<Rightarrow> msg_out exec option" where
  "ix_msgrcv cred p now msqid msgsz msgtyp msgflg st =
     (let ix = IPCID_TO_IX msqid; q = nat ix; eval = ipcperm cred (msg_perm (msqids st q)) IPC_R
      in if msq_bad ix st then Some (Ok (msg_error EINVAL st))
         else if eval \<noteq> 0 then Some (Ok (msg_error eval st))
         else msgrcv_turn p now q msgsz msgtyp msgflg st)"

definition msgrcv_woken :: "nat \<Rightarrow> int \<Rightarrow> nat \<Rightarrow> int \<Rightarrow> u32 \<Rightarrow> int \<Rightarrow> int \<Rightarrow> msg_sys \<Rightarrow> msg_out exec option" where
  "msgrcv_woken p now q eval msgsz msgtyp msgflg st =
     (if eval \<noteq> 0 then Some (Ok (msg_error EINTR st))
      else if msg_qbytes (msqids st q) = 0 \<or> uint (seq (msg_perm (msqids st q))) \<noteq> IPCID_TO_SEQ (int q)
      then Some (Ok (msg_error EINVAL st))
      else msgrcv_turn p now q msgsz msgtyp msgflg st)"

end
