(* ===== verification/Ix_Msg_Inv.thy ===== *)
theory Ix_Msg_Inv
  imports Ix_Msg
begin

text \<open>
  The loops of the message facility over segments, and its invariant.  Every header and every segment
  has one owner: a header is free, in flight between its allocation and its entry into a queue, or in
  one queue; a segment is free or belongs to one header.  Nothing else owns them, so none is lost.
\<close>

section \<open>Chains of segments\<close>

abbreviation (input) seg_chain :: "msg_sys \<Rightarrow> int \<Rightarrow> nat list \<Rightarrow> bool" where
  "seg_chain st p ss \<equiv> chain int (-1) (msgmaps st) p ss"

abbreviation (input) hdr_chain :: "msg_sys \<Rightarrow> nat option \<Rightarrow> nat list \<Rightarrow> bool" where
  "hdr_chain st p hs \<equiv> chain Some None (\<lambda>h. msg_next (msghdrs st h)) p hs"

definition ceil8 :: "nat \<Rightarrow> nat" where
  "ceil8 n = (n + 7) div 8"

lemma ceil8_0 [simp]: "ceil8 0 = 0" by (simp add: ceil8_def)

lemma ceil8_pos: "0 < n \<Longrightarrow> ceil8 n = Suc (ceil8 (n - 8))"
  unfolding ceil8_def by (cases "n < 8") (auto simp: div_if)

lemma ceil8_0_iff [simp]: "ceil8 n = 0 \<longleftrightarrow> n = 0"
  unfolding ceil8_def by auto

lemma ceil8_ge: "n \<le> 8 * ceil8 n"
  unfolding ceil8_def by presburger

text \<open>What the loops over segments leave alone.\<close>

definition same_rest :: "msg_sys \<Rightarrow> msg_sys \<Rightarrow> bool" where
  "same_rest st st' \<longleftrightarrow> free_msghdrs st' = free_msghdrs st \<and> msghdrs st' = msghdrs st \<and> msqids st' = msqids st \<and>
     msg_errno st' = msg_errno st \<and> msg_wakes st' = msg_wakes st"

lemma same_rest_refl [simp]: "same_rest st st" by (simp add: same_rest_def)

lemma msg_freesegs_ok:
  assumes "seg_chain st spot ss" and "seg_chain st (free_msgmaps st) F" and "distinct ss" and "set ss \<inter> set F = {}"
    and "\<forall>s\<in>set ss. s < MSGSEG" and "length ss = ceil8 (unat ts)"
  shows "\<exists>st'. msg_freesegs ts spot st = Ok (-1, st') \<and> same_rest st st' \<and> msgpool st' = msgpool st \<and>
           seg_chain st' (free_msgmaps st') (rev ss @ F) \<and> nfree_msgmaps st' = nfree_msgmaps st + int (length ss) \<and>
           (\<forall>s. s \<notin> set ss \<longrightarrow> msgmaps st' s = msgmaps st s)"
  using assms
proof (induction ss arbitrary: ts spot st F)
  case Nil
  from Nil.prems(6) have "ceil8 (unat ts) = 0" by simp
  then have "ts = 0" by (simp only: ceil8_0_iff unat_eq_0)
  with Nil.prems show ?case by (subst msg_freesegs.simps) (intro exI [of _ st], simp)
next
  case (Cons s ss)
  let ?ts = "if 8 \<le> ts then ts - 8 else 0 :: u16"
  let ?st = "st\<lparr>msgmaps := (msgmaps st)(s := free_msgmaps st), free_msgmaps := int s, nfree_msgmaps := nfree_msgmaps st + 1\<rparr>"
  have "ceil8 (unat ts) \<noteq> 0" unfolding Cons.prems(6) [symmetric] by (simp only: list.size)
  then have ts: "0 < unat ts" by (simp only: ceil8_0_iff neq0_conv)
  have u: "unat ?ts = unat ts - 8" by (auto simp: unat_sub word_le_nat_alt not_le)
  have s: "spot = int s" "s < MSGSEG" "s \<notin> set ss" "s \<notin> set F" using Cons.prems by auto
  have "\<exists>st'. msg_freesegs ?ts (msgmaps st s) ?st = Ok (-1, st') \<and> same_rest ?st st' \<and> msgpool st' = msgpool ?st \<and>
           seg_chain st' (free_msgmaps st') (rev ss @ s # F) \<and> nfree_msgmaps st' = nfree_msgmaps ?st + int (length ss) \<and>
           (\<forall>s. s \<notin> set ss \<longrightarrow> msgmaps st' s = msgmaps ?st s)"
    by (rule Cons.IH) (use Cons.prems s ceil8_pos [OF ts] in \<open>auto simp: u\<close>)
  then obtain st' where st': "msg_freesegs ?ts (msgmaps st s) ?st = Ok (-1, st')" "same_rest ?st st'" "msgpool st' = msgpool ?st"
    "seg_chain st' (free_msgmaps st') (rev ss @ s # F)" "nfree_msgmaps st' = nfree_msgmaps ?st + int (length ss)"
    "\<forall>s. s \<notin> set ss \<longrightarrow> msgmaps st' s = msgmaps ?st s" by blast
  have "msg_freesegs ts spot st = Ok (-1, st')"
    using st'(1) ts s by (subst msg_freesegs.simps) (simp add: word_less_nat_alt)
  with st' show ?case by (intro exI [of _ st']) (auto simp: same_rest_def)
qed

lemma msg_alloc_ok:
  assumes "seg_chain st spot acc" and "seg_chain st (free_msgmaps st) (fs @ F)" and "distinct (fs @ F)" and "set (fs @ F) \<inter> set acc = {}"
    and "\<forall>s\<in>set fs. s < MSGSEG" and "int (length fs) \<le> nfree_msgmaps st"
  shows "\<exists>spot' st'. msg_alloc (length fs) spot st = Ok (spot', st') \<and> same_rest st st' \<and> msgpool st' = msgpool st \<and>
           seg_chain st' spot' (rev fs @ acc) \<and> seg_chain st' (free_msgmaps st') F \<and>
           nfree_msgmaps st' = nfree_msgmaps st - int (length fs) \<and> (\<forall>s. s \<notin> set fs \<longrightarrow> msgmaps st' s = msgmaps st s)"
  using assms
proof (induction fs arbitrary: spot acc st)
  case Nil
  then show ?case by (intro exI [of _ spot] exI [of _ st]) simp
next
  case (Cons s fs)
  let ?st = "st\<lparr>free_msgmaps := msgmaps st s, nfree_msgmaps := nfree_msgmaps st - 1, msgmaps := (msgmaps st)(s := spot)\<rparr>"
  have s: "free_msgmaps st = int s" "s < MSGSEG" "s \<notin> set (fs @ F)" "s \<notin> set acc" using Cons.prems by auto
  have "\<exists>spot' st'. msg_alloc (length fs) (int s) ?st = Ok (spot', st') \<and> same_rest ?st st' \<and> msgpool st' = msgpool ?st \<and>
           seg_chain st' spot' (rev fs @ s # acc) \<and> seg_chain st' (free_msgmaps st') F \<and>
           nfree_msgmaps st' = nfree_msgmaps ?st - int (length fs) \<and> (\<forall>s. s \<notin> set fs \<longrightarrow> msgmaps st' s = msgmaps ?st s)"
    by (rule Cons.IH) (use Cons.prems s in auto)
  then obtain spot' st' where st': "msg_alloc (length fs) (int s) ?st = Ok (spot', st')" "same_rest ?st st'" "msgpool st' = msgpool ?st"
    "seg_chain st' spot' (rev fs @ s # acc)" "seg_chain st' (free_msgmaps st') F"
    "nfree_msgmaps st' = nfree_msgmaps ?st - int (length fs)" "\<forall>s. s \<notin> set fs \<longrightarrow> msgmaps st' s = msgmaps ?st s" by blast
  have "msg_alloc (length (s # fs)) spot st = Ok (spot', st')"
    using st'(1) s Cons.prems(6) by simp
  with st' show ?case by (intro exI [of _ spot'] exI [of _ st']) (auto simp: same_rest_def)
qed

section \<open>Contents\<close>

definition seg_bytes :: "(nat \<Rightarrow> u8) \<Rightarrow> nat \<Rightarrow> u8 list" where
  "seg_bytes pool s = map (\<lambda>j. pool (s * MSGSSZ + j)) [0..<MSGSSZ]"

definition segs_bytes :: "(nat \<Rightarrow> u8) \<Rightarrow> nat list \<Rightarrow> u8 list" where
  "segs_bytes pool ss = concat (map (seg_bytes pool) ss)"

lemma length_seg_bytes [simp]: "length (seg_bytes pool s) = 8" by (simp add: seg_bytes_def)

lemma length_segs_bytes [simp]: "length (segs_bytes pool ss) = 8 * length ss"
  by (induction ss) (simp_all add: segs_bytes_def)

lemma segs_bytes_Cons [simp]: "segs_bytes pool (s # ss) = seg_bytes pool s @ segs_bytes pool ss"
  by (simp add: segs_bytes_def)

lemma segs_bytes_Nil [simp]: "segs_bytes pool [] = []"
  by (simp add: segs_bytes_def)

lemma seg_bytes_write_other: "t \<noteq> s \<Longrightarrow> n \<le> 8 \<Longrightarrow> seg_bytes (pool_write (s * 8) n src pool) t = seg_bytes pool t"
  unfolding seg_bytes_def pool_write_def by (auto simp: not_le)

lemma seg_bytes_write: "n \<le> 8 \<Longrightarrow> take n (seg_bytes (pool_write (s * 8) n src pool) s) = map src [0..<n]"
  by (rule nth_equalityI) (auto simp: seg_bytes_def pool_write_def)

lemma segs_bytes_cong: "(\<And>s. s \<in> set ss \<Longrightarrow> seg_bytes pool' s = seg_bytes pool s) \<Longrightarrow> segs_bytes pool' ss = segs_bytes pool ss"
  by (induction ss) simp_all

text \<open>The body is stored in the segments in order, and no other segment changes.\<close>

lemma msg_copyin_ok:
  assumes "seg_chain st n ss" and "distinct ss" and "\<forall>s\<in>set ss. s < MSGSEG" and "length ss = ceil8 msgsz"
  shows "\<exists>st'. msg_copyin msgsz n body st = Ok (-1, st') \<and> st' = st\<lparr>msgpool := msgpool st'\<rparr> \<and>
           take msgsz (segs_bytes (msgpool st') ss) = map body [0..<msgsz] \<and>
           (\<forall>s. s \<notin> set ss \<longrightarrow> seg_bytes (msgpool st') s = seg_bytes (msgpool st) s)"
  using assms
proof (induction ss arbitrary: msgsz n body st)
  case Nil
  from Nil.prems(4) have "ceil8 msgsz = 0" by simp
  then have "msgsz = 0" by (simp only: ceil8_0_iff)
  with Nil.prems show ?case by (subst msg_copyin.simps) (intro exI [of _ st], simp)
next
  case (Cons s ss)
  have "ceil8 msgsz \<noteq> 0" unfolding Cons.prems(4) [symmetric] by (simp only: list.size)
  then have sz: "0 < msgsz" by (simp only: ceil8_0_iff neq0_conv)
  define tlen where t: "tlen = (if MSGSSZ < msgsz then MSGSSZ else msgsz)"
  let ?st = "st\<lparr>msgpool := pool_write (s * MSGSSZ) tlen body (msgpool st)\<rparr>"
  have s: "n = int s" "s < MSGSEG" "s \<notin> set ss" using Cons.prems by auto
  have "length ss = ceil8 (msgsz - 8)" using Cons.prems(4) unfolding ceil8_pos [OF sz] by simp
  moreover have "msgsz - tlen = msgsz - 8" using t by simp
  ultimately have len: "length ss = ceil8 (msgsz - tlen)" by simp
  have "\<exists>st'. msg_copyin (msgsz - tlen) (msgmaps st s) (\<lambda>x. body (tlen + x)) ?st = Ok (-1, st') \<and> st' = ?st\<lparr>msgpool := msgpool st'\<rparr> \<and>
           take (msgsz - tlen) (segs_bytes (msgpool st') ss) = map (\<lambda>x. body (tlen + x)) [0..<msgsz - tlen] \<and>
           (\<forall>s. s \<notin> set ss \<longrightarrow> seg_bytes (msgpool st') s = seg_bytes (msgpool ?st) s)"
    by (rule Cons.IH) (use Cons.prems s len in auto)
  then obtain st' where st': "msg_copyin (msgsz - tlen) (msgmaps st s) (\<lambda>x. body (tlen + x)) ?st = Ok (-1, st')"
     "st' = ?st\<lparr>msgpool := msgpool st'\<rparr>"
     "take (msgsz - tlen) (segs_bytes (msgpool st') ss) = map (\<lambda>x. body (tlen + x)) [0..<msgsz - tlen]"
     "\<forall>s. s \<notin> set ss \<longrightarrow> seg_bytes (msgpool st') s = seg_bytes (msgpool ?st) s" by blast
  have "msg_copyin msgsz n body st = Ok (-1, st')"
    using st'(1) sz s by (subst msg_copyin.simps) (simp add: t Let_def)
  moreover have "st' = st\<lparr>msgpool := msgpool st'\<rparr>" by (rule trans [OF st'(2)]) simp
  moreover have "take msgsz (segs_bytes (msgpool st') (s # ss)) = map body [0..<msgsz]"
  proof -
    have tl: "tlen \<le> 8" "tlen \<le> msgsz" "msgsz - 8 = msgsz - tlen" using t by simp_all
    have "take tlen (seg_bytes (msgpool st') s) = map body [0..<tlen]"
      using st'(4) s(3) seg_bytes_write [OF tl(1), of s body "msgpool st"] by simp
    moreover have "take msgsz (seg_bytes (msgpool st') s) = take tlen (seg_bytes (msgpool st') s)" using t by simp
    moreover have "map body [0..<tlen] @ map (\<lambda>x. body (tlen + x)) [0..<msgsz - tlen] = map body [0..<msgsz]"
      using tl(2) by (intro nth_equalityI) (auto simp: nth_append)
    ultimately show ?thesis using st'(3) tl by simp
  qed
  moreover have "seg_bytes (msgpool st') r = seg_bytes (msgpool st) r" if "r \<notin> set (s # ss)" for r
    using that st'(4) seg_bytes_write_other [of r s tlen body "msgpool st"] t by simp
  ultimately show ?case by blast
qed

text \<open>
  The bytes \<open>msgrcv\<close> writes: whole segments, as many as the length needs, unless the length is at most one segment.
\<close>

lemma msg_copyout_ok:
  assumes "seg_chain st n ss" and "\<forall>s\<in>set ss. s < MSGSEG" and "ceil8 (msgsz - len) \<le> length ss"
  shows "msg_copyout len msgsz n st =
    Ok (concat (map (\<lambda>s. take msgsz (seg_bytes (msgpool st) s)) (take (ceil8 (msgsz - len)) ss)))"
  using assms
proof (induction ss arbitrary: len n)
  case Nil
  from Nil.prems(3) have "ceil8 (msgsz - len) = 0" by simp
  then have "msgsz - len = 0" by (simp only: ceil8_0_iff)
  then show ?case by (subst msg_copyout.simps) simp
next
  case (Cons s ss)
  show ?case
  proof (cases "len < msgsz")
    case True
    have s: "n = int s" "s < MSGSEG" using Cons.prems by auto
    have c: "ceil8 (msgsz - len) = Suc (ceil8 (msgsz - (len + 8)))" using ceil8_pos [of "msgsz - len"] True by simp
    have "msg_copyout (len + 8) msgsz (msgmaps st s) st =
       Ok (concat (map (\<lambda>s. take msgsz (seg_bytes (msgpool st) s)) (take (ceil8 (msgsz - (len + 8))) ss)))"
      by (rule Cons.IH) (use Cons.prems c in auto)
    moreover have "map (\<lambda>j. msgpool st (s * 8 + j)) [0..<if 8 < msgsz then 8 else msgsz] = take msgsz (seg_bytes (msgpool st) s)"
      by (auto simp: seg_bytes_def take_map)
    ultimately show ?thesis using True s c by (subst msg_copyout.simps) (simp add: Let_def)
  next
    case False
    then show ?thesis by (subst msg_copyout.simps) simp
  qed
qed

lemma copyout_prefix:
  assumes "ceil8 n \<le> length ss"
  shows "take n (concat (map (\<lambda>s. take n (seg_bytes pool s)) (take (ceil8 n) ss))) = take n (segs_bytes pool ss)"
proof (cases "n \<le> 8")
  case True
  show ?thesis
  proof (cases "n = 0")
    case False
    with True have "ceil8 n = 1" using ceil8_pos [of n] by simp
    with assms obtain s ts where "ss = s # ts" by (cases ss) auto
    with True \<open>ceil8 n = 1\<close> show ?thesis by simp
  qed simp
next
  case False
  have "concat (map (\<lambda>s. take n (seg_bytes pool s)) (take (ceil8 n) ss)) = segs_bytes pool (take (ceil8 n) ss)"
    using False by (simp add: segs_bytes_def)
  moreover have "segs_bytes pool ss = segs_bytes pool (take (ceil8 n) ss) @ segs_bytes pool (drop (ceil8 n) ss)"
    by (metis append_take_drop_id concat_append map_append segs_bytes_def)
  moreover have "n \<le> length (segs_bytes pool (take (ceil8 n) ss))" using ceil8_ge [of n] assms by simp
  ultimately show ?thesis by simp
qed

end
