(* ===== verification/Ix_Msg_Own.thy ===== *)
theory Ix_Msg_Own
  imports Ix_Msg_Inv
begin

text \<open>
  The invariant of the message facility: the owners of headers and segments, and what each step
  of the calls does to them.
\<close>

section \<open>Owners\<close>

datatype hown = HFree | HFlight | HQueue nat
datatype sown = SFree | SUsed nat

record mview =
  fs :: "nat list"
  fh :: "nat list"
  mq :: "nat \<Rightarrow> nat list"
  ss :: "nat \<Rightarrow> nat list"
  ho :: "nat \<Rightarrow> hown"
  so :: "nat \<Rightarrow> sown"

definition owns :: "nat \<Rightarrow> (nat \<Rightarrow> 'o) \<Rightarrow> 'o \<Rightarrow> nat list \<Rightarrow> bool" where
  "owns n ow c xs \<longleftrightarrow> distinct xs \<and> set xs = {x. x < n \<and> ow x = c}"

lemma ownsD:
  assumes "owns n ow c xs"
  shows "distinct xs" and "x \<in> set xs \<longleftrightarrow> x < n \<and> ow x = c"
  using assms by (auto simp: owns_def)

lemma owns_other: "owns n ow c xs \<Longrightarrow> ow a \<noteq> c \<Longrightarrow> c' \<noteq> c \<Longrightarrow> owns n (ow(a := c')) c xs"
  by (auto simp: owns_def)

lemma owns_Cons: "owns n ow c xs \<Longrightarrow> a < n \<Longrightarrow> ow a \<noteq> c \<Longrightarrow> owns n (ow(a := c)) c (a # xs)"
  by (auto simp: owns_def)

lemma owns_snoc: "owns n ow c xs \<Longrightarrow> a < n \<Longrightarrow> ow a \<noteq> c \<Longrightarrow> owns n (ow(a := c)) c (xs @ [a])"
  by (auto simp: owns_def)

lemma owns_drop: "owns n ow c (as @ a # bs) \<Longrightarrow> c' \<noteq> c \<Longrightarrow> owns n (ow(a := c')) c (as @ bs)"
  by (auto simp: owns_def)

lemma owns_tl: "owns n ow c (a # bs) \<Longrightarrow> c' \<noteq> c \<Longrightarrow> owns n (ow(a := c')) c bs"
  using owns_drop [of n ow c "[]" a bs c'] by simp

text \<open>Several at once change hands.\<close>

definition give :: "nat set \<Rightarrow> 'o \<Rightarrow> (nat \<Rightarrow> 'o) \<Rightarrow> nat \<Rightarrow> 'o" where
  "give A c ow = (\<lambda>x. if x \<in> A then c else ow x)"

lemma owns_give_other: "owns n ow c xs \<Longrightarrow> A \<inter> set xs = {} \<Longrightarrow> c' \<noteq> c \<Longrightarrow> owns n (give A c' ow) c xs"
  by (auto simp: owns_def give_def)

lemma owns_give_to:
  assumes "owns n ow c xs" and "A \<inter> set xs = {}" and "A \<subseteq> {..<n}" and "set ys = A" and "distinct ys"
  shows "owns n (give A c ow) c (ys @ xs)"
  using assms unfolding owns_def give_def by auto

lemma owns_give_from: "owns n ow c (as @ bs) \<Longrightarrow> c' \<noteq> c \<Longrightarrow> owns n (give (set as) c' ow) c bs"
  by (auto simp: owns_def give_def)

section \<open>The invariant\<close>

definition msq_live :: "msg_sys \<Rightarrow> nat \<Rightarrow> bool" where
  "msq_live st q \<longleftrightarrow> q < MSGMNI \<and> msg_qbytes (msqids st q) \<noteq> 0"

definition bytes_of :: "msg_sys \<Rightarrow> nat list \<Rightarrow> nat" where
  "bytes_of st hs = (\<Sum>h\<leftarrow>hs. unat (msg_ts (msghdrs st h)))"

definition ds_ok :: "msg_sys \<Rightarrow> msqid_ds \<Rightarrow> nat list \<Rightarrow> bool" where
  "ds_ok st ds ms \<longleftrightarrow> hdr_chain st (msg_first ds) ms \<and> msg_last ds = (if ms = [] then None else Some (last ms)) \<and>
     msg_cbytes ds = of_nat (bytes_of st ms) \<and> bytes_of st ms \<le> 2048 \<and> msg_qnum ds = of_nat (length ms) \<and>
     msg_qbytes ds \<le> MSGMNB \<and> (\<forall>h\<in>set ms. 1 \<le> msg_type (msghdrs st h))"

definition queue_ok :: "msg_sys \<Rightarrow> nat \<Rightarrow> nat list \<Rightarrow> bool" where
  "queue_ok st q ms \<longleftrightarrow> (if msq_live st q then ds_ok st (msqids st q) ms else ms = [])"

definition segs_ok :: "msg_sys \<Rightarrow> mview \<Rightarrow> bool" where
  "segs_ok st v \<longleftrightarrow> owns MSGSEG (so v) SFree (fs v) \<and> seg_chain st (free_msgmaps st) (fs v) \<and>
     nfree_msgmaps st = int (length (fs v)) \<and> (\<forall>h. owns MSGSEG (so v) (SUsed h) (ss v h)) \<and>
     (\<forall>h. if h < MSGTQL \<and> ho v h \<noteq> HFree
          then seg_chain st (msg_spot (msghdrs st h)) (ss v h) \<and> length (ss v h) = ceil8 (unat (msg_ts (msghdrs st h)))
          else ss v h = [])"

definition hdrs_ok :: "nat set \<Rightarrow> msg_sys \<Rightarrow> mview \<Rightarrow> bool" where
  "hdrs_ok E st v \<longleftrightarrow> owns MSGTQL (ho v) HFree (fh v) \<and> hdr_chain st (free_msghdrs st) (fh v) \<and>
     (\<forall>q. owns MSGTQL (ho v) (HQueue q) (mq v q)) \<and> (\<forall>q. q \<notin> E \<longrightarrow> queue_ok st q (mq v q))"

text \<open>\<open>E\<close> holds the queues whose description is being changed.\<close>

definition minv :: "nat set \<Rightarrow> msg_sys \<Rightarrow> mview \<Rightarrow> bool" where
  "minv E st v \<longleftrightarrow> segs_ok st v \<and> hdrs_ok E st v"

definition msg_ok :: "msg_sys \<Rightarrow> bool" where
  "msg_ok st \<longleftrightarrow> (\<exists>v. minv {} st v \<and> (\<forall>h. ho v h \<noteq> HFlight))"

lemma minv_env [simp]:
  "minv E (st\<lparr>msgpool := p\<rparr>) v = minv E st v" "minv E (st\<lparr>msg_errno := e\<rparr>) v = minv E st v"
  "minv E (st\<lparr>msg_wakes := w\<rparr>) v = minv E st v"
  by (simp_all add: minv_def segs_ok_def hdrs_ok_def queue_ok_def ds_ok_def msq_live_def bytes_of_def)

lemma minv_wakeup [simp]: "minv E (msg_wakeup q st) v = minv E st v"
  by (simp add: msg_wakeup_def)

lemma minvD:
  assumes "minv E st v"
  shows "owns MSGSEG (so v) SFree (fs v)" and "seg_chain st (free_msgmaps st) (fs v)"
    and "nfree_msgmaps st = int (length (fs v))" and "owns MSGSEG (so v) (SUsed h) (ss v h)"
    and "h < MSGTQL \<Longrightarrow> ho v h \<noteq> HFree \<Longrightarrow> seg_chain st (msg_spot (msghdrs st h)) (ss v h)"
    and "h < MSGTQL \<Longrightarrow> ho v h \<noteq> HFree \<Longrightarrow> length (ss v h) = ceil8 (unat (msg_ts (msghdrs st h)))"
    and "h < MSGTQL \<Longrightarrow> ho v h = HFree \<Longrightarrow> ss v h = []"
    and "owns MSGTQL (ho v) HFree (fh v)" and "hdr_chain st (free_msghdrs st) (fh v)"
    and "owns MSGTQL (ho v) (HQueue q) (mq v q)" and "q \<notin> E \<Longrightarrow> queue_ok st q (mq v q)"
  using assms unfolding minv_def segs_ok_def hdrs_ok_def by (simp_all split: if_splits)

lemma queue_okD:
  assumes "minv E st v" and "q \<notin> E" and "msq_live st q"
  shows "ds_ok st (msqids st q) (mq v q)"
  using minvD(11) [OF assms(1,2)] assms(3) by (simp add: queue_ok_def)

lemma set_queue_sel [simp]:
  "msqids (set_queue q ds st) = (msqids st)(q := ds)" "msghdrs (set_queue q ds st) = msghdrs st"
  "msgmaps (set_queue q ds st) = msgmaps st" "free_msgmaps (set_queue q ds st) = free_msgmaps st"
  "nfree_msgmaps (set_queue q ds st) = nfree_msgmaps st" "free_msghdrs (set_queue q ds st) = free_msghdrs st"
  "msgpool (set_queue q ds st) = msgpool st"
  by (simp_all add: set_queue_def)

lemma set_hdr_sel [simp]:
  "msghdrs (set_hdr h m st) = (msghdrs st)(h := m)" "msqids (set_hdr h m st) = msqids st"
  "msgmaps (set_hdr h m st) = msgmaps st" "free_msgmaps (set_hdr h m st) = free_msgmaps st"
  "nfree_msgmaps (set_hdr h m st) = nfree_msgmaps st" "free_msghdrs (set_hdr h m st) = free_msghdrs st"
  "msgpool (set_hdr h m st) = msgpool st"
  by (simp_all add: set_hdr_def)

lemma ds_ok_set_queue [simp]: "ds_ok (set_queue q ds st) ds' ms = ds_ok st ds' ms" "bytes_of (set_queue q ds st) ms = bytes_of st ms"
  by (simp_all add: ds_ok_def bytes_of_def)

text \<open>A queue under change may be changed; it leaves \<open>E\<close> when its description is right.\<close>

lemma minv_set_queue:
  assumes inv: "minv (insert q E) st v"
    and new: "q \<notin> E \<Longrightarrow> queue_ok (set_queue q ds st) q (mq v q)"
  shows "minv E (set_queue q ds st) v"
proof -
  have "queue_ok (set_queue q ds st) r (mq v r)" if "r \<notin> E" for r
  proof (cases "r = q")
    case False
    with minvD(11) [OF inv, of r] that show ?thesis by (simp add: queue_ok_def msq_live_def split: if_splits)
  qed (use new that in simp)
  with inv show ?thesis unfolding minv_def segs_ok_def hdrs_ok_def by simp
qed

lemma minv_weaken: "minv E st v \<Longrightarrow> E \<subseteq> E' \<Longrightarrow> minv E' st v"
  unfolding minv_def hdrs_ok_def by blast

lemma minv_mode:
  assumes "minv E st v"
  shows "minv E (set_queue q ((msqids st q)\<lparr>msg_perm := pm\<rparr>) st) v"
proof (rule minv_set_queue [OF minv_weaken [OF assms]])
  assume "q \<notin> E"
  with minvD(11) [OF assms this] show "queue_ok (set_queue q ((msqids st q)\<lparr>msg_perm := pm\<rparr>) st) q (mq v q)"
    by (auto simp: queue_ok_def msq_live_def ds_ok_def split: if_splits)
qed auto

lemma minv_lock: "minv E st v \<Longrightarrow> minv E (lock_queue q st) v" "minv E st v \<Longrightarrow> minv E (unlock_queue q st) v"
  by (simp_all add: lock_queue_def unlock_queue_def Let_def minv_mode)

section \<open>Steps of a header\<close>

text \<open>What holds of the headers of other messages, so that the queues keep their descriptions.\<close>

lemma queue_ok_cong:
  assumes "queue_ok st q ms" and "msqids st' = msqids st" and "\<And>h. h \<in> set ms \<Longrightarrow> msghdrs st' h = msghdrs st h"
  shows "queue_ok st' q ms"
proof -
  have "hdr_chain st' p ms = hdr_chain st p ms" for p by (rule chain_cong) (simp add: assms(3))
  moreover have "bytes_of st' ms = bytes_of st ms" unfolding bytes_of_def by (intro arg_cong [of _ _ sum_list] map_cong refl) (simp add: assms(3))
  moreover have "msq_live st' q = msq_live st q" by (simp add: msq_live_def assms(2))
  ultimately show ?thesis using assms(1,3) unfolding queue_ok_def ds_ok_def assms(2) by (cases "msq_live st q") auto
qed

lemma flight_not_owned:
  assumes inv: "minv E st v" and h: "ho v h = HFlight"
  shows "h \<notin> set (fh v)" and "h \<notin> set (mq v q)"
  using ownsD(2) [OF minvD(8) [OF inv]] ownsD(2) [OF minvD(10) [OF inv]] h by auto

text \<open>The fields of a header in flight other than size and place may change.\<close>

lemma minv_set_flight:
  assumes inv: "minv E st v" and h: "ho v h = HFlight" and m: "msg_ts m = msg_ts (msghdrs st h)" "msg_spot m = msg_spot (msghdrs st h)"
  shows "minv E (set_hdr h m st) v"
proof -
  have "queue_ok (set_hdr h m st) q (mq v q)" if "q \<notin> E" for q
    by (rule queue_ok_cong [OF minvD(11) [OF inv that]]) (use flight_not_owned(2) [OF inv h] in auto)
  moreover have "hdr_chain (set_hdr h m st) (free_msghdrs st) (fh v)"
    using minvD(9) [OF inv] flight_not_owned(1) [OF inv h] by simp
  moreover have "segs_ok (set_hdr h m st) v" using inv m by (simp add: minv_def segs_ok_def)
  ultimately show ?thesis using inv unfolding minv_def hdrs_ok_def by simp
qed

lemma segs_disj:
  assumes inv: "minv E st v"
  shows "set (ss v h) \<inter> set (fs v) = {}" and "h \<noteq> h' \<Longrightarrow> set (ss v h) \<inter> set (ss v h') = {}"
  using ownsD(2) [OF minvD(1) [OF inv]] ownsD(2) [OF minvD(4) [OF inv]] by auto

lemma segs_less: "minv E st v \<Longrightarrow> s \<in> set (ss v h) \<Longrightarrow> s < MSGSEG" "minv E st v \<Longrightarrow> s \<in> set (fs v) \<Longrightarrow> s < MSGSEG"
  using ownsD(2) [OF minvD(4)] ownsD(2) [OF minvD(1)] by auto

text \<open>Freeing a header in flight.\<close>

definition freed :: "nat \<Rightarrow> mview \<Rightarrow> mview" where
  "freed h v = v\<lparr>fs := rev (ss v h) @ fs v, fh := h # fh v, ss := (ss v)(h := []), ho := (ho v)(h := HFree),
     so := give (set (ss v h)) SFree (so v)\<rparr>"

lemma segs_ok_freed:
  assumes inv: "minv E st v" and h: "h < MSGTQL" "ho v h = HFlight"
    and c: "seg_chain st' (free_msgmaps st') (rev (ss v h) @ fs v)"
    and n: "nfree_msgmaps st' = nfree_msgmaps st + int (length (ss v h))"
    and m: "\<And>s. s \<notin> set (ss v h) \<Longrightarrow> msgmaps st' s = msgmaps st s" and hd: "\<And>k. k \<noteq> h \<Longrightarrow> msghdrs st' k = msghdrs st k"
  shows "segs_ok st' (freed h v)"
proof -
  have "owns MSGSEG (give (set (ss v h)) SFree (so v)) SFree (rev (ss v h) @ fs v)"
    by (rule owns_give_to [OF minvD(1) [OF inv]])
      (use segs_disj [OF inv] segs_less [OF inv] ownsD(1) [OF minvD(4) [OF inv]] in auto)
  moreover have "owns MSGSEG (give (set (ss v h)) SFree (so v)) (SUsed k) (if k = h then [] else ss v k)" for k
  proof (cases "k = h")
    case True
    with owns_give_from [of MSGSEG "so v" "SUsed h" "ss v h" "[]" SFree] minvD(4) [OF inv, of h] show ?thesis by simp
  next
    case False
    with owns_give_other [OF minvD(4) [OF inv, of k], of "set (ss v h)" SFree] segs_disj(2) [OF inv, of h k] show ?thesis by simp
  qed
  moreover have "seg_chain st' (msg_spot (msghdrs st' k)) (ss v k)" if "k < MSGTQL" "ho v k \<noteq> HFree" "k \<noteq> h" for k
  proof -
    have "seg_chain st' p (ss v k) = seg_chain st p (ss v k)" for p
      by (rule chain_cong) (use m segs_disj(2) [OF inv, of k h] that(3) in blast)
    with minvD(5) [OF inv that(1,2)] hd [OF that(3)] show ?thesis by simp
  qed
  moreover have "ss v k = []" if "\<not> (k < MSGTQL \<and> ho v k \<noteq> HFree)" for k
    using inv that unfolding minv_def segs_ok_def by meson
  ultimately show ?thesis
    using c n minvD(3) [OF inv] minvD(6) [OF inv] hd unfolding segs_ok_def freed_def by auto
qed

lemma freehdr_ok:
  assumes inv: "minv E st v" and h: "h < MSGTQL" "ho v h = HFlight"
  shows "\<exists>st'. msg_freehdr h st = Ok st' \<and> minv E st' (freed h v) \<and> msqids st' = msqids st \<and> msgpool st' = msgpool st \<and>
           (\<forall>k. k \<noteq> h \<longrightarrow> msghdrs st' k = msghdrs st k)"
proof -
  have nf: "ho v h \<noteq> HFree" using h by simp
  obtain st1 where st1: "msg_freesegs (msg_ts (msghdrs st h)) (msg_spot (msghdrs st h)) st = Ok (-1, st1)" "same_rest st st1"
    "msgpool st1 = msgpool st" "seg_chain st1 (free_msgmaps st1) (rev (ss v h) @ fs v)"
    "nfree_msgmaps st1 = nfree_msgmaps st + int (length (ss v h))" "\<forall>s. s \<notin> set (ss v h) \<longrightarrow> msgmaps st1 s = msgmaps st s"
    using msg_freesegs_ok [OF minvD(5) [OF inv h(1) nf] minvD(2) [OF inv] ownsD(1) [OF minvD(4) [OF inv]] segs_disj(1) [OF inv]
        _ minvD(6) [OF inv h(1) nf]] segs_less(1) [OF inv] by blast
  let ?m = "(msghdrs st1 h)\<lparr>msg_ts := 0, msg_spot := -1, msg_next := free_msghdrs st1\<rparr>"
  let ?st = "(set_hdr h ?m st1)\<lparr>free_msghdrs := Some h\<rparr>"
  have f: "msg_freehdr h st = Ok ?st" using st1(1) by (simp add: msg_freehdr_def)
  have hs: "msghdrs ?st k = msghdrs st k" if "k \<noteq> h" for k using that st1(2) by (simp add: same_rest_def)
  have q: "msqids ?st = msqids st" using st1(2) by (simp add: same_rest_def)
  have "segs_ok ?st (freed h v)"
    by (rule segs_ok_freed [OF inv h]) (use st1 hs in simp_all)
  moreover have "hdrs_ok E ?st (freed h v)"
    unfolding hdrs_ok_def
  proof (intro conjI allI impI)
    show "owns MSGTQL (ho (freed h v)) HFree (fh (freed h v))"
      using owns_Cons [OF minvD(8) [OF inv] h(1) nf] by (simp add: freed_def)
    show "hdr_chain ?st (free_msghdrs ?st) (fh (freed h v))"
      using minvD(9) [OF inv] flight_not_owned(1) [OF inv h(2)] st1(2) by (simp add: freed_def same_rest_def)
    show "owns MSGTQL (ho (freed h v)) (HQueue q) (mq (freed h v) q)" for q
      using owns_other [OF minvD(10) [OF inv, of q], of h HFree] h(2) by (simp add: freed_def)
    fix q assume "q \<notin> E"
    from queue_ok_cong [OF minvD(11) [OF inv this] q] hs flight_not_owned(2) [OF inv h(2), of q]
    show "queue_ok ?st q (mq (freed h v) q)" by (simp add: freed_def) (metis (no_types, lifting))
  qed
  ultimately have "minv E ?st (freed h v)" by (simp only: minv_def simp_thms)
  with f q hs st1(3) show ?thesis by (intro exI [of _ ?st]) simp
qed

end
