(* ===== verification/Ix_Msg_Steps.thy ===== *)
theory Ix_Msg_Steps
  imports Ix_Msg_Own
begin

text \<open>
  What the steps of \<open>msgsnd\<close> and \<open>msgrcv\<close> do to the owners: a header and its segments are taken, the
  message joins a queue, a message is searched and leaves its queue.
\<close>

section \<open>Taking a header and its segments\<close>

definition taken :: "nat \<Rightarrow> nat \<Rightarrow> mview \<Rightarrow> mview" where
  "taken h n v = v\<lparr>fs := drop n (fs v), fh := tl (fh v), ss := (ss v)(h := rev (take n (fs v))), ho := (ho v)(h := HFlight),
     so := give (set (take n (fs v))) (SUsed h) (so v)\<rparr>"

lemma taken_sel:
  "fs (taken h n v) = drop n (fs v)" "ss (taken h n v) = (ss v)(h := rev (take n (fs v)))"
  "so (taken h n v) = give (set (take n (fs v))) (SUsed h) (so v)" "ho (taken h n v) = (ho v)(h := HFlight)" "mq (taken h n v) = mq v"
  by (simp_all add: taken_def)

lemma segs_ok_taken:
  assumes inv: "minv E st v" and h: "h < MSGTQL" "ho v h = HFree" and n: "n \<le> length (fs v)"
    and c: "seg_chain st' (msg_spot (msghdrs st' h)) (rev (take n (fs v)))" "seg_chain st' (free_msgmaps st') (drop n (fs v))"
    and nf: "nfree_msgmaps st' = nfree_msgmaps st - int n"
    and m: "\<And>s. s \<notin> set (take n (fs v)) \<Longrightarrow> msgmaps st' s = msgmaps st s" and hd: "\<And>k. k \<noteq> h \<Longrightarrow> msghdrs st' k = msghdrs st k"
    and ts: "n = ceil8 (unat (msg_ts (msghdrs st' h)))"
  shows "segs_ok st' (taken h n v)"
proof -
  let ?A = "set (take n (fs v))"
  have sub: "?A \<subseteq> set (fs v)" by (rule set_take_subset)
  have e: "ss v h = []" by (rule minvD(7) [OF inv h])
  have free: "owns MSGSEG (give ?A (SUsed h) (so v)) SFree (drop n (fs v))"
    by (rule owns_give_from) (use minvD(1) [OF inv] in simp_all)
  have used: "owns MSGSEG (give ?A (SUsed h) (so v)) (SUsed k) (((ss v)(h := rev (take n (fs v)))) k)" for k
  proof (cases "k = h")
    case True
    have "owns MSGSEG (give ?A (SUsed h) (so v)) (SUsed h) (rev (take n (fs v)) @ [])"
      by (rule owns_give_to) (use minvD(4) [OF inv, of h] e sub segs_less(2) [OF inv] ownsD(1) [OF minvD(1) [OF inv]] in auto)
    with True show ?thesis by simp
  next
    case False
    with owns_give_other [OF minvD(4) [OF inv, of k], of ?A "SUsed h"] segs_disj(1) [OF inv, of k] sub show ?thesis by auto
  qed
  have other: "seg_chain st' (msg_spot (msghdrs st' k)) (ss v k)" if "k < MSGTQL" "ho v k \<noteq> HFree" "k \<noteq> h" for k
  proof -
    have "seg_chain st' p (ss v k) = seg_chain st p (ss v k)" for p
      by (rule chain_cong) (use m segs_disj(1) [OF inv, of k] sub in blast)
    with minvD(5) [OF inv that(1,2)] hd [OF that(3)] show ?thesis by simp
  qed
  have none: "ss v k = []" if "\<not> (k < MSGTQL \<and> ho v k \<noteq> HFree)" for k
    using inv that unfolding minv_def segs_ok_def by meson
  have "nfree_msgmaps st' = int (length (drop n (fs v)))" using nf n minvD(3) [OF inv] by (simp add: of_nat_diff)
  moreover have "if k < MSGTQL \<and> (ho (taken h n v)) k \<noteq> HFree
      then seg_chain st' (msg_spot (msghdrs st' k)) (ss (taken h n v) k) \<and> length (ss (taken h n v) k) = ceil8 (unat (msg_ts (msghdrs st' k)))
      else ss (taken h n v) k = []" for k
  proof (cases "k = h")
    case True
    with c(1) h n show ?thesis by (simp add: taken_def ts [symmetric])
  next
    case False
    with other [of k] none [of k] minvD(6) [OF inv, of k] hd [of k] show ?thesis by (auto simp: taken_def)
  qed
  ultimately show ?thesis unfolding segs_ok_def
    by (intro conjI allI) (use free used c(2) in \<open>simp_all only: taken_sel\<close>)
qed

lemma take_ok:
  assumes inv: "minv E st v" and f: "free_msghdrs st = Some h" and n: "ceil8 (unat ts) \<le> length (fs v)"
  shows "\<exists>spot st3. msg_alloc (ceil8 (unat ts)) (-1) (st\<lparr>free_msghdrs := msg_next (msghdrs st h)\<rparr>) = Ok (spot, st3) \<and>
    minv E (set_hdr h ((msghdrs st3 h)\<lparr>msg_ts := ts, msg_spot := spot, msg_type := mtyp\<rparr>) st3) (taken h (ceil8 (unat ts)) v) \<and>
    msqids st3 = msqids st \<and> msgpool st3 = msgpool st \<and> msghdrs st3 = msghdrs st \<and> h < MSGTQL \<and> ho v h = HFree"
proof -
  let ?n = "ceil8 (unat ts)"
  let ?A = "take ?n (fs v)" and ?st = "st\<lparr>free_msghdrs := msg_next (msghdrs st h)\<rparr>"
  obtain hs where fh: "fh v = h # hs" using minvD(9) [OF inv] f by (cases "fh v") auto
  then have h: "h < MSGTQL" "ho v h = HFree" using ownsD(2) [OF minvD(8) [OF inv], of h] by auto
  have len: "length ?A = ?n" using n by simp
  have "\<exists>spot st3. msg_alloc (length ?A) (-1) ?st = Ok (spot, st3) \<and> same_rest ?st st3 \<and> msgpool st3 = msgpool ?st \<and>
           seg_chain st3 spot (rev ?A @ []) \<and> seg_chain st3 (free_msgmaps st3) (drop ?n (fs v)) \<and>
           nfree_msgmaps st3 = nfree_msgmaps ?st - int (length ?A) \<and> (\<forall>s. s \<notin> set ?A \<longrightarrow> msgmaps st3 s = msgmaps ?st s)"
    by (rule msg_alloc_ok) (use minvD(2,3) [OF inv] ownsD(1) [OF minvD(1) [OF inv]] segs_less(2) [OF inv] n in
        \<open>auto dest: in_set_takeD\<close>)
  then obtain spot st3 where st3: "msg_alloc ?n (-1) ?st = Ok (spot, st3)" "same_rest ?st st3" "msgpool st3 = msgpool st"
    "seg_chain st3 spot (rev ?A)" "seg_chain st3 (free_msgmaps st3) (drop ?n (fs v))"
    "nfree_msgmaps st3 = nfree_msgmaps st - int ?n" "\<forall>s. s \<notin> set ?A \<longrightarrow> msgmaps st3 s = msgmaps st s"
    unfolding len by auto
  let ?st4 = "set_hdr h ((msghdrs st3 h)\<lparr>msg_ts := ts, msg_spot := spot, msg_type := mtyp\<rparr>) st3"
  have hs: "msghdrs st3 = msghdrs st" "msqids st3 = msqids st" "free_msghdrs st3 = msg_next (msghdrs st h)"
    using st3(2) by (simp_all add: same_rest_def)
  have "segs_ok ?st4 (taken h ?n v)"
    by (rule segs_ok_taken [OF inv h n]) (use st3 hs in simp_all)
  moreover have "hdrs_ok E ?st4 (taken h ?n v)"
    unfolding hdrs_ok_def
  proof (intro conjI allI impI)
    show "owns MSGTQL (ho (taken h ?n v)) HFree (fh (taken h ?n v))"
      using owns_tl [of MSGTQL "ho v" HFree h hs HFlight] minvD(8) [OF inv] fh by (simp add: taken_def)
    have "h \<notin> set hs" using ownsD(1) [OF minvD(8) [OF inv]] fh by simp
    then show "hdr_chain ?st4 (free_msghdrs ?st4) (fh (taken h ?n v))"
      using minvD(9) [OF inv] fh hs by (simp add: taken_def)
    show "owns MSGTQL (ho (taken h ?n v)) (HQueue q) (mq (taken h ?n v) q)" for q
      using owns_other [OF minvD(10) [OF inv, of q], of h HFlight] h(2) by (simp add: taken_def)
    fix q assume q: "q \<notin> E"
    have "h \<notin> set (mq v q)" using ownsD(2) [OF minvD(10) [OF inv, of q], of h] h(2) by simp
    then show "queue_ok ?st4 q (mq (taken h ?n v) q)"
      unfolding taken_sel by (intro queue_ok_cong [OF minvD(11) [OF inv q]]) (use hs in auto)
  qed
  ultimately have "minv E ?st4 (taken h ?n v)" by (simp only: minv_def simp_thms)
  with st3 hs h show ?thesis by (intro exI [of _ spot] exI [of _ st3]) simp
qed

section \<open>Joining a queue\<close>

lemma bytes_of_cong: "(\<And>h. h \<in> set ms \<Longrightarrow> msg_ts (msghdrs st' h) = msg_ts (msghdrs st h)) \<Longrightarrow> bytes_of st' ms = bytes_of st ms"
  unfolding bytes_of_def by (intro arg_cong [of _ _ sum_list] map_cong) auto

lemma bytes_of_append [simp]: "bytes_of st (as @ bs) = bytes_of st as + bytes_of st bs" "bytes_of st [] = 0"
  "bytes_of st (h # bs) = unat (msg_ts (msghdrs st h)) + bytes_of st bs"
  by (simp_all add: bytes_of_def)

definition entered :: "nat \<Rightarrow> nat \<Rightarrow> mview \<Rightarrow> mview" where
  "entered q h v = v\<lparr>mq := (mq v)(q := mq v q @ [h]), ho := (ho v)(h := HQueue q)\<rparr>"

text \<open>The headers change in nothing but their links; the view changes in nothing but the queue \<open>q\<close> and the owner
  of \<open>h\<close>.\<close>

definition relinked :: "msg_sys \<Rightarrow> msg_sys \<Rightarrow> bool" where
  "relinked st st' \<longleftrightarrow> msgmaps st' = msgmaps st \<and> free_msgmaps st' = free_msgmaps st \<and> nfree_msgmaps st' = nfree_msgmaps st \<and>
     free_msghdrs st' = free_msghdrs st \<and> msgpool st' = msgpool st \<and>
     (\<forall>h. msg_ts (msghdrs st' h) = msg_ts (msghdrs st h) \<and> msg_spot (msghdrs st' h) = msg_spot (msghdrs st h) \<and>
          msg_type (msghdrs st' h) = msg_type (msghdrs st h))"

lemma minv_requeue:
  assumes inv: "minv E st v" and r: "relinked st st'" and h: "ho v h \<noteq> HFree" "c \<noteq> HFree"
    and o: "\<And>r. r \<noteq> q \<Longrightarrow> msqids st' r = msqids st r" "ho v h \<in> {HFlight, HQueue q}" "c \<in> {HFlight, HQueue q}"
    and links: "\<And>k. k \<notin> set (mq v q) \<Longrightarrow> k \<noteq> h \<Longrightarrow> msghdrs st' k = msghdrs st k"
    and own: "owns MSGTQL ((ho v)(h := c)) (HQueue q) ms" and new: "q \<notin> E' \<Longrightarrow> queue_ok st' q ms" and E: "E \<subseteq> insert q E'"
  shows "minv E' st' (v\<lparr>mq := (mq v)(q := ms), ho := (ho v)(h := c)\<rparr>)" (is "minv E' st' ?v")
proof -
  have nq: "k \<notin> set (mq v q)" "k \<noteq> h" if "k < MSGTQL" "ho v k = HFree \<or> (\<exists>r. r \<noteq> q \<and> ho v k = HQueue r)" for k
    using that h o(2) ownsD(2) [OF minvD(10) [OF inv, of q], of k] by auto
  have "segs_ok st' ?v"
    using inv r h unfolding minv_def segs_ok_def relinked_def by auto
  moreover have "owns MSGTQL (ho ?v) HFree (fh ?v)" using owns_other [OF minvD(8) [OF inv] h] by simp
  moreover have "hdr_chain st' (free_msghdrs st') (fh ?v)"
  proof -
    have "hdr_chain st' p (fh v) = hdr_chain st p (fh v)" for p
      by (rule chain_cong) (use links nq ownsD(2) [OF minvD(8) [OF inv]] in auto)
    then show ?thesis using minvD(9) [OF inv] r by (simp add: relinked_def)
  qed
  moreover have "owns MSGTQL (ho ?v) (HQueue r) (mq ?v r)" for r
    using own owns_other [OF minvD(10) [OF inv, of r], of h c] o by auto
  moreover have "queue_ok st' r (mq ?v r)" if "r \<notin> E'" for r
  proof (cases "r = q")
    case False
    with that E have "r \<notin> E" by auto
    have same: "msghdrs st' k = msghdrs st k" if "k \<in> set (mq v r)" for k
      by (rule links) (use that False nq ownsD(2) [OF minvD(10) [OF inv, of r], of k] in auto)
    have "queue_ok (st'\<lparr>msqids := msqids st\<rparr>) r (mq v r)"
      by (rule queue_ok_cong [OF minvD(11) [OF inv \<open>r \<notin> E\<close>]]) (use same in auto)
    then show ?thesis using o(1) [OF False] False by (auto simp: queue_ok_def ds_ok_def msq_live_def bytes_of_def split: if_splits)
  qed (use new that in simp)
  ultimately show ?thesis unfolding minv_def hdrs_ok_def by blast
qed

lemma enqueue_ok:
  assumes inv: "minv E st v" and q: "q \<notin> E" "msq_live st q" and h: "h < MSGTQL" "ho v h = HFlight"
    and t: "1 \<le> msg_type (msghdrs st h)" and b: "bytes_of st (mq v q) + unat (msg_ts (msghdrs st h)) \<le> 2048"
  shows "\<exists>st'. msg_enqueue p q h now st = Ok st' \<and> minv E st' (entered q h v) \<and> relinked st st' \<and>
           (\<forall>r. r \<noteq> q \<longrightarrow> msqids st' r = msqids st r) \<and> msg_qbytes (msqids st' q) = msg_qbytes (msqids st q)"
proof -
  let ?ds = "msqids st q" and ?m = "msghdrs st h"
  note d = queue_okD [OF inv q]
  have nh: "h \<notin> set (mq v q)" by (rule flight_not_owned(2) [OF inv h(2)])
  define st1 where "st1 = (if mq v q = [] then set_queue q (?ds\<lparr>msg_first := Some h, msg_last := Some h\<rparr>) st
     else set_queue q (?ds\<lparr>msg_last := Some h\<rparr>) (set_hdr (last (mq v q)) ((msghdrs st (last (mq v q)))\<lparr>msg_next := Some h\<rparr>) st))"
  let ?st2 = "set_hdr h ((msghdrs st1 h)\<lparr>msg_next := None\<rparr>) st1"
  let ?ds2 = "msqids ?st2 q"
  let ?st = "msg_wakeup q (set_queue q (?ds2\<lparr>msg_cbytes := msg_cbytes ?ds2 + ucast (msg_ts (msghdrs ?st2 h)),
       msg_qnum := msg_qnum ?ds2 + 1, msg_lspid := p, msg_stime := now\<rparr>) ?st2)"
  have e: "msg_enqueue p q h now st = Ok ?st"
  proof (cases "mq v q")
    case Nil
    with d show ?thesis by (simp add: msg_enqueue_def ds_ok_def st1_def Let_def)
  next
    case (Cons a as)
    with d show ?thesis by (simp add: msg_enqueue_def ds_ok_def st1_def Let_def)
  qed
  have nxt: "msg_next (msghdrs ?st k) = (if k = h then None else if mq v q \<noteq> [] \<and> k = last (mq v q) then Some h else msg_next (msghdrs st k))" for k
    by (auto simp: msg_wakeup_def st1_def)
  have r: "relinked st ?st" by (auto simp: relinked_def msg_wakeup_def st1_def)
  have f: "msg_ts (msghdrs ?st k) = msg_ts (msghdrs st k)" "msg_type (msghdrs ?st k) = msg_type (msghdrs st k)" for k
    using r by (simp_all add: relinked_def)
  have ds: "msg_first (msqids ?st q) = (if mq v q = [] then Some h else msg_first ?ds)" "msg_last (msqids ?st q) = Some h"
    "msg_cbytes (msqids ?st q) = msg_cbytes ?ds + ucast (msg_ts ?m)" "msg_qnum (msqids ?st q) = msg_qnum ?ds + 1"
    "msg_qbytes (msqids ?st q) = msg_qbytes ?ds"
    using nh by (auto simp: msg_wakeup_def st1_def)
  have "queue_ok ?st q (mq v q @ [h])"
  proof -
    have "hdr_chain ?st (msg_first (msqids ?st q)) (mq v q @ [h])"
    proof (cases "mq v q" rule: rev_cases)
      case Nil
      then show ?thesis unfolding ds by (simp add: nxt del: set_hdr_sel)
    next
      case (snoc as a)
      have "a \<notin> set as" "a \<noteq> h" "h \<notin> set as" using snoc nh ownsD(1) [OF minvD(10) [OF inv, of q]] by auto
      moreover have "hdr_chain st (msg_first ?ds) (as @ [a])" using d snoc by (simp add: ds_ok_def)
      ultimately have "chain Some None ((\<lambda>h. msg_next (msghdrs st h))(a := Some h, h := None)) (msg_first ?ds) (as @ [a, h])"
        by (intro chain_snoc) auto
      moreover have "(\<lambda>h. msg_next (msghdrs ?st h)) = (\<lambda>h. msg_next (msghdrs st h))(a := Some h, h := None)"
        by (rule ext) (simp only: nxt snoc last_snoc fun_upd_def, simp)
      ultimately show ?thesis unfolding ds using snoc by (simp del: set_hdr_sel)
    qed
    moreover have "bytes_of ?st (mq v q @ [h]) = bytes_of st (mq v q) + unat (msg_ts ?m)"
      using bytes_of_cong [of "mq v q" ?st st] f by simp
    moreover have "(ucast (msg_ts ?m) :: u32) = of_nat (unat (msg_ts ?m))" by simp
    moreover have "msq_live ?st q" using q(2) ds(5) by (simp add: msq_live_def)
    ultimately show ?thesis using d t b ds f unfolding queue_ok_def ds_ok_def by (auto split: if_splits)
  qed
  then have "minv E ?st (v\<lparr>mq := (mq v)(q := mq v q @ [h]), ho := (ho v)(h := HQueue q)\<rparr>)"
    by (intro minv_requeue [OF inv r]) (use h nh owns_snoc [OF minvD(10) [OF inv, of q] h(1)] in \<open>auto simp: msg_wakeup_def st1_def\<close>)
  with e r ds(5) show ?thesis by (intro exI [of _ ?st]) (auto simp: entered_def msg_wakeup_def st1_def)
qed

section \<open>Leaving a queue\<close>

lemma msg_search_found:
  assumes "hdr_chain st (slot_get q prev st) (as @ h # bs)" and "\<forall>k\<in>set as. \<not> msg_matches mtyp (msghdrs st k)"
    and "msg_matches mtyp (msghdrs st h)"
  shows "msg_search q mtyp st previous prev =
    Some (if as = [] then previous else Some (last as), if as = [] then prev else NextSlot (last as), Some h)"
  using assms
proof (induction as arbitrary: previous prev)
  case Nil
  then show ?case by (subst msg_search.simps) simp
next
  case (Cons a as)
  then have "msg_search q mtyp st (Some a) (NextSlot a) =
    Some (if as = [] then Some a else Some (last as), if as = [] then NextSlot a else NextSlot (last as), Some h)"
    by (intro Cons.IH) (simp_all add: slot_get_def)
  with Cons.prems show ?case by (subst msg_search.simps) simp
qed

lemma msg_search_none:
  assumes "hdr_chain st (slot_get q prev st) ms" and "\<forall>k\<in>set ms. \<not> msg_matches mtyp (msghdrs st k)"
  shows "\<exists>previous' prev'. msg_search q mtyp st previous prev = Some (previous', prev', None)"
  using assms
proof (induction ms arbitrary: previous prev)
  case Nil
  then show ?case by (subst msg_search.simps) simp
next
  case (Cons a as)
  then have "\<exists>previous' prev'. msg_search q mtyp st (Some a) (NextSlot a) = Some (previous', prev', None)"
    by (intro Cons.IH) (simp_all add: slot_get_def)
  with Cons.prems show ?case by (subst msg_search.simps) simp
qed

text \<open>A message taken out of the middle of a chain.\<close>

lemma chain_cut:
  assumes "chain ptr nil nx p (as @ h # bs)" and "distinct (as @ h # bs)"
  shows "chain ptr nil (if as = [] then nx else nx(last as := nx h)) (if as = [] then nx h else p) (as @ bs)"
  using assms
proof (induction as arbitrary: p)
  case (Cons a as)
  then have IH: "chain ptr nil (if as = [] then nx else nx(last as := nx h)) (if as = [] then nx h else nx a) (as @ bs)" by simp
  show ?case
  proof (cases "as = []")
    case True
    with IH Cons.prems show ?thesis by simp
  next
    case False
    then have "last as \<noteq> a" using Cons.prems(2) last_in_set [of as] by auto
    with False IH Cons.prems show ?thesis by (simp add: fun_upd_def)
  qed
qed simp

definition left :: "nat \<Rightarrow> nat \<Rightarrow> nat list \<Rightarrow> mview \<Rightarrow> mview" where
  "left q h ms v = v\<lparr>mq := (mq v)(q := ms), ho := (ho v)(h := HFlight)\<rparr>"

definition unlinked :: "nat \<Rightarrow> nat \<Rightarrow> nat list \<Rightarrow> nat list \<Rightarrow> msg_sys \<Rightarrow> msg_sys \<Rightarrow> bool" where
  "unlinked q h as bs st st' \<longleftrightarrow> relinked st st' \<and> (\<forall>r. r \<noteq> q \<longrightarrow> msqids st' r = msqids st r) \<and>
     (\<forall>k. k \<notin> set as \<longrightarrow> msghdrs st' k = msghdrs st k) \<and> hdr_chain st' (msg_first (msqids st' q)) (as @ bs) \<and>
     msg_last (msqids st' q) = (if as @ bs = [] then None else Some (last (as @ bs))) \<and>
     msg_cbytes (msqids st' q) = msg_cbytes (msqids st q) \<and> msg_qnum (msqids st' q) = msg_qnum (msqids st q) \<and>
     msg_qbytes (msqids st' q) = msg_qbytes (msqids st q)"

lemma unlink_first_ok:
  assumes d: "ds_ok st (msqids st q) (h # bs)" and dis: "distinct (h # bs)"
  shows "\<exists>st'. msg_unlink_first q h st = Ok st' \<and> unlinked q h [] bs st st'"
proof (cases bs)
  case Nil
  with d show ?thesis by (simp add: msg_unlink_first_def ds_ok_def unlinked_def relinked_def)
next
  case (Cons b cs)
  then have "last bs \<noteq> h" using dis last_in_set [of bs] by auto
  with d Cons show ?thesis by (auto simp: msg_unlink_first_def ds_ok_def unlinked_def relinked_def)
qed

lemma unlink_at_ok:
  assumes d: "ds_ok st (msqids st q) (as @ h # bs)" and dis: "distinct (as @ h # bs)"
    and pv: "previous = (if as = [] then None else Some (last as))" "prev = (if as = [] then FirstSlot else NextSlot (last as))"
  shows "\<exists>st'. msg_unlink_at q previous prev h st = Ok st' \<and> unlinked q h as bs st st'"
proof -
  let ?n = "msg_next (msghdrs st h)"
  let ?st1 = "slot_put q prev ?n st"
  have c: "chain Some None (if as = [] then (\<lambda>h. msg_next (msghdrs st h)) else (\<lambda>h. msg_next (msghdrs st h))(last as := ?n))
      (if as = [] then ?n else msg_first (msqids st q)) (as @ bs)"
    by (rule chain_cut [OF _ dis]) (use d in \<open>simp add: ds_ok_def\<close>)
  have nx: "(\<lambda>h. msg_next (msghdrs ?st1 h)) = (if as = [] then (\<lambda>h. msg_next (msghdrs st h)) else (\<lambda>h. msg_next (msghdrs st h))(last as := ?n))"
    using pv by (auto simp: slot_put_def)
  have fi: "msg_first (msqids ?st1 q) = (if as = [] then ?n else msg_first (msqids st q))" using pv by (simp add: slot_put_def)
  have la: "msg_last (msqids ?st1 q) = Some (last (as @ h # bs))" using d pv by (simp add: ds_ok_def slot_put_def)
  have re: "relinked st ?st1" "\<forall>r. r \<noteq> q \<longrightarrow> msqids ?st1 r = msqids st r" "\<forall>k. k \<notin> set as \<longrightarrow> msghdrs ?st1 k = msghdrs st k"
    "msg_cbytes (msqids ?st1 q) = msg_cbytes (msqids st q)" "msg_qnum (msqids ?st1 q) = msg_qnum (msqids st q)"
    "msg_qbytes (msqids ?st1 q) = msg_qbytes (msqids st q)"
    using pv last_in_set [of as] by (auto simp: slot_put_def relinked_def)
  show ?thesis
  proof (cases "bs = []")
    case False
    then have "last bs \<noteq> h" using dis last_in_set [of bs] by auto
    with False la have "msg_unlink_at q previous prev h st = Ok ?st1" by (simp add: msg_unlink_at_def Let_def)
    moreover have "unlinked q h as bs st ?st1" unfolding unlinked_def nx fi using c re la False by simp
    ultimately show ?thesis by blast
  next
    case True
    with la have l: "msg_last (msqids ?st1 q) = Some h" by simp
    show ?thesis
    proof (cases "as = []")
      case nil: True
      let ?st2 = "set_queue q ((msqids ?st1 q)\<lparr>msg_first := None, msg_last := None\<rparr>) ?st1"
      have "msg_unlink_at q previous prev h st = Ok ?st2" using l nil pv by (simp add: msg_unlink_at_def Let_def)
      moreover have "unlinked q h as bs st ?st2" using nil True re by (simp add: unlinked_def relinked_def)
      ultimately show ?thesis by blast
    next
      case nn: False
      let ?st2 = "set_queue q ((msqids ?st1 q)\<lparr>msg_last := Some (last as)\<rparr>) ?st1"
      have "msg_unlink_at q previous prev h st = Ok ?st2" using l nn pv by (simp add: msg_unlink_at_def Let_def)
      moreover have "unlinked q h as bs st ?st2" using c nx fi nn True re by (simp add: unlinked_def relinked_def)
      ultimately show ?thesis by blast
    qed
  qed
qed

end
