(* ===== verification/Ix_Msg_Calls.thy ===== *)
theory Ix_Msg_Calls
  imports Ix_Msg_Steps
begin

text \<open>
  What the calls of the message facility do, on every branch, in terms of the messages in the queues:
  \<open>queue_msgs\<close> reads the queue as the code would, by following the links.
\<close>

section \<open>The messages of a queue\<close>

fun walk :: "('p \<Rightarrow> 'a option) \<Rightarrow> ('a \<Rightarrow> 'p) \<Rightarrow> nat \<Rightarrow> 'p \<Rightarrow> 'a list" where
  "walk nd nx 0 p = []"
| "walk nd nx (Suc n) p = (case nd p of None \<Rightarrow> [] | Some x \<Rightarrow> x # walk nd nx n (nx x))"

lemma chain_walk:
  assumes "chain ptr nil nx p xs" and "\<And>x. nd (ptr x) = Some x" and "nd nil = None" and "length xs \<le> n"
  shows "walk nd nx n p = xs"
  using assms(1,4)
proof (induction xs arbitrary: p n)
  case Nil
  then show ?case using assms(3) by (cases n) simp_all
next
  case (Cons x xs)
  then show ?case using assms(2) by (cases n) simp_all
qed

definition msg_body :: "msg_sys \<Rightarrow> nat \<Rightarrow> u8 list" where
  "msg_body st h = take (unat (msg_ts (msghdrs st h)))
     (segs_bytes (msgpool st) (walk (\<lambda>p. if p < 0 then None else Some (nat p)) (msgmaps st) MSGSEG (msg_spot (msghdrs st h))))"

definition queue_msgs :: "msg_sys \<Rightarrow> nat \<Rightarrow> (int \<times> u8 list) list" where
  "queue_msgs st q =
     (if msq_live st q
      then map (\<lambda>h. (msg_type (msghdrs st h), msg_body st h)) (walk id (\<lambda>h. msg_next (msghdrs st h)) MSGTQL (msg_first (msqids st q)))
      else [])"

definition msg_of :: "msg_sys \<Rightarrow> mview \<Rightarrow> nat \<Rightarrow> int \<times> u8 list" where
  "msg_of st v h = (msg_type (msghdrs st h), take (unat (msg_ts (msghdrs st h))) (segs_bytes (msgpool st) (ss v h)))"

lemma owns_length:
  assumes "owns n ow c xs"
  shows "length xs \<le> n"
proof -
  have "length xs = card (set xs)" using ownsD(1) [OF assms] by (simp add: distinct_card)
  also have "\<dots> \<le> card {..<n}" by (rule card_mono) (use ownsD(2) [OF assms] in auto)
  finally show ?thesis by simp
qed

lemma queue_msgs_eq:
  assumes inv: "minv E st v" and q: "q \<notin> E"
  shows "queue_msgs st q = map (msg_of st v) (mq v q)"
proof (cases "msq_live st q")
  case True
  note d = queue_okD [OF inv q True]
  have w: "walk id (\<lambda>h. msg_next (msghdrs st h)) MSGTQL (msg_first (msqids st q)) = mq v q"
    by (rule chain_walk [of Some None]) (use d owns_length [OF minvD(10) [OF inv, of q]] in \<open>simp_all add: ds_ok_def\<close>)
  have "msg_body st h = snd (msg_of st v h)" if "h \<in> set (mq v q)" for h
  proof -
    have h: "h < MSGTQL" "ho v h \<noteq> HFree" using that ownsD(2) [OF minvD(10) [OF inv, of q], of h] by auto
    have "walk (\<lambda>p. if p < 0 then None else Some (nat p)) (msgmaps st) MSGSEG (msg_spot (msghdrs st h)) = ss v h"
      by (rule chain_walk [OF minvD(5) [OF inv h]]) (use owns_length [OF minvD(4) [OF inv, of h]] in simp_all)
    then show ?thesis by (simp add: msg_body_def msg_of_def)
  qed
  with True w show ?thesis by (simp add: queue_msgs_def msg_of_def)
next
  case False
  with minvD(11) [OF inv q] show ?thesis by (simp add: queue_msgs_def queue_ok_def)
qed

lemma length_msg_of:
  assumes inv: "minv E st v" and h: "h < MSGTQL" "ho v h \<noteq> HFree"
  shows "length (snd (msg_of st v h)) = unat (msg_ts (msghdrs st h))"
  using minvD(6) [OF inv h] ceil8_ge [of "unat (msg_ts (msghdrs st h))"] by (simp add: msg_of_def)

section \<open>msgsnd\<close>

lemma ceil8_small: "unat msgsz \<le> 2048 \<Longrightarrow> msg_segs msgsz = ceil8 (unat msgsz)"
proof -
  assume a: "unat msgsz \<le> 2048"
  then have "unat (msgsz + 7) = unat msgsz + 7" by (subst unat_add_lem [THEN iffD1]) simp_all
  then show ?thesis by (simp add: msg_segs_def unat_div ceil8_def)
qed

lemma msg_of_cong:
  assumes "msghdrs st' h = msghdrs st h" and "ss v' h = ss v h" and "\<And>s. s \<in> set (ss v h) \<Longrightarrow> seg_bytes (msgpool st') s = seg_bytes (msgpool st) s"
  shows "msg_of st' v' h = msg_of st v h"
  using assms segs_bytes_cong [of "ss v h" "msgpool st'" "msgpool st"] by (simp add: msg_of_def)

lemma relinked_msg_of: "relinked st st' \<Longrightarrow> ss v' = ss v \<Longrightarrow> msg_of st' v' h = msg_of st v h"
  by (simp add: msg_of_def relinked_def)

lemma freed_sel [simp]: "mq (freed h v) = mq v" "ss (freed h v) = (ss v)(h := [])" "ho (freed h v) = (ho v)(h := HFree)"
  by (simp_all add: freed_def)

lemma queue_not:
  assumes "minv E st v" and "ho v h = HFree \<or> ho v h = HFlight" and "k \<in> set (mq v q)"
  shows "k \<noteq> h" and "k < MSGTQL" and "ho v k = HQueue q"
  using ownsD(2) [OF minvD(10) [OF assms(1), of q], of k] assms(2,3) by auto

lemma lock_sel [simp]:
  "msghdrs (lock_queue q st) = msghdrs st" "msgpool (lock_queue q st) = msgpool st" "free_msghdrs (lock_queue q st) = free_msghdrs st"
  "msghdrs (unlock_queue q st) = msghdrs st" "msgpool (unlock_queue q st) = msgpool st"
  "msg_qbytes (msqids (lock_queue q st) r) = msg_qbytes (msqids st r)" "msg_qbytes (msqids (unlock_queue q st) r) = msg_qbytes (msqids st r)"
  by (simp_all add: lock_queue_def unlock_queue_def Let_def)

lemma no_needs:
  assumes inv: "minv {} st v" and q: "msq_live st q" and n: "\<not> msgsnd_needs q msgsz st" and sz: "msgsz \<le> msg_qbytes (msqids st q)"
  obtains h where "free_msghdrs st = Some h" "unat msgsz \<le> 2048" "ceil8 (unat msgsz) \<le> length (fs v)"
    "bytes_of st (mq v q) + unat msgsz \<le> 2048" "\<not> msg_locked (msqids st q)" "int (msg_segs msgsz) \<le> nfree_msgmaps st"
    "msgsz + msg_cbytes (msqids st q) \<le> msg_qbytes (msqids st q)"
proof -
  note d = queue_okD [OF inv _ q]
  have qb: "unat (msg_qbytes (msqids st q)) \<le> 2048" using d by (simp add: ds_ok_def word_le_nat_alt)
  with sz have s: "unat msgsz \<le> 2048" by (simp add: word_le_nat_alt)
  have cb: "unat (msg_cbytes (msqids st q)) = bytes_of st (mq v q)" "bytes_of st (mq v q) \<le> 2048"
    using d by (auto simp: ds_ok_def unsigned_of_nat take_bit_nat_eq_self)
  have u: "unat (msgsz + msg_cbytes (msqids st q)) = unat msgsz + bytes_of st (mq v q)"
    using s cb by (subst unat_add_lem [THEN iffD1]) simp_all
  from n have le: "msgsz + msg_cbytes (msqids st q) \<le> msg_qbytes (msqids st q)" by (simp add: msgsnd_needs_def not_less)
  then have "unat msgsz + bytes_of st (mq v q) \<le> 2048" using qb u by (simp add: word_le_nat_alt)
  moreover from n obtain h where "free_msghdrs st = Some h" by (auto simp: msgsnd_needs_def)
  moreover have "ceil8 (unat msgsz) \<le> length (fs v)"
    using n minvD(3) [OF inv] ceil8_small [OF s] by (simp add: msgsnd_needs_def)
  ultimately show thesis using n s le by (intro that [of h]) (auto simp: msgsnd_needs_def)
qed

text \<open>What the two outcomes of \<open>msgsnd_put\<close> share: header and segments are taken from the locked queue's state.\<close>

lemma put_taken:
  assumes inv: "minv {} st v" and f: "free_msghdrs st = Some h" and s: "unat msgsz \<le> 2048" and n: "ceil8 (unat msgsz) \<le> length (fs v)"
  shows "\<exists>spot st3. msg_alloc (msg_segs msgsz) (-1) ((lock_queue q st)\<lparr>free_msghdrs := msg_next (msghdrs (lock_queue q st) h)\<rparr>) = Ok (spot, st3) \<and>
    minv {} (set_hdr h ((msghdrs st3 h)\<lparr>msg_ts := ucast msgsz, msg_spot := spot, msg_type := mtyp\<rparr>) st3) (taken h (ceil8 (unat msgsz)) v) \<and>
    msqids st3 = msqids (lock_queue q st) \<and> msgpool st3 = msgpool st \<and> msghdrs st3 = msghdrs st \<and> h < MSGTQL \<and> ho v h = HFree"
proof -
  have u: "unat (ucast msgsz :: u16) = unat msgsz" using s by (simp add: unsigned_ucast_eq take_bit_nat_eq_self)
  show ?thesis
    using take_ok [OF minv_lock(1) [OF inv, of q], of h "ucast msgsz" mtyp] f n unfolding u ceil8_small [OF s] by simp
qed

lemma put_bad_type:
  assumes inv: "minv {} st v" and nf: "\<forall>h. ho v h \<noteq> HFlight" and q: "msq_live st q" and n: "\<not> msgsnd_needs q msgsz st"
    and sz: "msgsz \<le> msg_qbytes (msqids st q)" and t: "mtyp < 1"
  shows "\<exists>st' v'. msgsnd_put p now q (msg_segs msgsz) msgsz mtyp body st = Ok (msg_error EINVAL st') \<and> minv {} st' v' \<and>
           (\<forall>h. ho v' h \<noteq> HFlight) \<and> (\<forall>r. map (msg_of st' v') (mq v' r) = map (msg_of st v) (mq v r))"
proof -
  from no_needs [OF inv q n sz] obtain h where h: "free_msghdrs st = Some h" "unat msgsz \<le> 2048" "ceil8 (unat msgsz) \<le> length (fs v)"
    "\<not> msg_locked (msqids st q)" "int (msg_segs msgsz) \<le> nfree_msgmaps st" "msgsz + msg_cbytes (msqids st q) \<le> msg_qbytes (msqids st q)" .
  from put_taken [OF inv h(1-3), of q mtyp] obtain spot st3 where st3:
    "msg_alloc (msg_segs msgsz) (-1) ((lock_queue q st)\<lparr>free_msghdrs := msg_next (msghdrs (lock_queue q st) h)\<rparr>) = Ok (spot, st3)"
    "minv {} (set_hdr h ((msghdrs st3 h)\<lparr>msg_ts := ucast msgsz, msg_spot := spot, msg_type := mtyp\<rparr>) st3) (taken h (ceil8 (unat msgsz)) v)"
    "msgpool st3 = msgpool st" "msghdrs st3 = msghdrs st" "h < MSGTQL" "ho v h = HFree" by blast
  let ?v4 = "taken h (ceil8 (unat msgsz)) v"
  let ?st4 = "set_hdr h ((msghdrs st3 h)\<lparr>msg_ts := ucast msgsz, msg_spot := spot, msg_type := mtyp\<rparr>) st3"
  from freehdr_ok [OF st3(2,5)] obtain st5 where st5: "msg_freehdr h ?st4 = Ok st5" "minv {} st5 (freed h ?v4)"
    "msgpool st5 = msgpool ?st4" "\<forall>k. k \<noteq> h \<longrightarrow> msghdrs st5 k = msghdrs ?st4 k" by (auto simp: taken_sel)
  let ?st6 = "msg_wakeup q (unlock_queue q st5)"
  have "msgsnd_put p now q (msg_segs msgsz) msgsz mtyp body st = Ok (msg_error EINVAL ?st6)"
    using st3(1) st5(1) h t by (simp add: msgsnd_put_def Let_def not_less del: lock_sel)
  moreover have "minv {} ?st6 (freed h ?v4)" using minv_lock(2) [OF st5(2)] by simp
  moreover have "msg_of ?st6 (freed h ?v4) k = msg_of st v k" if "k \<in> set (mq v r)" for k r
    using queue_not(1) [OF inv _ that, of h] st3(3,4,6) st5(3,4)
    by (intro msg_of_cong) (auto simp: taken_sel msg_wakeup_def)
  ultimately show ?thesis using nf
    by (intro exI [of _ ?st6] exI [of _ "freed h ?v4"]) (auto simp: taken_sel)
qed

lemma put_good:
  assumes inv: "minv {} st v" and nf: "\<forall>h. ho v h \<noteq> HFlight" and q: "msq_live st q" and n: "\<not> msgsnd_needs q msgsz st"
    and sz: "msgsz \<le> msg_qbytes (msqids st q)" and t: "1 \<le> mtyp"
  shows "\<exists>st' v'. msgsnd_put p now q (msg_segs msgsz) msgsz mtyp body st = Ok (MsgRet 0 st') \<and> minv {} st' v' \<and>
           (\<forall>h. ho v' h \<noteq> HFlight) \<and> (\<forall>r. map (msg_of st' v') (mq v' r) =
              map (msg_of st v) (mq v r) @ (if r = q then [(mtyp, map body [0..<unat msgsz])] else []))"
proof -
  from no_needs [OF inv q n sz] obtain h where h: "free_msghdrs st = Some h" "unat msgsz \<le> 2048" "ceil8 (unat msgsz) \<le> length (fs v)"
    "\<not> msg_locked (msqids st q)" "int (msg_segs msgsz) \<le> nfree_msgmaps st" "msgsz + msg_cbytes (msqids st q) \<le> msg_qbytes (msqids st q)"
    and bb: "bytes_of st (mq v q) + unat msgsz \<le> 2048" .
  have u: "unat (ucast msgsz :: u16) = unat msgsz" using h(2) by (simp add: unsigned_ucast_eq take_bit_nat_eq_self)
  from put_taken [OF inv h(1-3), of q mtyp] obtain spot st3 where st3:
    "msg_alloc (msg_segs msgsz) (-1) ((lock_queue q st)\<lparr>free_msghdrs := msg_next (msghdrs (lock_queue q st) h)\<rparr>) = Ok (spot, st3)"
    "minv {} (set_hdr h ((msghdrs st3 h)\<lparr>msg_ts := ucast msgsz, msg_spot := spot, msg_type := mtyp\<rparr>) st3) (taken h (ceil8 (unat msgsz)) v)"
    "msgpool st3 = msgpool st" "msghdrs st3 = msghdrs st" "h < MSGTQL" "ho v h = HFree" "msqids st3 = msqids (lock_queue q st)" by blast
  let ?v4 = "taken h (ceil8 (unat msgsz)) v"
  let ?st4 = "set_hdr h ((msghdrs st3 h)\<lparr>msg_ts := ucast msgsz, msg_spot := spot, msg_type := mtyp\<rparr>) st3"
  have fl: "ho ?v4 h \<noteq> HFree" "ho ?v4 h = HFlight" by (simp_all add: taken_sel)
  have ch: "seg_chain ?st4 spot (ss ?v4 h)" "length (ss ?v4 h) = ceil8 (unat msgsz)"
    using minvD(5,6) [OF st3(2,5) fl(1)] u by simp_all
  obtain st5 where st5: "msg_copyin (unat msgsz) spot body ?st4 = Ok (-1, st5)" "st5 = ?st4\<lparr>msgpool := msgpool st5\<rparr>"
    "take (unat msgsz) (segs_bytes (msgpool st5) (ss ?v4 h)) = map body [0..<unat msgsz]"
    "\<forall>s. s \<notin> set (ss ?v4 h) \<longrightarrow> seg_bytes (msgpool st5) s = seg_bytes (msgpool st) s"
    using msg_copyin_ok [OF ch(1) ownsD(1) [OF minvD(4) [OF st3(2)]] _ ch(2), of body] segs_less(1) [OF st3(2)] st3(3) by auto
  let ?st6 = "unlock_queue q st5"
  have "minv {} (?st4\<lparr>msgpool := msgpool st5\<rparr>) ?v4" using st3(2) by simp
  then have m6: "minv {} ?st6 ?v4" unfolding st5(2) [symmetric] by (rule minv_lock(2))
  have "msghdrs (?st4\<lparr>msgpool := msgpool st5\<rparr>) = msghdrs ?st4" "msqids (?st4\<lparr>msgpool := msgpool st5\<rparr>) = msqids (lock_queue q st)"
    using st3(7) by simp_all
  then have h6: "msghdrs ?st6 = msghdrs ?st4" "msg_qbytes (msqids ?st6 q) = msg_qbytes (msqids st q)" unfolding st5(2) [symmetric] by simp_all
  have qh: "k \<noteq> h" if "k \<in> set (mq v r)" for k r using queue_not(1) [OF inv _ that, of h] st3(6) by simp
  have "bytes_of ?st6 (mq v q) = bytes_of st (mq v q)" by (rule bytes_of_cong) (use qh h6 st3(4) in auto)
  then obtain st7 where st7: "msg_enqueue p q h now ?st6 = Ok st7" "minv {} st7 (entered q h ?v4)" "relinked ?st6 st7"
    using enqueue_ok [OF m6 _ _ st3(5) fl(2), of q p now] q h6 t bb u by (auto simp: msq_live_def taken_sel)
  have "msgsnd_put p now q (msg_segs msgsz) msgsz mtyp body st = Ok (MsgRet 0 st7)"
    using st3(1) st5(1) st7(1) h t h6 q by (simp add: msgsnd_put_def Let_def not_less msq_live_def del: lock_sel)
  moreover have "msg_of st7 (entered q h ?v4) k = msg_of ?st6 ?v4 k" for k
    by (rule relinked_msg_of [OF st7(3)]) (simp add: entered_def)
  moreover have "msg_of ?st6 ?v4 h = (mtyp, map body [0..<unat msgsz])" using h6 st5(3) u by (simp add: msg_of_def)
  moreover have "msg_of ?st6 ?v4 k = msg_of st v k" if "k \<in> set (mq v r)" for k r
    by (rule msg_of_cong) (use qh [OF that] h6 st3(4) st5(4) segs_disj(2) [OF st3(2), of k h] in \<open>auto simp: taken_sel\<close>)
  ultimately show ?thesis using nf st7(2)
    by (intro exI [of _ st7] exI [of _ "entered q h ?v4"]) (auto simp: entered_def taken_sel)
qed

section \<open>msgrcv\<close>

text \<open>The books are kept: the header is in flight and the queue describes the other messages.\<close>

lemma leave_ok:
  assumes inv: "minv {} st v" and q: "msq_live st q" and l: "mq v q = as @ h # bs" and un: "unlinked q h as bs st st1"
    and st2: "st2 = set_queue q ((msqids st1 q)\<lparr>msg_cbytes := msg_cbytes (msqids st1 q) - ucast (msg_ts (msghdrs st1 h)),
       msg_qnum := msg_qnum (msqids st1 q) - 1, msg_lrpid := p, msg_rtime := now\<rparr>) st1"
  shows "minv {} st2 (left q h (as @ bs) v)" and "relinked st st2"
proof -
  note d = queue_okD [OF inv _ q, unfolded l]
  have h: "h < MSGTQL" "ho v h = HQueue q" using ownsD(2) [OF minvD(10) [OF inv, of q], of h] l by auto
  have r: "relinked st st1" using un by (simp add: unlinked_def)
  then show r2: "relinked st st2" by (simp add: relinked_def st2)
  have ts: "msg_ts (msghdrs st2 k) = msg_ts (msghdrs st k)" "msg_type (msghdrs st2 k) = msg_type (msghdrs st k)" for k
    using r2 by (simp_all add: relinked_def)
  have b: "bytes_of st2 (as @ bs) = bytes_of st (as @ bs)" by (rule bytes_of_cong) (rule ts)
  let ?t = "unat (msg_ts (msghdrs st h))"
  have uc: "(ucast (msg_ts (msghdrs st h)) :: u32) = of_nat ?t" by simp
  have "ds_ok st2 (msqids st2 q) (as @ bs)"
  proof -
    have "bytes_of st (as @ h # bs) = bytes_of st (as @ bs) + ?t" by simp
    then have "(of_nat (bytes_of st (as @ h # bs)) :: u32) - ucast (msg_ts (msghdrs st h)) = of_nat (bytes_of st (as @ bs))"
      unfolding uc by (simp only: of_nat_add add_diff_cancel_right')
    moreover have "msghdrs st2 = msghdrs st1" by (simp add: st2)
    moreover have "msg_ts (msghdrs st1 h) = msg_ts (msghdrs st h)" using r by (simp add: relinked_def)
    ultimately show ?thesis using d un ts(2) b unfolding ds_ok_def unlinked_def by (auto simp: st2)
  qed
  then have "queue_ok st2 q (as @ bs)" using q un by (simp add: queue_ok_def msq_live_def unlinked_def st2)
  then show "minv {} st2 (left q h (as @ bs) v)" unfolding left_def
    by (intro minv_requeue [OF inv r2])
      (use h un l owns_drop [of MSGTQL "ho v" "HQueue q" as h bs HFlight] minvD(10) [OF inv, of q] in \<open>auto simp: unlinked_def st2\<close>)
qed

text \<open>How many bytes the loop writes for a message of \<open>n\<close> bytes.\<close>

definition written :: "nat \<Rightarrow> nat" where
  "written n = (if n \<le> MSGSSZ then n else MSGSSZ * ((n + 7) div MSGSSZ))"

lemma copyout_length:
  assumes "ceil8 n \<le> length xs"
  shows "length (concat (map (\<lambda>s. take n (seg_bytes pool s)) (take (ceil8 n) xs))) = written n"
proof -
  have "length (concat (map (\<lambda>s. take n (seg_bytes pool s)) ys)) = length ys * min 8 n" for ys
    by (induction ys) simp_all
  then have l: "length (concat (map (\<lambda>s. take n (seg_bytes pool s)) (take (ceil8 n) xs))) = ceil8 n * min 8 n" using assms by simp
  consider "n = 0" | "0 < n" "n \<le> 8" | "8 < n" by linarith
  then show ?thesis unfolding l by cases (simp_all add: written_def ceil8_pos ceil8_def min_def)
qed

lemma rcv_take_ok:
  assumes inv: "minv {} st v" and nf: "\<forall>h. ho v h \<noteq> HFlight" and q: "msq_live st q" and l: "mq v q = as @ h # bs"
    and un: "unlinked q h as bs st st1"
  shows "\<exists>out st' v'. msgrcv_take p now q h msgsz st1 =
           Ok (MsgGot (int (min (unat msgsz) (length (snd (msg_of st v h))))) (fst (msg_of st v h)) out st') \<and>
           take (min (unat msgsz) (length (snd (msg_of st v h)))) out = take (unat msgsz) (snd (msg_of st v h)) \<and>
           length out = written (min (unat msgsz) (length (snd (msg_of st v h)))) \<and>
           minv {} st' v' \<and> (\<forall>h. ho v' h \<noteq> HFlight) \<and>
           (\<forall>r. map (msg_of st' v') (mq v' r) = map (msg_of st v) (if r = q then as @ bs else mq v r))"
proof -
  have h: "h < MSGTQL" "ho v h = HQueue q" "ho v h \<noteq> HFree" using ownsD(2) [OF minvD(10) [OF inv, of q], of h] l by auto
  define st2 where st2: "st2 = set_queue q ((msqids st1 q)\<lparr>msg_cbytes := msg_cbytes (msqids st1 q) - ucast (msg_ts (msghdrs st1 h)),
       msg_qnum := msg_qnum (msqids st1 q) - 1, msg_lrpid := p, msg_rtime := now\<rparr>) st1"
  let ?v2 = "left q h (as @ bs) v" and ?m = "msghdrs st h"
  note lv = leave_ok [OF inv q l un st2]
  have fl: "ho ?v2 h = HFlight" "ho ?v2 h \<noteq> HFree" "ss ?v2 = ss v" by (simp_all add: left_def)
  have mo: "msg_of st2 ?v2 k = msg_of st v k" for k by (rule relinked_msg_of [OF lv(2) fl(3)])
  have hd: "msg_ts (msghdrs st1 h) = msg_ts ?m" "msg_spot (msghdrs st1 h) = msg_spot ?m" "msg_type (msghdrs st1 h) = msg_type ?m" "msgpool st2 = msgpool st"
    using un lv(2) by (simp_all add: unlinked_def relinked_def)
  define sz where sz: "sz = (if ucast (msg_ts ?m) < msgsz then ucast (msg_ts ?m) else msgsz)"
  have len: "length (snd (msg_of st v h)) = unat (msg_ts ?m)" by (rule length_msg_of [OF inv h(1,3)])
  have "unat (ucast (msg_ts ?m) :: u32) = unat (msg_ts ?m)" by (simp add: unsigned_ucast_eq take_bit_nat_eq_self order_less_le_trans [OF unsigned_less])
  then have usz: "unat sz = min (unat msgsz) (unat (msg_ts ?m))" by (auto simp: sz word_less_nat_alt min_def)
  have chs: "seg_chain st2 (msg_spot ?m) (ss v h)" "length (ss v h) = ceil8 (unat (msg_ts ?m))"
    using minvD(5,6) [OF lv(1) h(1) fl(2)] lv(2) by (simp_all add: fl(3) relinked_def)
  have c8: "ceil8 (unat sz) \<le> length (ss v h)" unfolding chs(2) usz ceil8_def by (intro div_le_mono) simp
  let ?out = "concat (map (\<lambda>s. take (unat sz) (seg_bytes (msgpool st) s)) (take (ceil8 (unat sz)) (ss v h)))"
  have out: "msg_copyout 0 (unat sz) (msg_spot ?m) st2 = Ok ?out"
    using msg_copyout_ok [OF chs(1), of "unat sz" 0] c8 segs_less(1) [OF inv] hd(4) by simp
  have pre: "take (unat sz) ?out = take (unat msgsz) (snd (msg_of st v h))"
    unfolding copyout_prefix [OF c8] by (simp add: msg_of_def usz)
  from freehdr_ok [OF lv(1) h(1) fl(1)] obtain st3 where st3: "msg_freehdr h st2 = Ok st3" "minv {} st3 (freed h ?v2)"
    "msgpool st3 = msgpool st2" "\<forall>k. k \<noteq> h \<longrightarrow> msghdrs st3 k = msghdrs st2 k" by blast
  let ?st4 = "msg_wakeup q st3" and ?v4 = "freed h ?v2"
  have "msgrcv_take p now q h msgsz st1 = Ok (MsgGot (int (unat sz)) (fst (msg_of st v h)) ?out ?st4)"
    using out st3(1) unfolding msgrcv_take_def Let_def unfolding st2 [symmetric] unfolding hd sz [symmetric] by (simp add: msg_of_def)
  moreover have "minv {} ?st4 ?v4" using st3(2) by simp
  moreover have "msg_of ?st4 ?v4 k = msg_of st v k" if "k \<in> set (mq ?v2 r)" for k r
  proof -
    have "k \<noteq> h" by (rule queue_not(1) [OF lv(1) _ that]) (use fl in simp)
    with st3(3,4) show ?thesis unfolding mo [symmetric] by (intro msg_of_cong) (auto simp: msg_wakeup_def)
  qed
  moreover have "mq ?v2 r = (if r = q then as @ bs else mq v r)" for r by (simp add: left_def)
  ultimately show ?thesis using nf pre copyout_length [OF c8] unfolding len usz [symmetric]
    by (intro exI [of _ ?out] exI [of _ ?st4] exI [of _ ?v4]) (auto simp: left_def)
qed

text \<open>The specification: the first message of a type asked for.\<close>

fun take_first :: "('a \<Rightarrow> bool) \<Rightarrow> 'a list \<Rightarrow> ('a \<times> 'a list) option" where
  "take_first P [] = None"
| "take_first P (x # xs) = (if P x then Some (x, xs) else map_option (\<lambda>(y, ys). (y, x # ys)) (take_first P xs))"

definition type_matches :: "int \<Rightarrow> int \<times> u8 list \<Rightarrow> bool" where
  "type_matches msgtyp m \<longleftrightarrow> msgtyp = 0 \<or> msgtyp = fst m \<or> fst m \<le> s32 (- msgtyp)"

lemma take_first_found: "\<forall>x\<in>set as. \<not> P x \<Longrightarrow> P h \<Longrightarrow> take_first P (as @ h # bs) = Some (h, as @ bs)"
  by (induction as) simp_all

lemma take_first_none: "take_first P xs = None \<longleftrightarrow> (\<forall>x\<in>set xs. \<not> P x)"
  by (induction xs) auto

definition got_ok :: "msg_sys \<Rightarrow> nat \<Rightarrow> u32 \<Rightarrow> int \<Rightarrow> (int \<times> u8 list) \<times> (int \<times> u8 list) list \<Rightarrow> msg_out \<Rightarrow> bool" where
  "got_ok st q msgsz msgflg r out \<longleftrightarrow>
     (case r of ((t, b), rest) \<Rightarrow>
        if unat msgsz < length b \<and> msgflg AND MSG_NOERROR = 0 then out = msg_error E2BIG st
        else \<exists>bytes st'. out = MsgGot (int (min (unat msgsz) (length b))) t bytes st' \<and>
               take (min (unat msgsz) (length b)) bytes = take (unat msgsz) b \<and>
               length bytes = written (min (unat msgsz) (length b)) \<and> msg_ok st' \<and>
               queue_msgs st' q = rest \<and> (\<forall>r. r \<noteq> q \<longrightarrow> queue_msgs st' r = queue_msgs st r))"

lemma got_okI:
  assumes inv: "minv {} st v" and nf: "\<forall>h. ho v h \<noteq> HFlight" and q: "msq_live st q" and l: "mq v q = as @ h # bs"
    and un: "\<exists>st1. ul = Ok st1 \<and> unlinked q h as bs st st1"
  shows "\<exists>out. (if msg_toobig msgsz msgflg (msghdrs st h) then Ok (msg_error E2BIG st)
               else exec_bind ul (\<lambda>st1. msgrcv_take p now q h msgsz st1)) = Ok out \<and>
           got_ok st q msgsz msgflg (msg_of st v h, map (msg_of st v) (as @ bs)) out"
proof -
  have h: "h < MSGTQL" "ho v h \<noteq> HFree" using ownsD(2) [OF minvD(10) [OF inv, of q], of h] l by auto
  have len: "length (snd (msg_of st v h)) = unat (msg_ts (msghdrs st h))" by (rule length_msg_of [OF inv h])
  have "unat (ucast (msg_ts (msghdrs st h)) :: u32) = unat (msg_ts (msghdrs st h))"
    by (simp add: unsigned_ucast_eq take_bit_nat_eq_self order_less_le_trans [OF unsigned_less])
  then have tb: "msg_toobig msgsz msgflg (msghdrs st h) \<longleftrightarrow> unat msgsz < length (snd (msg_of st v h)) \<and> msgflg AND MSG_NOERROR = 0"
    by (simp add: msg_toobig_def len word_less_nat_alt)
  show ?thesis
  proof (cases "msg_toobig msgsz msgflg (msghdrs st h)")
    case True
    with tb show ?thesis by (simp add: got_ok_def split_beta)
  next
    case False
    from un obtain st1 where st1: "ul = Ok st1" "unlinked q h as bs st st1" by blast
    from rcv_take_ok [OF inv nf q l st1(2), of p now msgsz] obtain out st' v' where o:
      "msgrcv_take p now q h msgsz st1 = Ok (MsgGot (int (min (unat msgsz) (length (snd (msg_of st v h))))) (fst (msg_of st v h)) out st')"
      "take (min (unat msgsz) (length (snd (msg_of st v h)))) out = take (unat msgsz) (snd (msg_of st v h))
        \<and> length out = written (min (unat msgsz) (length (snd (msg_of st v h))))"
      "minv {} st' v'" "\<forall>h. ho v' h \<noteq> HFlight" "\<forall>r. map (msg_of st' v') (mq v' r) = map (msg_of st v) (if r = q then as @ bs else mq v r)"
      by blast
    have "msg_ok st'" using o(3,4) by (auto simp: msg_ok_def)
    moreover have "queue_msgs st' q = map (msg_of st v) (as @ bs)" "\<And>r. r \<noteq> q \<Longrightarrow> queue_msgs st' r = queue_msgs st r"
      using o(5) queue_msgs_eq [OF o(3)] queue_msgs_eq [OF inv] by simp_all
    moreover have "\<not> (unat msgsz < length (snd (msg_of st v h)) \<and> msgflg AND MSG_NOERROR = 0)" using False tb by simp
    ultimately show ?thesis using False st1(1) o(1,2) by (simp only: got_ok_def split_beta fst_conv snd_conv if_False exec_bind.simps) auto
  qed
qed

lemma msgrcv_turn_ok:
  assumes "msg_ok st" and q: "msq_live st q"
  shows "\<exists>out. msgrcv_turn p now q msgsz msgtyp msgflg st = Some (Ok out) \<and>
           (case take_first (type_matches msgtyp) (queue_msgs st q) of
              None \<Rightarrow> out = (if msgflg AND MSG_NOWAIT \<noteq> 0 then msg_error EAGAIN st else RcvSleep q st)
            | Some r \<Rightarrow> got_ok st q msgsz msgflg r out)"
proof -
  from assms(1) obtain v where inv: "minv {} st v" and nf: "\<forall>h. ho v h \<noteq> HFlight" by (auto simp: msg_ok_def)
  note d = queue_okD [OF inv _ q] and qm = queue_msgs_eq [OF inv, of q]
  have dis: "distinct (mq v q)" by (rule ownsD(1) [OF minvD(10) [OF inv]])
  have ch: "hdr_chain st (msg_first (msqids st q)) (mq v q)" using d by (simp add: ds_ok_def)
  have m: "type_matches msgtyp (msg_of st v k) \<longleftrightarrow> msgtyp = 0 \<or> msg_matches msgtyp (msghdrs st k)" for k
    by (simp add: type_matches_def msg_of_def msg_matches_def)
  show ?thesis
  proof (cases "\<exists>k\<in>set (mq v q). type_matches msgtyp (msg_of st v k)")
    case False
    then have tf: "take_first (type_matches msgtyp) (queue_msgs st q) = None" using qm by (simp add: take_first_none)
    show ?thesis
    proof (cases "msgtyp = 0")
      case True
      with False m have "mq v q = []" by (cases "mq v q") auto
      with True tf ch show ?thesis by (simp add: msgrcv_turn_def)
    next
      case nz: False
      with False m have "\<forall>k\<in>set (mq v q). \<not> msg_matches msgtyp (msghdrs st k)" by auto
      with msg_search_none [of st q FirstSlot "mq v q" msgtyp None] ch obtain a b where "msg_search q msgtyp st None FirstSlot = Some (a, b, None)"
        by (auto simp: slot_get_def)
      with nz tf show ?thesis by (simp add: msgrcv_turn_def)
    qed
  next
    case True
    then obtain as h bs where l: "mq v q = as @ h # bs" and P: "type_matches msgtyp (msg_of st v h)"
      "\<forall>k\<in>set as. \<not> type_matches msgtyp (msg_of st v k)"
      using split_list_first_prop [of "mq v q" "\<lambda>k. type_matches msgtyp (msg_of st v k)"] by auto
    have tf: "take_first (type_matches msgtyp) (queue_msgs st q) = Some (msg_of st v h, map (msg_of st v) (as @ bs))"
      using take_first_found [of "map (msg_of st v) as" "type_matches msgtyp" "msg_of st v h" "map (msg_of st v) bs"] P qm l by simp
    show ?thesis
    proof (cases "msgtyp = 0")
      case True
      with P m have as: "as = []" by (cases as) auto
      then have "msg_first (msqids st q) = Some h" using ch l by simp
      moreover have "\<exists>st1. msg_unlink_first q h st = Ok st1 \<and> unlinked q h as bs st st1"
        using unlink_first_ok [of st q h bs] d dis l as by simp
      note got_okI [OF inv nf q l this, of msgsz msgflg p now]
      ultimately show ?thesis using True unfolding tf by (auto simp: msgrcv_turn_def split: if_splits)
    next
      case False
      have "msg_search q msgtyp st None FirstSlot = Some (if as = [] then None else Some (last as), if as = [] then FirstSlot else NextSlot (last as), Some h)"
        by (rule msg_search_found) (use ch l P m False in \<open>auto simp: slot_get_def\<close>)
      moreover have "\<exists>st1. msg_unlink_at q (if as = [] then None else Some (last as)) (if as = [] then FirstSlot else NextSlot (last as)) h st = Ok st1 \<and>
          unlinked q h as bs st st1"
        by (rule unlink_at_ok [OF _ _ refl refl]) (use d dis l in simp_all)
      note got_okI [OF inv nf q l this, of msgsz msgflg p now]
      ultimately show ?thesis using False unfolding tf by (simp add: msgrcv_turn_def)
    qed
  qed
qed

end
