(* ===== verification/Ix_Msg_Props.thy ===== *)
theory Ix_Msg_Props
  imports Ix_Msg_Calls
begin

text \<open>
  The calls of the message facility, put together: every call keeps the invariant, and the properties
  of the facility.
\<close>

section \<open>Calls that change a queue\<close>

lemma msg_okI: "minv {} st v \<Longrightarrow> \<forall>h. ho v h \<noteq> HFlight \<Longrightarrow> msg_ok st"
  by (auto simp: msg_ok_def)

lemma msg_ok_env [simp]: "msg_ok (st\<lparr>msg_errno := e\<rparr>) = msg_ok st" "msg_ok (msg_wakeup q st) = msg_ok st"
  by (simp_all add: msg_ok_def)

lemma msg_ok_lock: "msg_ok st \<Longrightarrow> msg_ok (lock_queue q st)" "msg_ok st \<Longrightarrow> msg_ok (unlock_queue q st)"
  by (auto simp: msg_ok_def intro: minv_lock)

lemma msgsnd_turn_ok:
  assumes "msg_ok st" and q: "msq_live st q"
  shows "\<exists>out. msgsnd_turn p now q msgsz msgflg mtyp body st = Ok out \<and>
    (if msg_qbytes (msqids st q) < msgsz then out = msg_error EINVAL st
     else if msgsnd_needs q msgsz st
     then out = (if msgflg AND MSG_NOWAIT \<noteq> 0 then msg_error EAGAIN st
                 else if msg_locked (msqids st q) then SndSleep q False st else SndSleep q True (lock_queue q st))
     else if mtyp < 1 then \<exists>st'. out = msg_error EINVAL st' \<and> msg_ok st' \<and> (\<forall>r. queue_msgs st' r = queue_msgs st r)
     else \<exists>st'. out = MsgRet 0 st' \<and> msg_ok st' \<and>
       (\<forall>r. queue_msgs st' r = queue_msgs st r @ (if r = q then [(mtyp, map body [0..<unat msgsz])] else [])))"
proof -
  from assms(1) obtain v where inv: "minv {} st v" and nf: "\<forall>h. ho v h \<noteq> HFlight" by (auto simp: msg_ok_def)
  note qm = queue_msgs_eq [OF inv]
  show ?thesis
  proof (cases "msg_qbytes (msqids st q) < msgsz \<or> msgsnd_needs q msgsz st")
    case True
    then show ?thesis by (auto simp: msgsnd_turn_def)
  next
    case False
    then have le: "msgsz \<le> msg_qbytes (msqids st q)" and n: "\<not> msgsnd_needs q msgsz st" by auto
    have e: "msgsnd_turn p now q msgsz msgflg mtyp body st = msgsnd_put p now q (msg_segs msgsz) msgsz mtyp body st"
      using False by (simp add: msgsnd_turn_def)
    show ?thesis
    proof (cases "mtyp < 1")
      case True
      from put_bad_type [OF inv nf q n le True, of p now body] obtain st' v' where st':
        "msgsnd_put p now q (msg_segs msgsz) msgsz mtyp body st = Ok (msg_error EINVAL st')" "minv {} st' v'" "\<forall>h. ho v' h \<noteq> HFlight"
        "\<forall>r. map (msg_of st' v') (mq v' r) = map (msg_of st v) (mq v r)" by blast
      then have "\<forall>r. queue_msgs st' r = queue_msgs st r" using qm queue_msgs_eq [OF st'(2)] by simp
      with True e st'(1) msg_okI [OF st'(2,3)] False show ?thesis by auto
    next
      case t: False
      then have "1 \<le> mtyp" by simp
      from put_good [OF inv nf q n le this, of p now body] obtain st' v' where st':
        "msgsnd_put p now q (msg_segs msgsz) msgsz mtyp body st = Ok (MsgRet 0 st')" "minv {} st' v'" "\<forall>h. ho v' h \<noteq> HFlight"
        "\<forall>r. map (msg_of st' v') (mq v' r) = map (msg_of st v) (mq v r) @ (if r = q then [(mtyp, map body [0..<unat msgsz])] else [])" by blast
      then have "\<forall>r. queue_msgs st' r = queue_msgs st r @ (if r = q then [(mtyp, map body [0..<unat msgsz])] else [])"
        using qm queue_msgs_eq [OF st'(2)] by simp
      with t e st'(1) msg_okI [OF st'(2,3)] False show ?thesis by auto
    qed
  qed
qed

text \<open>The loop of \<open>IPC_RMID\<close>, over headers that no longer belong to the queue.\<close>

lemma rmloop_ok:
  assumes "minv {q} st v" and "distinct hs" and "\<forall>h\<in>set hs. h < MSGTQL \<and> ho v h = HFlight" and "hdr_chain st p hs"
    and "msg_cbytes (msqids st q) = of_nat (bytes_of st hs)" and "msg_qnum (msqids st q) = of_nat (length hs)"
  shows "\<exists>st' v'. msg_rmloop q p st = Some (Ok st') \<and> minv {q} st' v' \<and> ho v' = give (set hs) HFree (ho v) \<and> mq v' = mq v \<and>
    msg_cbytes (msqids st' q) = 0 \<and> msg_qnum (msqids st' q) = 0 \<and> (\<forall>r. r \<noteq> q \<longrightarrow> msqids st' r = msqids st r) \<and>
    (\<forall>k. k \<notin> set hs \<longrightarrow> msg_of st' v' k = msg_of st v k)"
  using assms
proof (induction hs arbitrary: st v p)
  case Nil
  then show ?case by (intro exI [of _ st] exI [of _ v]) (auto simp: msg_rmloop.simps give_def)
next
  case (Cons h hs)
  let ?ds = "msqids st q"
  let ?st1 = "set_queue q (?ds\<lparr>msg_cbytes := msg_cbytes ?ds - ucast (msg_ts (msghdrs st h)), msg_qnum := msg_qnum ?ds - 1\<rparr>) st"
  have h: "h < MSGTQL" "ho v h = HFlight" "p = Some h" "h \<notin> set hs" using Cons.prems by auto
  have "minv {q} ?st1 v" by (rule minv_set_queue) (use Cons.prems(1) in simp_all)
  from freehdr_ok [OF this h(1,2)] obtain st2 where st2: "msg_freehdr h ?st1 = Ok st2" "minv {q} st2 (freed h v)"
    "msqids st2 = msqids ?st1" "msgpool st2 = msgpool ?st1" "\<forall>k. k \<noteq> h \<longrightarrow> msghdrs st2 k = msghdrs ?st1 k" by blast
  have uc: "(ucast (msg_ts (msghdrs st h)) :: u32) = of_nat (unat (msg_ts (msghdrs st h)))" by simp
  have b: "bytes_of st2 hs = bytes_of st hs" by (rule bytes_of_cong) (use st2(5) h in auto)
  have "\<exists>st' v'. msg_rmloop q (msg_next (msghdrs ?st1 h)) st2 = Some (Ok st') \<and> minv {q} st' v' \<and>
    ho v' = give (set hs) HFree (ho (freed h v)) \<and> mq v' = mq (freed h v) \<and>
    msg_cbytes (msqids st' q) = 0 \<and> msg_qnum (msqids st' q) = 0 \<and> (\<forall>r. r \<noteq> q \<longrightarrow> msqids st' r = msqids st2 r) \<and>
    (\<forall>k. k \<notin> set hs \<longrightarrow> msg_of st' v' k = msg_of st2 (freed h v) k)"
  proof (rule Cons.IH [OF st2(2)])
    have "hdr_chain st2 (msg_next (msghdrs st h)) hs = hdr_chain st (msg_next (msghdrs st h)) hs"
      by (rule chain_cong) (use st2(5) h in auto)
    then show "hdr_chain st2 (msg_next (msghdrs ?st1 h)) hs" using Cons.prems(4) by simp
    show "msg_cbytes (msqids st2 q) = of_nat (bytes_of st2 hs)" using Cons.prems(5) unfolding st2(3) b uc by simp
    show "msg_qnum (msqids st2 q) = of_nat (length hs)" using Cons.prems(6) unfolding st2(3) by simp
  qed (use Cons.prems h in auto)
  then obtain st' v' where o: "msg_rmloop q (msg_next (msghdrs ?st1 h)) st2 = Some (Ok st')" "minv {q} st' v'"
    "ho v' = give (set hs) HFree (ho (freed h v))" "mq v' = mq v" "msg_cbytes (msqids st' q) = 0" "msg_qnum (msqids st' q) = 0"
    "\<forall>r. r \<noteq> q \<longrightarrow> msqids st' r = msqids st2 r" "\<forall>k. k \<notin> set hs \<longrightarrow> msg_of st' v' k = msg_of st2 (freed h v) k" by auto
  have "msg_rmloop q p st = Some (Ok st')" using o(1) st2(1) h(3) by (subst msg_rmloop.simps) (simp add: Let_def)
  moreover have "msg_of st2 (freed h v) k = msg_of st v k" if "k \<noteq> h" for k
    by (rule msg_of_cong) (use that st2(4,5) in auto)
  moreover have "ho v' = give (set (h # hs)) HFree (ho v)" unfolding o(3) by (auto simp: give_def fun_eq_iff)
  ultimately show ?case using o st2(3) by (intro exI [of _ st'] exI [of _ v']) auto
qed

lemma minv_disown:
  assumes inv: "minv {} st v"
  shows "minv {q} st (v\<lparr>mq := (mq v)(q := []), ho := give (set (mq v q)) HFlight (ho v)\<rparr>)" (is "minv _ st ?v")
proof -
  have in_q: "k \<in> set (mq v q) \<longleftrightarrow> k < MSGTQL \<and> ho v k = HQueue q" for k by (rule ownsD(2) [OF minvD(10) [OF inv]])
  have "segs_ok st ?v" using inv in_q unfolding minv_def segs_ok_def by (auto simp: give_def)
  moreover have "owns MSGTQL (ho ?v) HFree (fh ?v)"
    using owns_give_other [OF minvD(8) [OF inv], of "set (mq v q)" HFlight] in_q ownsD(2) [OF minvD(8) [OF inv]] by fastforce
  moreover have "owns MSGTQL (ho ?v) (HQueue r) (mq ?v r)" for r
  proof (cases "r = q")
    case True
    with owns_give_from [of MSGTQL "ho v" "HQueue q" "mq v q" "[]" HFlight] minvD(10) [OF inv, of q] show ?thesis by simp
  next
    case False
    have "k \<notin> set (mq v r)" if "k \<in> set (mq v q)" for k using that False in_q [of k] ownsD(2) [OF minvD(10) [OF inv, of r], of k] by simp
    then have "set (mq v q) \<inter> set (mq v r) = {}" by blast
    with owns_give_other [OF minvD(10) [OF inv, of r], of "set (mq v q)" HFlight] False show ?thesis by simp
  qed
  moreover have "queue_ok st r (mq ?v r)" if "r \<notin> {q}" for r using minvD(11) [OF inv, of r] that by simp
  moreover have "hdr_chain st (free_msghdrs st) (fh ?v)" using minvD(9) [OF inv] by simp
  ultimately show ?thesis unfolding minv_def hdrs_ok_def by blast
qed

lemma rmid_ok:
  assumes "msg_ok st" and q: "msq_live st q"
  shows "\<exists>st'. msg_rmid q st = Some (Ok st') \<and> msg_ok st' \<and> \<not> msq_live st' q \<and>
    (\<forall>r. r \<noteq> q \<longrightarrow> queue_msgs st' r = queue_msgs st r \<and> msqids st' r = msqids st r)"
proof -
  from assms(1) obtain v where inv: "minv {} st v" and nf: "\<forall>h. ho v h \<noteq> HFlight" by (auto simp: msg_ok_def)
  let ?v = "v\<lparr>mq := (mq v)(q := []), ho := give (set (mq v q)) HFlight (ho v)\<rparr>"
  note d = queue_okD [OF inv _ q]
  have in_q: "k \<in> set (mq v r) \<longleftrightarrow> k < MSGTQL \<and> ho v k = HQueue r" for k r by (rule ownsD(2) [OF minvD(10) [OF inv]])
  have fl: "\<forall>h\<in>set (mq v q). h < MSGTQL \<and> ho ?v h = HFlight" using in_q [of _ q] by (simp add: give_def)
  from d have c: "hdr_chain st (msg_first (msqids st q)) (mq v q)" "msg_cbytes (msqids st q) = of_nat (bytes_of st (mq v q))"
    "msg_qnum (msqids st q) = of_nat (length (mq v q))" by (simp_all add: ds_ok_def)
  from rmloop_ok [OF minv_disown [OF inv] ownsD(1) [OF minvD(10) [OF inv]] fl c] obtain st1 v1 where o:
    "msg_rmloop q (msg_first (msqids st q)) st = Some (Ok st1)" "minv {q} st1 v1" "ho v1 = give (set (mq v q)) HFree (ho ?v)"
    "mq v1 = mq ?v" "msg_cbytes (msqids st1 q) = 0" "msg_qnum (msqids st1 q) = 0" "\<forall>r. r \<noteq> q \<longrightarrow> msqids st1 r = msqids st r"
    "\<forall>k. k \<notin> set (mq v q) \<longrightarrow> msg_of st1 v1 k = msg_of st ?v k" by blast
  let ?st = "msg_wakeup q (set_queue q ((msqids st1 q)\<lparr>msg_qbytes := 0\<rparr>) st1)"
  have "msg_rmid q st = Some (Ok ?st)" using o(1,5,6) by (simp add: msg_rmid_def)
  moreover have inv2: "minv {} ?st v1"
    unfolding minv_wakeup by (rule minv_set_queue [OF o(2)]) (use o(4) in \<open>simp add: queue_ok_def msq_live_def\<close>)
  moreover have "\<forall>h. ho v1 h \<noteq> HFlight" using nf unfolding o(3) by (simp add: give_def)
  moreover have "queue_msgs ?st r = queue_msgs st r" if "r \<noteq> q" for r
  proof -
    have "msg_of ?st v1 k = msg_of st v k" if k: "k \<in> set (mq v r)" for k
    proof -
      have "k \<notin> set (mq v q)" using k in_q \<open>r \<noteq> q\<close> by auto
      with o(8) have "msg_of st1 v1 k = msg_of st v k" by (simp add: msg_of_def)
      then show ?thesis by (simp add: msg_of_def msg_wakeup_def)
    qed
    with that o(4) show ?thesis unfolding queue_msgs_eq [OF inv2, of r, simplified] queue_msgs_eq [OF inv, of r, simplified] by simp
  qed
  moreover have "\<not> msq_live ?st q" by (simp add: msq_live_def msg_wakeup_def)
  moreover have "msqids ?st r = msqids st r" if "r \<noteq> q" for r using that o(7) by (simp add: msg_wakeup_def)
  ultimately show ?thesis using msg_okI by blast
qed

lemma queue_set_ok:
  assumes ok: "msg_ok st" and d: "msq_live st q \<Longrightarrow> msg_first ds = msg_first (msqids st q) \<and> msg_last ds = msg_last (msqids st q) \<and>
      msg_cbytes ds = msg_cbytes (msqids st q) \<and> msg_qnum ds = msg_qnum (msqids st q)"
    and n: "\<not> msq_live st q \<Longrightarrow> msg_first ds = None \<and> msg_last ds = None \<and> msg_cbytes ds = 0 \<and> msg_qnum ds = 0"
    and b: "msg_qbytes ds \<noteq> 0" "msg_qbytes ds \<le> MSGMNB" and q: "q < MSGMNI"
  shows "msg_ok (set_queue q ds st)" and "queue_msgs (set_queue q ds st) r = queue_msgs st r"
proof -
  from ok obtain v where inv: "minv {} st v" and nf: "\<forall>h. ho v h \<noteq> HFlight" by (auto simp: msg_ok_def)
  have "queue_ok (set_queue q ds st) q (mq v q)"
    using minvD(11) [OF inv, of q] d n b q by (cases "msq_live st q") (simp_all add: queue_ok_def msq_live_def ds_ok_def)
  then have inv2: "minv {} (set_queue q ds st) v" by (intro minv_set_queue minv_weaken [OF inv]) auto
  with nf show "msg_ok (set_queue q ds st)" by (intro msg_okI)
  have "msg_of (set_queue q ds st) v k = msg_of st v k" for k by (simp add: msg_of_def)
  then show "queue_msgs (set_queue q ds st) r = queue_msgs st r"
    using queue_msgs_eq [OF inv2, of r] queue_msgs_eq [OF inv, of r] by simp
qed

section \<open>Initialisation\<close>

lemma msginit_maps: "fold msginit_map [0..<n] m i = (if i < n then if Suc i < n then int (Suc i) else -1 else m i)"
  by (induction n) (auto simp: msginit_map_def less_Suc_eq)

lemma msginit_hdrs: "msg_next (fold msginit_hdr [0..<n] m i) = (if i < n then if Suc i < n then Some (Suc i) else None else msg_next (m i))"
  by (induction n) (auto simp: msginit_hdr_def Let_def less_Suc_eq)

lemma msginit_queues:
  "msg_qbytes (fold msginit_queue [0..<n] m i) = (if i < n then 0 else msg_qbytes (m i))"
  "seq (msg_perm (fold msginit_queue [0..<n] m i)) = (if i < n then 0 else seq (msg_perm (m i)))"
  by (induction n) (auto simp: msginit_queue_def less_Suc_eq)

lemma chain_upt:
  assumes "\<And>i. i < n \<Longrightarrow> nx i = (if Suc i < n then ptr (Suc i) else nil)" and "k < n"
  shows "chain ptr nil nx (ptr k) [k..<n]"
  using assms(2)
proof (induction "n - k" arbitrary: k)
  case (Suc d)
  then have "[k..<n] = k # [Suc k..<n]" by (simp add: upt_conv_Cons)
  then show ?case using Suc assms(1) [of k] by (cases "Suc k < n") auto
qed simp


definition view0 :: mview where
  "view0 = \<lparr>fs = [0..<MSGSEG], fh = [0..<MSGTQL], mq = (\<lambda>_. []), ss = (\<lambda>_. []), ho = (\<lambda>_. HFree), so = (\<lambda>_. SFree)\<rparr>"

lemma msginit_ok: "msg_ok (msginit st)"
proof (rule msg_okI [of _ view0])
  have "chain int (-1) (msgmaps (msginit st)) (int 0) [0..<MSGSEG]"
    by (rule chain_upt) (simp_all add: msginit_def msginit_maps)
  then have "segs_ok (msginit st) view0"
    by (auto simp: segs_ok_def view0_def owns_def msginit_def)
  moreover have "chain Some None (\<lambda>h. msg_next (msghdrs (msginit st) h)) (Some 0) [0..<MSGTQL]"
    by (rule chain_upt) (simp_all add: msginit_def msginit_hdrs)
  then have "hdrs_ok {} (msginit st) view0"
    by (auto simp: hdrs_ok_def view0_def owns_def queue_ok_def msq_live_def msginit_def msginit_queues)
  ultimately show "minv {} (msginit st) view0" by (simp add: minv_def)
qed (simp add: view0_def)

section \<open>Calls\<close>

datatype msg_call =
    Msgget ucred int int int
  | Msgctl ucred int int msg_cmd msqid_ds
  | Msgsnd ucred nat int int u32 int int "nat \<Rightarrow> u8"
  | SndWoken nat int nat bool int u32 int int "nat \<Rightarrow> u8"
  | Msgrcv ucred nat int int u32 int int
  | RcvWoken nat int nat int u32 int int

fun msg_state :: "msg_out \<Rightarrow> msg_sys" where
  "msg_state (MsgRet r st) = st"
| "msg_state (SndSleep q b st) = st"
| "msg_state (RcvSleep q st) = st"
| "msg_state (MsgGot n t bs st) = st"

text \<open>The outer \<open>None\<close> is a call that does not return.\<close>

fun msg_exec :: "msg_call \<Rightarrow> msg_sys \<Rightarrow> msg_sys exec option" where
  "msg_exec (Msgget cred now ky flg) st = Some (Ok (msg_state (ix_msgget cred now ky flg st)))"
| "msg_exec (Msgctl cred now i cmd buf) st =
     map_option (\<lambda>r. exec_bind r (\<lambda>(x, b, st1). Ok st1)) (ix_msgctl cred now i cmd buf st)"
| "msg_exec (Msgsnd cred p now i sz flg t body) st =
     Some (exec_bind (ix_msgsnd cred p now i sz flg t body st) (\<lambda>out. Ok (msg_state out)))"
| "msg_exec (SndWoken p now q own eval sz flg t body) st =
     Some (exec_bind (msgsnd_woken p now q own eval sz flg t body st) (\<lambda>out. Ok (msg_state out)))"
| "msg_exec (Msgrcv cred p now i sz t flg) st =
     map_option (\<lambda>r. exec_bind r (\<lambda>out. Ok (msg_state out))) (ix_msgrcv cred p now i sz t flg st)"
| "msg_exec (RcvWoken p now q eval sz t flg) st =
     map_option (\<lambda>r. exec_bind r (\<lambda>out. Ok (msg_state out))) (msgrcv_woken p now q eval sz t flg st)"

text \<open>A call that wakes up is one that went to sleep on a queue of the table.\<close>

fun msg_callable :: "msg_call \<Rightarrow> bool" where
  "msg_callable (SndWoken p now q own eval sz flg t body) = (q < MSGMNI)"
| "msg_callable (RcvWoken p now q eval sz t flg) = (q < MSGMNI)"
| "msg_callable c = True"

lemma msg_error_state [simp]: "msg_state (msg_error e st) = st\<lparr>msg_errno := e\<rparr>"
  by (simp add: msg_error_def)

lemma good_live: "\<not> msq_bad ix st \<Longrightarrow> msq_live st (nat ix)"
  by (auto simp: msq_bad_def msq_live_def)

lemma ipcperm_0 [simp]: "ipcperm cred perm m = 0"
  by (simp add: ipcperm_def)

lemma snd_turn_safe:
  assumes "msg_ok st" and "msq_live st q"
  shows "\<exists>out. msgsnd_turn p now q sz flg t body st = Ok out \<and> msg_ok (msg_state out)"
proof -
  from msgsnd_turn_ok [OF assms, of p now sz flg t body] obtain out where o: "msgsnd_turn p now q sz flg t body st = Ok out"
    and c: "if msg_qbytes (msqids st q) < sz then out = msg_error EINVAL st
     else if msgsnd_needs q sz st
     then out = (if flg AND MSG_NOWAIT \<noteq> 0 then msg_error EAGAIN st
                 else if msg_locked (msqids st q) then SndSleep q False st else SndSleep q True (lock_queue q st))
     else if t < 1 then \<exists>st'. out = msg_error EINVAL st' \<and> msg_ok st' \<and> (\<forall>r. queue_msgs st' r = queue_msgs st r)
     else \<exists>st'. out = MsgRet 0 st' \<and> msg_ok st' \<and>
       (\<forall>r. queue_msgs st' r = queue_msgs st r @ (if r = q then [(t, map body [0..<unat sz])] else []))" by blast
  from c assms(1) have "msg_ok (msg_state out)" by (auto split: if_splits simp: msg_ok_lock)
  with o show ?thesis by blast
qed

lemma rcv_turn_safe:
  assumes "msg_ok st" and "msq_live st q"
  shows "\<exists>out. msgrcv_turn p now q sz t flg st = Some (Ok out) \<and> msg_ok (msg_state out)"
proof -
  from msgrcv_turn_ok [OF assms, of p now sz t flg] obtain out where o: "msgrcv_turn p now q sz t flg st = Some (Ok out)"
    and c: "case take_first (type_matches t) (queue_msgs st q) of
              None \<Rightarrow> out = (if flg AND MSG_NOWAIT \<noteq> 0 then msg_error EAGAIN st else RcvSleep q st)
            | Some r \<Rightarrow> got_ok st q sz flg r out" by blast
  from c assms(1) have "msg_ok (msg_state out)"
    by (cases "take_first (type_matches t) (queue_msgs st q)") (auto simp: got_ok_def split: prod.splits if_splits)
  with o show ?thesis by blast
qed

lemma msgget_ok: "msg_ok st \<Longrightarrow> msg_ok (msg_state (ix_msgget cred now ky flg st))"
proof -
  assume ok: "msg_ok st"
  have "msg_ok (set_queue q (msg_create cred now ky flg (msqids st q)) st)"
    if "scan (\<lambda>ds. msg_qbytes ds = 0 \<and> \<not> msg_locked ds) 0 (map (msqids st) [0..<MSGMNI]) = Some q" for q
  proof -
    from that have "q < MSGMNI" "msg_qbytes (msqids st q) = 0" by (auto simp: scan_Some)
    then show ?thesis by (intro queue_set_ok(1) [OF ok]) (simp_all add: msg_create_def msq_live_def)
  qed
  then show ?thesis using ok by (auto simp: ix_msgget_def Let_def split: option.split)
qed

lemma msgctl_ok:
  assumes ok: "msg_ok st"
  shows "\<exists>r b st'. ix_msgctl cred now i cmd buf st = Some (Ok (r, b, st')) \<and> msg_ok st'"
proof (cases "msq_bad (IPCID_TO_IX i) st")
  case True
  then show ?thesis using ok by (simp add: ix_msgctl_def Let_def)
next
  case False
  define q where q: "q = nat (IPCID_TO_IX i)"
  have live: "msq_live st q" unfolding q by (rule good_live [OF False])
  show ?thesis
  proof (cases cmd)
    case IPC_RMID
    with rmid_ok [OF ok live] False show ?thesis by (auto simp: ix_msgctl_def Let_def q)
  next
    case IPC_SET
    have "msg_ok (msg_ipcset now q b st)" if "msg_qbytes b \<noteq> 0" "msg_qbytes b \<le> MSGMNB" for b
      unfolding msg_ipcset_def Let_def
      by (rule queue_set_ok(1) [OF ok]) (use live that in \<open>simp_all add: msq_live_def\<close>)
    with IPC_SET False ok show ?thesis by (auto simp: ix_msgctl_def Let_def q [symmetric] not_less)
  qed (use False ok in \<open>auto simp: ix_msgctl_def Let_def\<close>)
qed

fun msg_run :: "msg_call list \<Rightarrow> msg_sys \<Rightarrow> msg_sys exec option" where
  "msg_run [] st = Some (Ok st)"
| "msg_run (c # cs) st =
     (case msg_exec c st of
        None \<Rightarrow> None
      | Some r \<Rightarrow> (case r of Ok st1 \<Rightarrow> msg_run cs st1 | Panic m \<Rightarrow> Some (Panic m) | Wild \<Rightarrow> Some Wild))"

lemma msg_exec_ok:
  assumes ok: "msg_ok st" and "msg_callable c"
  shows "\<exists>st'. msg_exec c st = Some (Ok st') \<and> msg_ok st'"
proof (cases c)
  case (Msgget cred now ky flg)
  then show ?thesis using msgget_ok [OF ok] by simp
next
  case (Msgctl cred now i cmd buf)
  then show ?thesis using msgctl_ok [OF ok, of cred now i cmd buf] by auto
next
  case (Msgsnd cred p now i sz flg t body)
  then show ?thesis using snd_turn_safe [OF ok good_live, of "IPCID_TO_IX i" p now sz flg t body] ok
    by (cases "msq_bad (IPCID_TO_IX i) st") (auto simp: ix_msgsnd_def Let_def)
next
  case (SndWoken p now q own eval sz flg t body)
  let ?st = "if own then unlock_queue q st else st"
  have ok1: "msg_ok ?st" using ok msg_ok_lock by simp
  have "msq_live ?st q" if "msg_qbytes (msqids ?st q) \<noteq> 0" using that assms(2) SndWoken by (simp add: msq_live_def)
  then show ?thesis using snd_turn_safe [OF ok1, of q p now sz flg t body] ok1 SndWoken
    by (cases "eval \<noteq> 0 \<or> msg_qbytes (msqids ?st q) = 0") (auto simp: msgsnd_woken_def Let_def)
next
  case (Msgrcv cred p now i sz t flg)
  then show ?thesis using rcv_turn_safe [OF ok good_live, of "IPCID_TO_IX i" p now sz t flg] ok
    by (cases "msq_bad (IPCID_TO_IX i) st") (auto simp: ix_msgrcv_def Let_def)
next
  case (RcvWoken p now q eval sz t flg)
  have "msq_live st q" if "msg_qbytes (msqids st q) \<noteq> 0" using that assms(2) RcvWoken by (simp add: msq_live_def)
  then show ?thesis using rcv_turn_safe [OF ok, of q p now sz t flg] ok RcvWoken by (auto simp: msgrcv_woken_def)
qed

lemma msg_run_ok:
  assumes "msg_ok st" and "list_all msg_callable cs"
  shows "\<exists>st'. msg_run cs st = Some (Ok st') \<and> msg_ok st'"
  using assms
proof (induction cs arbitrary: st)
  case (Cons c cs)
  from msg_exec_ok [of st c] Cons.prems obtain st1 where "msg_exec c st = Some (Ok st1)" "msg_ok st1" by auto
  with Cons show ?case by simp
qed simp

text \<open>A system with one queue in use, for the examples.\<close>

definition msg_blank :: msg_sys where
  "msg_blank = \<lparr>nfree_msgmaps = 0, free_msgmaps = 0, free_msghdrs = None, msgpool = (\<lambda>_. 0), msgmaps = (\<lambda>_. 0),
     msghdrs = (\<lambda>_. \<lparr>msg_next = None, msg_type = 0, msg_ts = 0, msg_spot = 0\<rparr>),
     msqids = (\<lambda>_. \<lparr>msg_perm = zero_perm, msg_first = None, msg_last = None, msg_cbytes = 0, msg_qnum = 0, msg_qbytes = 0,
       msg_lspid = 0, msg_lrpid = 0, msg_stime = 0, msg_rtime = 0, msg_ctime = 0\<rparr>), msg_errno = 0, msg_wakes = []\<rparr>"











section \<open>Properties\<close>

text \<open>
  C5. No sequence of calls of the message facility, whatever their arguments and however calls that sleep are
  woken, reaches a panic, follows a null pointer or loops for ever; every call keeps the
  invariant, by which each header and each segment is free or belongs to exactly one message of exactly one queue,
  so none is ever lost, and the books of every queue (bytes, number, first and last) are right.  \<open>msginit\<close> establishes it
  (\<open>msginit_ok\<close>).
\<close>

theorem msg_calls_safe:
  assumes "msg_ok st" and "list_all msg_callable calls"
  shows "\<exists>st'. msg_run calls st = Some (Ok st') \<and> msg_ok st'"
  using assms by (rule msg_run_ok)

theorem msg_calls_safe_witness:
  "\<exists>st'. msg_run [Msgget \<lparr>cr_uid = 0, cr_gid = 0\<rparr> 0 7 0x200, SndWoken 1 0 0 False 0 5 0 3 (\<lambda>_. 1), RcvWoken 2 0 0 0 5 0 0]
     (msginit msg_blank) = Some (Ok st') \<and> msg_ok st'"
  by (rule msg_calls_safe) (simp_all add: msginit_ok)







text \<open>
  The calls of an application; as no call goes to sleep (see below) none is ever woken.
\<close>

fun msg_appl :: "msg_call \<Rightarrow> bool" where
  "msg_appl (SndWoken p now q own eval sz flg t body) = False"
| "msg_appl (RcvWoken p now q eval sz t flg) = False"
| "msg_appl c = True"

definition seq_ok :: "msg_sys \<Rightarrow> bool" where
  "seq_ok st \<longleftrightarrow> (\<forall>q < MSGMNI. seq (msg_perm (msqids st q)) = (if msg_qbytes (msqids st q) = 0 then 0 else 1))"

lemma seq_ok_errno [simp]: "seq_ok (st\<lparr>msg_errno := e\<rparr>) = seq_ok st"
  by (simp add: seq_ok_def)

lemma seq_ok_bad: "seq_ok st \<Longrightarrow> msq_bad (IPCID_TO_IX i) st"
  unfolding msq_bad_def ipcid_seq_ix using ipcid_ix_bounds(1) [of i] by (auto simp: seq_ok_def)

lemma msgget_seq_ok:
  assumes "seq_ok st"
  shows "seq_ok (msg_state (ix_msgget cred now ky flg st))"
proof -
  have "seq_ok (set_queue q (msg_create cred now ky flg (msqids st q)) st)"
    if "scan (\<lambda>ds. msg_qbytes ds = 0 \<and> \<not> msg_locked ds) 0 (map (msqids st) [0..<MSGMNI]) = Some q" for q
    using assms that unfolding seq_ok_def by (auto simp: scan_Some msg_create_def)
  then show ?thesis using assms by (auto simp: ix_msgget_def Let_def split: option.split)
qed

lemma msg_run_seq_ok:
  assumes "seq_ok st" and "list_all msg_appl cs"
  shows "\<exists>st'. msg_run cs st = Some (Ok st') \<and> seq_ok st'"
  using assms
proof (induction cs arbitrary: st)
  case (Cons c cs)
  have "\<exists>st1. msg_exec c st = Some (Ok st1) \<and> seq_ok st1"
    using Cons.prems seq_ok_bad [OF Cons.prems(1)] msgget_seq_ok
    by (cases c) (simp_all add: ix_msgctl_def ix_msgsnd_def ix_msgrcv_def Let_def)
  with Cons show ?case by auto
qed simp

text \<open>
  C34. The facility cannot be used.  The calls cut the sequence number off the identifier before they compare it, and every
  queue has a sequence number other than zero from its creation; as \<open>IPC_RMID\<close> fails for the same reason,
  no queue is ever reused and the number never wraps.  After any calls an application may make, \<open>msgsnd\<close> and \<open>msgrcv\<close> fail with
  \<open>EINVAL\<close> whatever their arguments.
\<close>

theorem msg_unusable:
  assumes "list_all msg_appl calls"
  shows "\<exists>st'. msg_run calls (msginit st) = Some (Ok st') \<and>
    (\<forall>cred p now msqid sz flg t body. ix_msgsnd cred p now msqid sz flg t body st' = Ok (msg_error EINVAL st')) \<and>
    (\<forall>cred p now msqid sz t flg. ix_msgrcv cred p now msqid sz t flg st' = Some (Ok (msg_error EINVAL st')))"
proof -
  have "seq_ok (msginit st)" by (simp add: seq_ok_def msginit_def msginit_queues)
  from msg_run_seq_ok [OF this assms] obtain st' where "msg_run calls (msginit st) = Some (Ok st')" "seq_ok st'" by blast
  with seq_ok_bad [of st'] show ?thesis by (simp add: ix_msgsnd_def ix_msgrcv_def Let_def)
qed

theorem msg_unusable_witness:
  "\<exists>st'. msg_run [Msgget \<lparr>cr_uid = 0, cr_gid = 0\<rparr> 0 7 0x200] (msginit msg_blank) = Some (Ok st') \<and>
     ix_msgsnd \<lparr>cr_uid = 0, cr_gid = 0\<rparr> 1 0 0x10000 4 0 1 (\<lambda>_. 1) st' = Ok (msg_error EINVAL st')"
  using msg_unusable [of "[Msgget \<lparr>cr_uid = 0, cr_gid = 0\<rparr> 0 7 0x200]" msg_blank] by auto

end
