(* ===== verification/Ix_Cstring.thy ===== *)
theory Ix_Cstring
  imports Ix_Prelude "HOL-Library.Sublist"
begin

text \<open>
  Strings: \<open>string/strlen.c\<close>, \<open>strcmp.c\<close>, \<open>strncmp.c\<close>, \<open>strcoll.c\<close>, \<open>strcasecmp.c\<close>, \<open>memcmp.c\<close>, \<open>strstr.c\<close>,
  \<open>strspn.c\<close>, \<open>strcspn.c\<close>, \<open>strpbrk.c\<close>, \<open>strtok.c\<close>, \<open>strsep.c\<close> and \<open>static/strlcpy.c\<close>, \<open>static/strlcat.c\<close>.
  Where a file has a version in assembly for the 68000 that is the one the library is built with, and the one
  modelled; of \<open>strcmp\<close> the C version is modelled, too.  A string that is only read is the list of
  bytes from the pointer to the end of its object, so reading past the end is \<open>Wild\<close>; a string that is
  written is a position in the list of bytes of its object.
\<close>

declare exec_bind_cong [fundef_cong]

text \<open>The characters before the terminating null character.\<close>

definition cstr :: "u8 list \<Rightarrow> u8 list" where
  "cstr s = takeWhile (\<lambda>c. c \<noteq> 0) s"

section \<open>Length and comparison\<close>

fun strlen_loop :: "u8 list \<Rightarrow> nat \<Rightarrow> nat exec" where
  "strlen_loop [] n = Wild"
| "strlen_loop (c # s) n = (if c \<noteq> 0 then strlen_loop s (n + 1) else Ok n)"

definition strlen :: "u8 list option \<Rightarrow> nat exec" where
  "strlen p = (case p of None \<Rightarrow> Ok 0 | Some s \<Rightarrow> strlen_loop s 0)"

text \<open>
  \<open>strcmp\<close> in assembly: the difference is computed in a byte (\<open>subb\<close>) and its sign extended.  In C it is
  computed as an \<open>unsigned long\<close> and returned as an \<open>int\<close>.
\<close>

fun strcmp :: "u8 list \<Rightarrow> u8 list \<Rightarrow> int exec" where
  "strcmp (a # s) (b # t) = (if a \<noteq> b then Ok (sint (a - b)) else if a \<noteq> 0 then strcmp s t else Ok 0)"
| "strcmp _ _ = Wild"

fun strcmp_c :: "u8 list \<Rightarrow> u8 list \<Rightarrow> int exec" where
  "strcmp_c (a # s) (b # t) =
     (let r = (ucast a :: u32) - ucast b in if r = 0 \<and> b \<noteq> 0 then strcmp_c s t else Ok (sint r))"
| "strcmp_c _ _ = Wild"

fun strncmp_loop :: "u8 list \<Rightarrow> u8 list \<Rightarrow> nat \<Rightarrow> int exec" where
  "strncmp_loop (a # s) (b # t) n =
     (if a \<noteq> b then Ok (sint (a - b)) else if a = 0 then Ok 0 else if n - 1 = 0 then Ok 0 else strncmp_loop s t (n - 1))"
| "strncmp_loop _ _ n = Wild"

definition strncmp :: "u8 list \<Rightarrow> u8 list \<Rightarrow> nat \<Rightarrow> int exec" where
  "strncmp s t n = (if n = 0 then Ok 0 else strncmp_loop s t n)"

definition strcoll :: "u8 list \<Rightarrow> u8 list \<Rightarrow> int exec" where
  "strcoll s1 s2 = strcmp s1 s2"

fun memcmp :: "u8 list \<Rightarrow> u8 list \<Rightarrow> nat \<Rightarrow> int exec" where
  "memcmp s t 0 = Ok 0"
| "memcmp (a # s) (b # t) (Suc n) = (if a \<noteq> b then Ok (uint a - uint b) else memcmp s t n)"
| "memcmp _ _ (Suc n) = Wild"

text \<open>The table \<open>charmap\<close>: the identity but for the capital letters.\<close>

definition charmap :: "u8 \<Rightarrow> u8" where
  "charmap c = (if 65 \<le> c \<and> c \<le> 90 then c + 32 else c)"

fun strcasecmp :: "u8 list \<Rightarrow> u8 list \<Rightarrow> int exec" where
  "strcasecmp (a # s) (b # t) =
     (if charmap a = charmap b then if a = 0 then Ok 0 else strcasecmp s t
      else Ok (uint (charmap a) - uint (charmap b)))"
| "strcasecmp _ _ = Wild"

fun strncasecmp :: "u8 list \<Rightarrow> u8 list \<Rightarrow> nat \<Rightarrow> int exec" where
  "strncasecmp s t 0 = Ok 0"
| "strncasecmp (a # s) (b # t) (Suc n) =
     (if charmap a \<noteq> charmap b then Ok (uint (charmap a) - uint (charmap b))
      else if a = 0 then Ok 0 else strncasecmp s t n)"
| "strncasecmp _ _ (Suc n) = Wild"

section \<open>Searching\<close>

text \<open>
  The loop over \<open>delim\<close> that the functions below share: it compares before it tests for the end, so the null
  character is found, too (\<open>span_to\<close>), or tests first (\<open>span_in\<close>).
\<close>

fun span_to :: "u8 list \<Rightarrow> u8 \<Rightarrow> bool exec" where
  "span_to [] c = Wild"
| "span_to (sc # d) c = (if sc = c then Ok True else if sc \<noteq> 0 then span_to d c else Ok False)"

fun span_in :: "u8 list \<Rightarrow> u8 \<Rightarrow> bool exec" where
  "span_in [] c = Wild"
| "span_in (sc # d) c = (if sc = 0 then Ok False else if sc = c then Ok True else span_in d c)"

fun strcspn :: "u8 list \<Rightarrow> u8 list \<Rightarrow> nat \<Rightarrow> nat exec" where
  "strcspn [] s2 n = Wild"
| "strcspn (c # s1) s2 n = exec_bind (span_to s2 c) (\<lambda>f. if f then Ok n else strcspn s1 s2 (n + 1))"

fun strspn :: "u8 list \<Rightarrow> u8 list \<Rightarrow> nat \<Rightarrow> nat exec" where
  "strspn [] s2 n = Wild"
| "strspn (c # s1) s2 n = exec_bind (span_in s2 c) (\<lambda>f. if f then strspn s1 s2 (n + 1) else Ok n)"

fun strpbrk :: "u8 list \<Rightarrow> u8 list \<Rightarrow> nat \<Rightarrow> nat option exec" where
  "strpbrk [] s2 n = Wild"
| "strpbrk (c # s1) s2 n =
     (if c = 0 then Ok None else exec_bind (span_in s2 c) (\<lambda>f. if f then Ok (Some n) else strpbrk s1 s2 (n + 1)))"

text \<open>\<open>strstr\<close>: \<open>n\<close> is the offset of the next character, the result an offset.\<close>

fun strstr_loop :: "u8 \<Rightarrow> u8 list \<Rightarrow> nat \<Rightarrow> u8 list \<Rightarrow> nat \<Rightarrow> nat option exec" where
  "strstr_loop c fnd len [] n = Wild"
| "strstr_loop c fnd len (sc # s) n =
     (if sc = 0 then Ok None
      else if sc \<noteq> c then strstr_loop c fnd len s (n + 1)
      else exec_bind (strncmp s fnd len) (\<lambda>r. if r \<noteq> 0 then strstr_loop c fnd len s (n + 1) else Ok (Some n)))"

fun strstr :: "u8 list \<Rightarrow> u8 list \<Rightarrow> nat option exec" where
  "strstr s [] = Wild"
| "strstr s (c # fnd) =
     (if c \<noteq> 0 then exec_bind (strlen (Some fnd)) (\<lambda>len. strstr_loop c fnd len s 0) else Ok (Some 0))"

section \<open>Tokens\<close>

definition rd :: "u8 list \<Rightarrow> nat \<Rightarrow> u8 exec" where
  "rd m p = (if p < length m then Ok (m ! p) else Wild)"

text \<open>
  The loop from \<open>s\<close> to the next delimiter, which is overwritten; the result is the object and the pointer
  behind the delimiter, or the null pointer at the end of the string.
\<close>

function token_end :: "u8 list \<Rightarrow> u8 list \<Rightarrow> nat \<Rightarrow> (u8 list \<times> nat option) exec" where
  "token_end m delim s =
     exec_bind (rd m s) (\<lambda>c.
     exec_bind (span_to delim c) (\<lambda>f.
     if f then Ok (if c = 0 then (m, None) else (m[s := 0], Some (s + 1)))
     else token_end m delim (s + 1)))"
  by pat_completeness auto
termination
  by (relation "measure (\<lambda>(m, delim, s). length m - s)") (auto simp: rd_def split: if_splits)

text \<open>\<open>strsep\<close> returns the token and leaves the rest in \<open>*stringp\<close>.\<close>

definition strsep :: "u8 list \<Rightarrow> nat option \<Rightarrow> u8 list \<Rightarrow> (nat option \<times> nat option \<times> u8 list) exec" where
  "strsep m stringp delim =
     (case stringp of
        None \<Rightarrow> Ok (None, None, m)
      | Some s \<Rightarrow> exec_bind (token_end m delim s) (\<lambda>(m, r). Ok (Some s, r, m)))"

text \<open>\<open>strtok\<close> skips delimiters first, and keeps the rest in \<open>u_strtok_last\<close>.\<close>

function skip_delims :: "u8 list \<Rightarrow> u8 list \<Rightarrow> nat \<Rightarrow> nat exec" where
  "skip_delims m delim s =
     exec_bind (rd m s) (\<lambda>c.
     exec_bind (span_in delim c) (\<lambda>f. if f then skip_delims m delim (s + 1) else Ok s))"
  by pat_completeness auto
termination
  by (relation "measure (\<lambda>(m, delim, s). length m - s)") (auto simp: rd_def split: if_splits)

declare token_end.simps [simp del] skip_delims.simps [simp del]

definition strtok :: "u8 list \<Rightarrow> nat option \<Rightarrow> nat option \<Rightarrow> u8 list \<Rightarrow> (nat option \<times> nat option \<times> u8 list) exec" where
  "strtok m lst s delim =
     (case (case s of None \<Rightarrow> lst | Some p \<Rightarrow> Some p) of
        None \<Rightarrow> Ok (None, lst, m)
      | Some p \<Rightarrow>
          exec_bind (skip_delims m delim p) (\<lambda>tok.
          exec_bind (rd m tok) (\<lambda>c.
          if c = 0 then Ok (None, None, m)
          else exec_bind (token_end m delim (tok + 1)) (\<lambda>(m, r). Ok (Some tok, r, m)))))"

section \<open>Copying with a bound\<close>

definition wr :: "u8 list \<Rightarrow> nat \<Rightarrow> u8 \<Rightarrow> u8 list exec" where
  "wr m p c = (if p < length m then Ok (m[p := c]) else Wild)"

text \<open>
  \<open>strlcpy\<close>: the loop of lines 37--40 ends with the destination, the position in it, the rest of the
  source, its offset, and \<open>n\<close>; then the rest of the source is traversed.
\<close>

fun strlcpy_loop :: "u8 list \<Rightarrow> nat \<Rightarrow> u8 list \<Rightarrow> nat \<Rightarrow> nat \<Rightarrow> (u8 list \<times> nat \<times> u8 list \<times> nat \<times> nat) exec" where
  "strlcpy_loop m d [] k n = Wild"
| "strlcpy_loop m d (c # s) k n =
     exec_bind (wr m d c) (\<lambda>m.
     if c = 0 then Ok (m, d + 1, s, k + 1, n)
     else if n - 1 \<noteq> 0 then strlcpy_loop m (d + 1) s (k + 1) (n - 1)
     else Ok (m, d + 1, s, k + 1, 0))"

definition strlcpy :: "u8 list \<Rightarrow> nat \<Rightarrow> u8 list \<Rightarrow> nat \<Rightarrow> (nat \<times> u8 list) exec" where
  "strlcpy m dst src siz =
     exec_bind
       (if siz \<noteq> 0 \<and> siz - 1 \<noteq> 0 then strlcpy_loop m dst src 0 (siz - 1) else Ok (m, dst, src, 0, siz - 1)) (\<lambda>(m, d, s, k, n).
     if n = 0 then
       exec_bind (if siz \<noteq> 0 then wr m d 0 else Ok m) (\<lambda>m.
       exec_bind (strlen_loop s k) (\<lambda>len. Ok (len, m)))
     else Ok (k - 1, m))"

text \<open>\<open>strlcat\<close>: lines 91--92, which stop at the end of the string in \<open>dst\<close> or after \<open>siz\<close> bytes, and the loop of line 98.\<close>

fun strlcat_end :: "u8 list \<Rightarrow> nat \<Rightarrow> nat \<Rightarrow> nat exec" where
  "strlcat_end m d 0 = Ok d"
| "strlcat_end m d (Suc n) = exec_bind (rd m d) (\<lambda>c. if c \<noteq> 0 then strlcat_end m (d + 1) n else Ok d)"

fun strlcat_loop :: "u8 list \<Rightarrow> nat \<Rightarrow> u8 list \<Rightarrow> nat \<Rightarrow> nat \<Rightarrow> (u8 list \<times> nat \<times> nat) exec" where
  "strlcat_loop m d [] k n = Wild"
| "strlcat_loop m d (c # s) k n =
     (if c = 0 then Ok (m, d, k)
      else if n \<noteq> 1 then exec_bind (wr m d c) (\<lambda>m. strlcat_loop m (d + 1) s (k + 1) (n - 1))
      else strlcat_loop m d s (k + 1) n)"

definition strlcat :: "u8 list \<Rightarrow> nat \<Rightarrow> u8 list \<Rightarrow> nat \<Rightarrow> (nat \<times> u8 list) exec" where
  "strlcat m dst src siz =
     exec_bind (strlcat_end m dst siz) (\<lambda>d.
     let dlen = d - dst; n = siz - dlen in
     if n = 0 then exec_bind (strlen (Some src)) (\<lambda>len. Ok (dlen + len, m))
     else exec_bind (strlcat_loop m d src 0 n) (\<lambda>(m, d, k).
       exec_bind (wr m d 0) (\<lambda>m. Ok (dlen + k, m))))"

end
