(* ===== verification/Ix_Sort.thy ===== *)
theory Ix_Sort
  imports Ix_Prelude "HOL-Library.Multiset"
begin

text \<open>
  Sorting and searching: \<open>stdlib/qsort.c\<close>, \<open>stdlib/heapsort.c\<close> and \<open>stdlib/bsearch.c\<close>.  The array is
  the list of its records, a pointer into it the number of records below it, so the factor \<open>size\<close> of the
  pointer arithmetic is left out; the loops that swap or rotate the bytes of records are the
  subject of \<open>Ix_Records\<close>.  A comparison or a swap outside the array is \<open>Wild\<close>.  The comparison function of
  the caller is the argument \<open>cmp\<close>; what it must satisfy is the locale \<open>comparator\<close>.
\<close>

declare exec_bind_cong [fundef_cong]

section \<open>Access to the array\<close>

definition rec_cmp :: "('a \<Rightarrow> 'a \<Rightarrow> int) \<Rightarrow> 'a list \<Rightarrow> nat \<Rightarrow> nat \<Rightarrow> int exec" where
  "rec_cmp cmp xs i j = (if i < length xs \<and> j < length xs then Ok (cmp (xs ! i) (xs ! j)) else Wild)"

definition rec_swap :: "'a list \<Rightarrow> nat \<Rightarrow> nat \<Rightarrow> 'a list exec" where
  "rec_swap xs i j = (if i < length xs \<and> j < length xs then Ok (xs[i := xs ! j, j := xs ! i]) else Wild)"

text \<open>Moving the pointer \<open>p\<close> down by one record.\<close>

definition rec_dec :: "nat \<Rightarrow> nat exec" where
  "rec_dec p = (if p = 0 then Wild else Ok (p - 1))"

section \<open>Quicksort\<close>

abbreviation (input) THRESH :: nat where "THRESH \<equiv> 4"
abbreviation (input) MTHRESH :: nat where "MTHRESH \<equiv> 6"

text \<open>Lines 173--190: the median of the first, the middle and the last record moves to the middle.\<close>

definition qst_median :: "('a \<Rightarrow> 'a \<Rightarrow> int) \<Rightarrow> 'a list \<Rightarrow> nat \<Rightarrow> nat \<Rightarrow> nat \<Rightarrow> nat \<Rightarrow> 'a list exec" where
  "qst_median cmp xs base mx lo mid =
     (if MTHRESH \<le> lo then
        exec_bind (rec_cmp cmp xs base mid) (\<lambda>c.
        let j = (if c > 0 then base else mid) in
        exec_bind (rec_dec mx) (\<lambda>tmp.
        exec_bind (rec_cmp cmp xs j tmp) (\<lambda>c.
        exec_bind
          (if c > 0 then
             let j = (if j = base then mid else base) in
             exec_bind (rec_cmp cmp xs j tmp) (\<lambda>c. Ok (if c < 0 then tmp else j))
           else Ok j) (\<lambda>j.
        if j \<noteq> mid then rec_swap xs mid j else Ok xs))))
      else Ok xs)"

text \<open>Line 195, and the loop of lines 197--201, which ends with \<open>j > mid\<close> where it jumps to \<open>swap\<close>.\<close>

function qst_scan_i :: "('a \<Rightarrow> 'a \<Rightarrow> int) \<Rightarrow> 'a list \<Rightarrow> nat \<Rightarrow> nat \<Rightarrow> nat exec" where
  "qst_scan_i cmp xs i mid =
     (if i < mid then
        exec_bind (rec_cmp cmp xs i mid) (\<lambda>c. if c \<le> 0 then qst_scan_i cmp xs (Suc i) mid else Ok i)
      else Ok i)"
  by pat_completeness auto
termination
  by (relation "measure (\<lambda>(cmp, xs, i, mid). mid - i)") auto

fun qst_scan_j :: "('a \<Rightarrow> 'a \<Rightarrow> int) \<Rightarrow> 'a list \<Rightarrow> nat \<Rightarrow> nat \<Rightarrow> nat exec" where
  "qst_scan_j cmp xs mid j =
     (if mid < j then
        exec_bind (rec_cmp cmp xs mid j) (\<lambda>c. if c \<le> 0 then qst_scan_j cmp xs mid (j - 1) else Ok j)
      else Ok j)"

declare qst_scan_i.simps [simp del] qst_scan_j.simps [simp del]

text \<open>One round of the loop of line 194: it ends, or goes on with new values of the array, \<open>i\<close>, \<open>j\<close> and \<open>mid\<close>.\<close>

datatype 'a qst_next = Parted "'a list" nat | Round "'a list" nat nat nat

definition qst_round :: "('a \<Rightarrow> 'a \<Rightarrow> int) \<Rightarrow> 'a list \<Rightarrow> nat \<Rightarrow> nat \<Rightarrow> nat \<Rightarrow> 'a qst_next exec" where
  "qst_round cmp xs i j mid =
     exec_bind (qst_scan_i cmp xs i mid) (\<lambda>i.
     exec_bind (qst_scan_j cmp xs mid j) (\<lambda>j.
     if mid < j then
       if i = mid then exec_bind (rec_swap xs i j) (\<lambda>xs. Ok (Round xs (i + 1) j j))
       else exec_bind (rec_dec j) (\<lambda>j'. exec_bind (rec_swap xs i j) (\<lambda>xs. Ok (Round xs (i + 1) j' mid)))
     else if i = mid then Ok (Parted xs mid)
     else exec_bind (rec_dec j) (\<lambda>j'. exec_bind (rec_swap xs i mid) (\<lambda>xs. Ok (Round xs i j' i)))))"

partial_function (option) qst_part ::
    "('a \<Rightarrow> 'a \<Rightarrow> int) \<Rightarrow> 'a list \<Rightarrow> nat \<Rightarrow> nat \<Rightarrow> nat \<Rightarrow> ('a list \<times> nat) exec option" where
  "qst_part cmp xs i j mid =
     (case qst_round cmp xs i j mid of
        Ok (Parted xs mid) \<Rightarrow> Some (Ok (xs, mid))
      | Ok (Round xs i j mid) \<Rightarrow> qst_part cmp xs i j mid
      | Panic m \<Rightarrow> Some (Panic m)
      | Wild \<Rightarrow> Some Wild)"

text \<open>
  \<open>qst\<close>: the loop \<open>do ... while (lo >= qsz * THRESH)\<close> is a recursive call like the one for the smaller part,
  with the values of \<open>base\<close>, \<open>max\<close> and \<open>lo\<close> at the end of its body.
\<close>

definition qst_head :: "('a \<Rightarrow> 'a \<Rightarrow> int) \<Rightarrow> 'a list \<Rightarrow> nat \<Rightarrow> nat \<Rightarrow> nat \<Rightarrow> ('a list \<times> nat) exec option" where
  "qst_head cmp xs base mx lo =
     (let mid = base + lo div 2 in
      case exec_bind (qst_median cmp xs base mx lo mid) (\<lambda>xs. exec_bind (rec_dec mx) (\<lambda>j. Ok (xs, j))) of
        Ok (xs, j) \<Rightarrow> qst_part cmp xs base j mid
      | Panic m \<Rightarrow> Some (Panic m)
      | Wild \<Rightarrow> Some Wild)"

partial_function (option) qst :: "('a \<Rightarrow> 'a \<Rightarrow> int) \<Rightarrow> 'a list \<Rightarrow> nat \<Rightarrow> nat \<Rightarrow> nat \<Rightarrow> 'a list exec option" where
  "qst cmp xs base mx lo =
     Option.bind (qst_head cmp xs base mx lo) (\<lambda>r.
     case r of
       Ok (xs, j) \<Rightarrow>
         let i = j + 1; lo = j - base; hi = mx - i in
         if lo \<le> hi then
           Option.bind (if THRESH \<le> lo then qst cmp xs base j (j - base) else Some (Ok xs)) (\<lambda>r.
           case r of
             Ok xs \<Rightarrow> if THRESH \<le> hi then qst cmp xs i mx hi else Some (Ok xs)
           | Panic m \<Rightarrow> Some (Panic m)
           | Wild \<Rightarrow> Some Wild)
         else
           Option.bind (if THRESH \<le> hi then qst cmp xs i mx (mx - i) else Some (Ok xs)) (\<lambda>r.
           case r of
             Ok xs \<Rightarrow> if THRESH \<le> lo then qst cmp xs base j lo else Some (Ok xs)
           | Panic m \<Rightarrow> Some (Panic m)
           | Wild \<Rightarrow> Some Wild)
     | Panic m \<Rightarrow> Some (Panic m)
     | Wild \<Rightarrow> Some Wild)"

declare qst_part.simps [code] qst.simps [code]

text \<open>\<open>qsort\<close>, lines 108--110: the position of the smallest of the first records.\<close>

function qsort_least :: "('a \<Rightarrow> 'a \<Rightarrow> int) \<Rightarrow> 'a list \<Rightarrow> nat \<Rightarrow> nat \<Rightarrow> nat \<Rightarrow> nat exec" where
  "qsort_least cmp xs j lo hi =
     (if lo < hi then
        exec_bind (rec_cmp cmp xs j lo) (\<lambda>c. qsort_least cmp xs (if c > 0 then lo else j) (Suc lo) hi)
      else Ok j)"
  by pat_completeness auto
termination
  by (relation "measure (\<lambda>(cmp, xs, j, lo, hi). hi - lo)") auto

text \<open>Lines 127--129: the place of the record \<open>min\<close> among those below it.  There is no test for the start of the array.\<close>

fun qsort_place :: "('a \<Rightarrow> 'a \<Rightarrow> int) \<Rightarrow> 'a list \<Rightarrow> nat \<Rightarrow> nat \<Rightarrow> nat exec" where
  "qsort_place cmp xs mn 0 = Wild"
| "qsort_place cmp xs mn (Suc hi) =
     exec_bind (rec_cmp cmp xs hi mn) (\<lambda>c. if c > 0 then qsort_place cmp xs mn hi else Ok (Suc hi))"

text \<open>Lines 130--135: the record \<open>mn\<close> moves to \<open>hi\<close>, those between move up by one.\<close>

definition rec_rotate :: "'a list \<Rightarrow> nat \<Rightarrow> nat \<Rightarrow> 'a list" where
  "rec_rotate xs hi mn = take hi xs @ xs ! mn # drop hi (take mn xs) @ drop (Suc mn) xs"

function qsort_insert :: "('a \<Rightarrow> 'a \<Rightarrow> int) \<Rightarrow> 'a list \<Rightarrow> nat \<Rightarrow> nat \<Rightarrow> 'a list exec" where
  "qsort_insert cmp xs mn mx =
     (if mn < mx then
        exec_bind (qsort_place cmp xs mn mn) (\<lambda>hi.
        qsort_insert cmp (if hi \<noteq> mn then rec_rotate xs hi mn else xs) (Suc mn) mx)
      else Ok xs)"
  by pat_completeness auto
termination
  by (relation "measure (\<lambda>(cmp, xs, mn, mx). mx - mn)") auto

declare qsort_least.simps [simp del] qsort_insert.simps [simp del]

definition qsort :: "('a \<Rightarrow> 'a \<Rightarrow> int) \<Rightarrow> 'a list \<Rightarrow> 'a list exec option" where
  "qsort cmp xs =
     (let n = length xs; mx = n in
      if n \<le> 1 then Some (Ok xs)
      else Option.bind (if THRESH \<le> n then qst cmp xs 0 mx mx else Some (Ok xs)) (\<lambda>r.
        Some (exec_bind r (\<lambda>xs.
          exec_bind (qsort_least cmp xs 0 1 (if THRESH \<le> n then THRESH else mx)) (\<lambda>j.
          exec_bind (if j \<noteq> 0 then rec_swap xs 0 j else Ok xs) (\<lambda>xs.
          qsort_insert cmp xs 1 mx))))))"

section \<open>Heapsort\<close>

text \<open>
  The macro \<open>HEAP\<close>.  Records are numbered from 1, so that \<open>bot\<close> points below the first one; the
  macro stops when the larger child is not above its parent.
\<close>

function heap_sift :: "('a \<Rightarrow> 'a \<Rightarrow> int) \<Rightarrow> nat \<Rightarrow> 'a list \<Rightarrow> nat \<Rightarrow> 'a list exec" where
  "heap_sift cmp nmemb xs i =
     (if i = 0 then Wild
      else if i * 2 \<le> nmemb then
        exec_bind (if i * 2 < nmemb then rec_cmp cmp xs (i * 2 - 1) (i * 2) else Ok 0) (\<lambda>c.
        let j = (if c < 0 then i * 2 + 1 else i * 2) in
        exec_bind (rec_cmp cmp xs (j - 1) (i - 1)) (\<lambda>c.
        if c \<le> 0 then Ok xs
        else exec_bind (rec_swap xs (i - 1) (j - 1)) (\<lambda>xs. heap_sift cmp nmemb xs j)))
      else Ok xs)"
  by pat_completeness auto
termination
  by (relation "measure (\<lambda>(cmp, nmemb, xs, i). nmemb - i)") (auto split: if_splits)

declare heap_sift.simps [simp del]

text \<open>Lines 114--115, with \<open>l\<close> after its decrement, and lines 121--127.\<close>

fun heap_build :: "('a \<Rightarrow> 'a \<Rightarrow> int) \<Rightarrow> nat \<Rightarrow> 'a list \<Rightarrow> nat \<Rightarrow> 'a list exec" where
  "heap_build cmp nmemb xs 0 = Ok xs"
| "heap_build cmp nmemb xs (Suc l) = exec_bind (heap_sift cmp nmemb xs (Suc l)) (\<lambda>xs. heap_build cmp nmemb xs l)"

fun heap_unload :: "('a \<Rightarrow> 'a \<Rightarrow> int) \<Rightarrow> nat \<Rightarrow> 'a list \<Rightarrow> 'a list exec" where
  "heap_unload cmp nmemb xs =
     (if 1 < nmemb then
        exec_bind (rec_swap xs 0 (nmemb - 1)) (\<lambda>xs.
        exec_bind (heap_sift cmp (nmemb - 1) xs 1) (\<lambda>xs.
        heap_unload cmp (nmemb - 1) xs))
      else Ok xs)"

declare heap_unload.simps [simp del]

text \<open>The result of the call, \<open>errno\<close> when it is set, and the array.\<close>

definition heapsort :: "('a \<Rightarrow> 'a \<Rightarrow> int) \<Rightarrow> nat \<Rightarrow> 'a list \<Rightarrow> (int \<times> int option \<times> 'a list) exec" where
  "heapsort cmp sz xs =
     (if length xs \<le> 1 then Ok (0, None, xs)
      else if sz = 0 then Ok (- 1, Some EINVAL, xs)
      else exec_bind (heap_build cmp (length xs) xs (length xs div 2)) (\<lambda>xs.
        exec_bind (heap_unload cmp (length xs) xs) (\<lambda>xs. Ok (0, None, xs))))"

section \<open>Binary search\<close>

text \<open>\<open>key\<close> is compared with records: \<open>cmp x\<close> is \<open>compar(key, x)\<close>.  The result is the index of the record found.\<close>

function bsearch_loop :: "('a \<Rightarrow> int) \<Rightarrow> 'a list \<Rightarrow> nat \<Rightarrow> nat \<Rightarrow> nat option exec" where
  "bsearch_loop cmp xs base lim =
     (if lim = 0 then Ok None
      else let p = base + lim div 2 in
        if p < length xs then
          if cmp (xs ! p) = 0 then Ok (Some p)
          else if cmp (xs ! p) > 0 then bsearch_loop cmp xs (p + 1) ((lim - 1) div 2)
          else bsearch_loop cmp xs base (lim div 2)
        else Wild)"
  by pat_completeness auto
termination
  by (relation "measure (\<lambda>(cmp, xs, base, lim). lim)") auto

declare bsearch_loop.simps [simp del]

definition bsearch :: "('a \<Rightarrow> int) \<Rightarrow> 'a list \<Rightarrow> nat option exec" where
  "bsearch cmp xs = bsearch_loop cmp xs 0 (length xs)"

end
