(* ===== verification/Ix_Qsort.thy ===== *)
theory Ix_Qsort
  imports Ix_Sort
begin

text \<open>
  Correctness of \<open>qsort\<close>.  The locale \<open>comparator\<close> is the contract of comparison functions, under which
  \<open>qst\<close> leaves a smallest record among the first ones, so that the insertion sort, which does not test for the
  start of the array, stays within it.
\<close>

section \<open>Permutations of a segment of an array\<close>

text \<open>\<open>ys\<close> comes from \<open>xs\<close> by permuting the records \<open>base\<close>, ..., \<open>mx - 1\<close>.\<close>

definition seg_perm :: "nat \<Rightarrow> nat \<Rightarrow> 'a list \<Rightarrow> 'a list \<Rightarrow> bool" where
  "seg_perm base mx xs ys \<longleftrightarrow>
     length ys = length xs \<and> take base ys = take base xs \<and> drop mx ys = drop mx xs \<and> mset ys = mset xs"

lemma seg_perm_refl [simp]: "seg_perm base mx xs xs"
  by (simp add: seg_perm_def)

lemma seg_perm_trans: "seg_perm base mx xs ys \<Longrightarrow> seg_perm base mx ys zs \<Longrightarrow> seg_perm base mx xs zs"
  by (simp add: seg_perm_def)

lemma seg_perm_length: "seg_perm base mx xs ys \<Longrightarrow> length ys = length xs"
  by (simp add: seg_perm_def)

lemma seg_perm_mono:
  assumes "seg_perm b m xs ys" and "base \<le> b" and "m \<le> mx"
  shows "seg_perm base mx xs ys"
proof -
  from assms(1,2) have "take base ys = take base xs"
    by (metis min.absorb1 seg_perm_def take_take)
  moreover from assms(1,3) have "drop mx ys = drop mx xs"
    by (metis drop_drop le_add_diff_inverse2 seg_perm_def)
  ultimately show ?thesis using assms(1) by (simp add: seg_perm_def)
qed

lemma seg_perm_swap:
  assumes "base \<le> i" "i < mx" "base \<le> j" "j < mx" "mx \<le> length xs"
  shows "seg_perm base mx xs (xs[i := xs ! j, j := xs ! i])"
  using assms by (simp add: seg_perm_def mset_swap)

lemma seg_perm_outside:
  assumes "seg_perm base mx xs ys" and "k < base \<or> mx \<le> k" and "k < length xs"
  shows "ys ! k = xs ! k"
proof (cases "k < base")
  case True
  with assms show ?thesis by (metis nth_take seg_perm_def)
next
  case False
  have "zs ! k = drop mx zs ! (k - mx)" if "length zs = length xs" for zs :: "'a list"
    using False assms that by simp
  with assms(1) show ?thesis by (simp add: seg_perm_def)
qed

lemma seg_perm_mset:
  assumes "seg_perm base mx xs ys" and "base \<le> mx" and "mx \<le> length xs"
  shows "mset (drop base (take mx ys)) = mset (drop base (take mx xs))"
proof -
  have split: "mset zs = mset (take base zs) + mset (drop base (take mx zs)) + mset (drop mx zs)" for zs :: "'a list"
  proof -
    have "zs = take base zs @ drop base (take mx zs) @ drop mx zs"
      using assms(2) by (metis append.assoc append_take_drop_id min.absorb1 take_take)
    then show ?thesis by (metis mset_append add.assoc)
  qed
  from assms(1) have "take base ys = take base xs" "drop mx ys = drop mx xs" "mset ys = mset xs"
    by (simp_all add: seg_perm_def)
  with split [of ys] split [of xs] show ?thesis by (metis add_left_cancel add_right_cancel)
qed

lemma seg_nth: "x \<in> set (drop base (take mx xs)) \<longleftrightarrow> (\<exists>k. base \<le> k \<and> k < mx \<and> k < length xs \<and> x = xs ! k)"
proof
  assume "x \<in> set (drop base (take mx xs))"
  then obtain k where "k < length (drop base (take mx xs))" "x = drop base (take mx xs) ! k"
    by (metis in_set_conv_nth)
  moreover from this have "base + k < mx" "base + k < length xs" by auto
  ultimately have "base \<le> base + k \<and> base + k < mx \<and> base + k < length xs \<and> x = xs ! (base + k)"
    by (simp add: add.commute)
  then show "\<exists>k. base \<le> k \<and> k < mx \<and> k < length xs \<and> x = xs ! k" by blast
next
  assume "\<exists>k. base \<le> k \<and> k < mx \<and> k < length xs \<and> x = xs ! k"
  then obtain k where k: "base \<le> k" "k < mx" "k < length xs" "x = xs ! k" by blast
  then have "drop base (take mx xs) ! (k - base) = x" "k - base < length (drop base (take mx xs))" by auto
  then show "x \<in> set (drop base (take mx xs))" by (metis nth_mem)
qed

lemma seg_perm_inside:
  assumes "seg_perm base mx xs ys" "mx \<le> length xs" "base \<le> k" "k < mx"
  obtains k' where "base \<le> k'" "k' < mx" "ys ! k = xs ! k'"
proof -
  have "ys ! k \<in> set (drop base (take mx ys))"
    using assms by (subst seg_nth) (auto simp: seg_perm_length)
  with seg_perm_mset [OF assms(1)] assms have "ys ! k \<in> set (drop base (take mx xs))"
    by (metis le_trans less_imp_le set_mset_mset)
  then show ?thesis using that by (auto simp: seg_nth)
qed

lemma seg_perm_all:
  assumes "seg_perm base mx xs ys" "mx \<le> length xs" "\<And>k. base \<le> k \<Longrightarrow> k < mx \<Longrightarrow> P (xs ! k)" "base \<le> k" "k < mx"
  shows "P (ys ! k)"
  using seg_perm_inside [OF assms(1,2,4,5)] assms(3) by metis

lemma rec_cmp_in [simp]: "i < length xs \<Longrightarrow> j < length xs \<Longrightarrow> rec_cmp cmp xs i j = Ok (cmp (xs ! i) (xs ! j))"
  by (simp add: rec_cmp_def)

lemma rec_swap_in [simp]: "i < length xs \<Longrightarrow> j < length xs \<Longrightarrow> rec_swap xs i j = Ok (xs[i := xs ! j, j := xs ! i])"
  by (simp add: rec_swap_def)

lemma rec_dec_pos [simp]: "0 < p \<Longrightarrow> rec_dec p = Ok (p - 1)"
  by (simp add: rec_dec_def)

section \<open>The loops of quicksort\<close>

lemma qst_median_ok:
  assumes "base + lo = mx" "mx \<le> length xs" "mid = base + lo div 2"
  obtains ys where "qst_median cmp xs base mx lo mid = Ok ys" "seg_perm base mx xs ys"
proof (cases "MTHRESH \<le> lo")
  case False
  then show ?thesis using that by (simp add: qst_median_def)
next
  case True
  then have idx: "base < mx" "mid < mx" "base \<le> mid" "0 < mx" "mx - 1 < length xs" "base < length xs" "mid < length xs"
    using assms by auto
  have "\<exists>j. base \<le> j \<and> j < mx \<and> qst_median cmp xs base mx lo mid = (if j \<noteq> mid then rec_swap xs mid j else Ok xs)"
  proof -
    define j1 where "j1 = (if cmp (xs ! base) (xs ! mid) > 0 then base else mid)"
    define j2 where "j2 = (if j1 = base then mid else base)"
    define j where "j = (if cmp (xs ! j1) (xs ! (mx - 1)) > 0
       then if cmp (xs ! j2) (xs ! (mx - 1)) < 0 then mx - 1 else j2 else j1)"
    have i: "j1 < length xs" "j2 < length xs" using idx by (auto simp: j1_def j2_def)
    have "base \<le> j \<and> j < mx" using idx by (auto simp: j_def j1_def j2_def)
    moreover have "qst_median cmp xs base mx lo mid = (if j \<noteq> mid then rec_swap xs mid j else Ok xs)"
      using True idx i unfolding qst_median_def
      by (simp add: j1_def [symmetric] j2_def [symmetric] Let_def) (auto simp: j_def)
    ultimately show ?thesis by blast
  qed
  then obtain j where j: "base \<le> j" "j < mx"
    and e: "qst_median cmp xs base mx lo mid = (if j \<noteq> mid then rec_swap xs mid j else Ok xs)" by blast
  from j idx assms(2) have "j < length xs" by simp
  then have "qst_median cmp xs base mx lo mid = Ok (if j \<noteq> mid then xs[mid := xs ! j, j := xs ! mid] else xs)"
    using e idx by simp
  moreover have "seg_perm base mx xs (if j \<noteq> mid then xs[mid := xs ! j, j := xs ! mid] else xs)"
    using j idx assms(2) by (simp add: seg_perm_swap)
  ultimately show ?thesis using that by blast
qed

lemma qst_scan_i_ok:
  assumes "i \<le> mid" "mid < length xs"
  obtains i' where "qst_scan_i cmp xs i mid = Ok i'" "i \<le> i'" "i' \<le> mid"
    "\<And>k. i \<le> k \<Longrightarrow> k < i' \<Longrightarrow> cmp (xs ! k) (xs ! mid) \<le> 0" "i' < mid \<Longrightarrow> cmp (xs ! i') (xs ! mid) > 0"
  using assms
proof (induction cmp xs i mid arbitrary: thesis rule: qst_scan_i.induct)
  case (1 cmp xs i mid)
  show ?case
  proof (cases "i < mid \<and> cmp (xs ! i) (xs ! mid) \<le> 0")
    case True
    then have e: "qst_scan_i cmp xs i mid = qst_scan_i cmp xs (Suc i) mid"
      using "1.prems" by (subst qst_scan_i.simps) simp
    obtain i' where i': "qst_scan_i cmp xs (Suc i) mid = Ok i'" "Suc i \<le> i'" "i' \<le> mid"
      "\<And>k. Suc i \<le> k \<Longrightarrow> k < i' \<Longrightarrow> cmp (xs ! k) (xs ! mid) \<le> 0" "i' < mid \<Longrightarrow> cmp (xs ! i') (xs ! mid) > 0"
    proof (rule "1.IH")
      show "rec_cmp cmp xs i mid = Ok (cmp (xs ! i) (xs ! mid))" using True "1.prems" by simp
    qed (use True "1.prems" in auto)
    have "cmp (xs ! k) (xs ! mid) \<le> 0" if "i \<le> k" "k < i'" for k
      using that True i'(4) by (cases "k = i") auto
    with i' e show ?thesis by (intro "1.prems"(1)) auto
  next
    case False
    then have "qst_scan_i cmp xs i mid = Ok i" using "1.prems" by (subst qst_scan_i.simps) auto
    with False "1.prems"(2,3) show ?thesis by (intro "1.prems"(1)) auto
  qed
qed

lemma qst_scan_j_ok:
  assumes "mid \<le> j" "j < length xs"
  obtains j' where "qst_scan_j cmp xs mid j = Ok j'" "mid \<le> j'" "j' \<le> j"
    "\<And>k. j' < k \<Longrightarrow> k \<le> j \<Longrightarrow> cmp (xs ! mid) (xs ! k) \<le> 0" "mid < j' \<Longrightarrow> cmp (xs ! mid) (xs ! j') > 0"
  using assms
proof (induction cmp xs mid j arbitrary: thesis rule: qst_scan_j.induct)
  case (1 cmp xs mid j)
  show ?case
  proof (cases "mid < j \<and> cmp (xs ! mid) (xs ! j) \<le> 0")
    case True
    then have e: "qst_scan_j cmp xs mid j = qst_scan_j cmp xs mid (j - 1)"
      using "1.prems" by (subst qst_scan_j.simps) simp
    obtain j' where j': "qst_scan_j cmp xs mid (j - 1) = Ok j'" "mid \<le> j'" "j' \<le> j - 1"
      "\<And>k. j' < k \<Longrightarrow> k \<le> j - 1 \<Longrightarrow> cmp (xs ! mid) (xs ! k) \<le> 0" "mid < j' \<Longrightarrow> cmp (xs ! mid) (xs ! j') > 0"
    proof (rule "1.IH")
      show "rec_cmp cmp xs mid j = Ok (cmp (xs ! mid) (xs ! j))" using "1.prems" by simp
    qed (use True "1.prems" in auto)
    have "cmp (xs ! mid) (xs ! k) \<le> 0" if "j' < k" "k \<le> j" for k
      using that True j'(4) by (cases "k = j") auto
    with j' e show ?thesis by (intro "1.prems"(1)) auto
  next
    case False
    then have "qst_scan_j cmp xs mid j = Ok j" using "1.prems" by (subst qst_scan_j.simps) auto
    with False "1.prems"(2,3) show ?thesis by (intro "1.prems"(1) [of j]) auto
  qed
qed

section \<open>Quicksort with a consistent comparison function\<close>

text \<open>The records below \<open>m\<close> are not above the one at \<open>m\<close>, those above it not below it.\<close>

definition parted :: "('a \<Rightarrow> 'a \<Rightarrow> int) \<Rightarrow> nat \<Rightarrow> nat \<Rightarrow> 'a list \<Rightarrow> nat \<Rightarrow> bool" where
  "parted cmp base mx xs m \<longleftrightarrow> base \<le> m \<and> m < mx \<and>
     (\<forall>k. base \<le> k \<and> k < m \<longrightarrow> cmp (xs ! k) (xs ! m) \<le> 0) \<and> (\<forall>k. m < k \<and> k < mx \<longrightarrow> cmp (xs ! m) (xs ! k) \<le> 0)"

text \<open>What holds at the head of the loop of line 194.\<close>

definition parting :: "('a \<Rightarrow> 'a \<Rightarrow> int) \<Rightarrow> nat \<Rightarrow> nat \<Rightarrow> 'a list \<Rightarrow> nat \<Rightarrow> nat \<Rightarrow> nat \<Rightarrow> bool" where
  "parting cmp base mx xs i j mid \<longleftrightarrow> base \<le> i \<and> i \<le> mid \<and> mid \<le> j \<and> j < mx \<and> mx \<le> length xs \<and>
     (\<forall>k. base \<le> k \<and> k < i \<longrightarrow> cmp (xs ! k) (xs ! mid) \<le> 0) \<and> (\<forall>k. j < k \<and> k < mx \<longrightarrow> cmp (xs ! mid) (xs ! k) \<le> 0)"

text \<open>A smallest record of the segment is among its first \<open>THRESH\<close> records.\<close>

definition least_early :: "('a \<Rightarrow> 'a \<Rightarrow> int) \<Rightarrow> nat \<Rightarrow> nat \<Rightarrow> 'a list \<Rightarrow> bool" where
  "least_early cmp base mx xs \<longleftrightarrow>
     (\<exists>k. base \<le> k \<and> k < base + THRESH \<and> k < mx \<and> (\<forall>m. base \<le> m \<and> m < mx \<longrightarrow> cmp (xs ! k) (xs ! m) \<le> 0))"

definition qst_parts :: "('a \<Rightarrow> 'a \<Rightarrow> int) \<Rightarrow> nat \<Rightarrow> nat \<Rightarrow> nat \<Rightarrow> bool" where
  "qst_parts cmp base mx m \<longleftrightarrow>
     (\<forall>us. mx \<le> length us \<longrightarrow>
        (\<exists>zs. (if THRESH \<le> m - base then qst cmp us base m (m - base) else Some (Ok us)) = Some (Ok zs) \<and>
           seg_perm base m us zs \<and> (THRESH \<le> m - base \<longrightarrow> least_early cmp base m zs)) \<and>
        (\<exists>zs. (if THRESH \<le> mx - (m + 1) then qst cmp us (m + 1) mx (mx - (m + 1)) else Some (Ok us)) = Some (Ok zs) \<and>
           seg_perm (m + 1) mx us zs))"

locale comparator =
  fixes cmp :: "'a \<Rightarrow> 'a \<Rightarrow> int"
  assumes cmp_sym: "cmp x y > 0 \<longleftrightarrow> cmp y x < 0"
    and cmp_trans: "cmp x y \<le> 0 \<Longrightarrow> cmp y z \<le> 0 \<Longrightarrow> cmp x z \<le> 0"
begin

lemma cmp_refl: "cmp x x \<le> 0"
  using cmp_sym [of x x] by auto

lemma cmp_flip: "cmp x y > 0 \<Longrightarrow> cmp y x \<le> 0"
  using cmp_sym by force

lemma cmp_total: "cmp x y \<le> 0 \<or> cmp y x \<le> 0"
  using cmp_flip by force

lemma qst_round_ok:
  assumes "parting cmp base mx xs i j mid"
  shows "(\<exists>m. qst_round cmp xs i j mid = Ok (Parted xs m) \<and> parted cmp base mx xs m) \<or>
    (\<exists>ys i' j' m. qst_round cmp xs i j mid = Ok (Round ys i' j' m) \<and> parting cmp base mx ys i' j' m \<and>
       seg_perm base mx xs ys \<and> j' - i' < j - i)"
proof -
  note p = assms [unfolded parting_def]
  obtain i' where i': "qst_scan_i cmp xs i mid = Ok i'" "i \<le> i'" "i' \<le> mid"
    "\<And>k. i \<le> k \<Longrightarrow> k < i' \<Longrightarrow> cmp (xs ! k) (xs ! mid) \<le> 0" "i' < mid \<Longrightarrow> cmp (xs ! i') (xs ! mid) > 0"
  proof (rule qst_scan_i_ok [of i mid xs cmp])
  qed (use p in auto)
  obtain j' where j': "qst_scan_j cmp xs mid j = Ok j'" "mid \<le> j'" "j' \<le> j"
    "\<And>k. j' < k \<Longrightarrow> k \<le> j \<Longrightarrow> cmp (xs ! mid) (xs ! k) \<le> 0" "mid < j' \<Longrightarrow> cmp (xs ! mid) (xs ! j') > 0"
  proof (rule qst_scan_j_ok [of mid j xs cmp])
  qed (use p in auto)
  have len: "mid < length xs" "i' < length xs" "j' < length xs" using p i' j' by auto
  have lower: "cmp (xs ! k) (xs ! mid) \<le> 0" if "base \<le> k" "k < i'" for k
    using that p i'(4) by (cases "k < i") auto
  have upper: "cmp (xs ! mid) (xs ! k) \<le> 0" if "j' < k" "k < mx" for k
    using that p j'(4) by (cases "j < k") auto
  consider (mid) "mid < j'" "i' = mid" | (swap) "mid < j'" "i' < mid" | (over) "j' = mid" "i' = mid" | (low) "j' = mid" "i' < mid"
    using i' j' by force
  then show ?thesis
  proof cases
    case mid
    let ?ys = "xs[i' := xs ! j', j' := xs ! i']"
    have "qst_round cmp xs i j mid = Ok (Round ?ys (i' + 1) j' j')"
      using mid i'(1) j'(1) len by (simp add: qst_round_def)
    moreover have "parting cmp base mx ?ys (i' + 1) j' j'"
      using mid lower upper j' p len cmp_flip by (auto simp: parting_def nth_list_update)
    moreover have "seg_perm base mx xs ?ys" using mid p i' j' by (intro seg_perm_swap) auto
    moreover have "j' - (i' + 1) < j - i" using mid i' j' by auto
    ultimately show ?thesis by blast
  next
    case swap
    let ?ys = "xs[i' := xs ! j', j' := xs ! i']"
    have "qst_round cmp xs i j mid = Ok (Round ?ys (i' + 1) (j' - 1) mid)"
      using swap i'(1) j'(1) len by (simp add: qst_round_def)
    moreover have "parting cmp base mx ?ys (i' + 1) (j' - 1) mid"
      using swap lower upper i' j' p len cmp_flip by (auto simp: parting_def nth_list_update less_Suc_eq)
    moreover have "seg_perm base mx xs ?ys" using swap p i' j' by (intro seg_perm_swap) auto
    moreover have "j' - 1 - (i' + 1) < j - i" using swap i' j' by auto
    ultimately show ?thesis by blast
  next
    case over
    then have "qst_round cmp xs i j mid = Ok (Parted xs mid)" using i'(1) j'(1) by (simp add: qst_round_def)
    moreover have "parted cmp base mx xs mid" using over lower upper p i' j' by (auto simp: parted_def)
    ultimately show ?thesis by blast
  next
    case low
    let ?ys = "xs[i' := xs ! mid, mid := xs ! i']"
    have "qst_round cmp xs i j mid = Ok (Round ?ys i' (j' - 1) i')"
      using low i'(1) j'(1) len by (simp add: qst_round_def)
    moreover have "parting cmp base mx ?ys i' (j' - 1) i'"
      using low lower upper i' j' p len cmp_flip by (auto simp: parting_def nth_list_update)
    moreover have "seg_perm base mx xs ?ys" using low p i' j' by (intro seg_perm_swap) auto
    moreover have "j' - 1 - i' < j - i" using low i' j' by auto
    ultimately show ?thesis by blast
  qed
qed

lemma qst_part_ok:
  assumes "parting cmp base mx xs i j mid"
  obtains ys m where "qst_part cmp xs i j mid = Some (Ok (ys, m))" "seg_perm base mx xs ys" "parted cmp base mx ys m"
  using assms
proof (induction "j - i" arbitrary: xs i j mid thesis rule: less_induct)
  case less
  from qst_round_ok [OF less.prems(2)] show ?case
  proof (elim disjE exE conjE)
    fix m assume "qst_round cmp xs i j mid = Ok (Parted xs m)" "parted cmp base mx xs m"
    then show ?thesis by (intro less.prems(1) [of xs m]) (simp_all add: qst_part.simps [of cmp xs])
  next
    fix ys i' j' m assume r: "qst_round cmp xs i j mid = Ok (Round ys i' j' m)" "parting cmp base mx ys i' j' m"
      "seg_perm base mx xs ys" "j' - i' < j - i"
    obtain zs m' where "qst_part cmp ys i' j' m = Some (Ok (zs, m'))" "seg_perm base mx ys zs" "parted cmp base mx zs m'"
      using less.hyps [OF r(4) _ r(2)] by metis
    then show ?thesis using r
      by (intro less.prems(1) [of zs m']) (auto simp: qst_part.simps [of cmp xs] intro: seg_perm_trans)
  qed
qed

lemma parted_left:
  assumes "parted cmp base mx xs m" "mx \<le> length xs" "seg_perm base m xs ys"
  shows "parted cmp base mx ys m"
proof -
  note p = assms(1) [unfolded parted_def]
  have out: "ys ! k = xs ! k" if "m \<le> k" "k < mx" for k
    using seg_perm_outside [OF assms(3)] that assms(2) by auto
  have "cmp (ys ! k) (xs ! m) \<le> 0" if "base \<le> k" "k < m" for k
    by (rule seg_perm_all [OF assms(3) _ _ that]) (use p assms(2) in auto)
  then show ?thesis using p out by (auto simp: parted_def)
qed

lemma parted_right:
  assumes "parted cmp base mx xs m" "mx \<le> length xs" "seg_perm (m + 1) mx xs ys"
  shows "parted cmp base mx ys m"
proof -
  note p = assms(1) [unfolded parted_def]
  have out: "ys ! k = xs ! k" if "k \<le> m" for k
    using seg_perm_outside [OF assms(3)] that assms(2) p by auto
  have "cmp (xs ! m) (ys ! k) \<le> 0" if "m + 1 \<le> k" "k < mx" for k
    by (rule seg_perm_all [OF assms(3) _ _ that]) (use p assms(2) in auto)
  then show ?thesis using p out by (auto simp: parted_def)
qed

lemma least_exists: "base < m \<Longrightarrow> \<exists>k. base \<le> k \<and> k < m \<and> (\<forall>l. base \<le> l \<and> l < m \<longrightarrow> cmp (xs ! k) (xs ! l) \<le> 0)"
proof (induction m)
  case (Suc m)
  show ?case
  proof (cases "base < m")
    case False
    with Suc.prems have "base = m" by simp
    then show ?thesis using cmp_refl by (intro exI [of _ m]) (auto simp: less_Suc_eq_le)
  next
    case True
    then obtain k where k: "base \<le> k" "k < m" "\<And>l. base \<le> l \<Longrightarrow> l < m \<Longrightarrow> cmp (xs ! k) (xs ! l) \<le> 0"
      using Suc.IH by blast
    show ?thesis
    proof (cases "cmp (xs ! k) (xs ! m) \<le> 0")
      case True
      with k show ?thesis by (intro exI [of _ k]) (auto simp: less_Suc_eq)
    next
      case False
      then have m: "cmp (xs ! m) (xs ! k) \<le> 0" using cmp_flip by simp
      have "cmp (xs ! m) (xs ! l) \<le> 0" if "base \<le> l" "l < Suc m" for l
        using that k(3) cmp_trans [OF m] cmp_refl by (cases "l = m") auto
      with k show ?thesis by (intro exI [of _ m]) auto
    qed
  qed
qed simp

lemma least_early_parted:
  assumes "parted cmp base mx xs m" "THRESH \<le> m - base \<Longrightarrow> least_early cmp base m xs"
  shows "least_early cmp base mx xs"
proof (cases "m = base")
  case True
  then show ?thesis using assms(1) cmp_refl unfolding least_early_def parted_def
    by (intro exI [of _ m]) (auto simp: le_less)
next
  case False
  with assms(1) have b: "base < m" "m < mx" by (auto simp: parted_def)
  obtain k where k: "base \<le> k" "k < m" "k < base + THRESH" "\<And>l. base \<le> l \<Longrightarrow> l < m \<Longrightarrow> cmp (xs ! k) (xs ! l) \<le> 0"
  proof (cases "THRESH \<le> m - base")
    case True
    with assms(2) that show ?thesis by (auto simp: least_early_def)
  next
    case False
    with least_exists [OF b(1), of xs] that show ?thesis by fastforce
  qed
  from k assms(1) have m: "cmp (xs ! k) (xs ! m) \<le> 0" by (auto simp: parted_def)
  have "cmp (xs ! k) (xs ! l) \<le> 0" if "base \<le> l" "l < mx" for l
  proof -
    consider "l < m" | "l = m" | "m < l" by linarith
    then show ?thesis
    proof cases
      case 3
      with assms(1) that have "cmp (xs ! m) (xs ! l) \<le> 0" by (auto simp: parted_def)
      with m show ?thesis by (rule cmp_trans)
    qed (use k m that in auto)
  qed
  with k b show ?thesis unfolding least_early_def by (intro exI [of _ k]) auto
qed

lemma qst_head_ok:
  assumes "base + lo = mx" "0 < lo" "mx \<le> length xs"
  obtains ys m where "qst_head cmp xs base mx lo = Some (Ok (ys, m))" "seg_perm base mx xs ys" "parted cmp base mx ys m"
proof -
  obtain ys where ys: "qst_median cmp xs base mx lo (base + lo div 2) = Ok ys" "seg_perm base mx xs ys"
    by (rule qst_median_ok [OF assms(1,3) refl])
  have "parting cmp base mx ys base (mx - 1) (base + lo div 2)"
    using assms seg_perm_length [OF ys(2)] by (auto simp: parting_def)
  then obtain zs m where "qst_part cmp ys base (mx - 1) (base + lo div 2) = Some (Ok (zs, m))"
    "seg_perm base mx ys zs" "parted cmp base mx zs m"
    by (rule qst_part_ok)
  then show ?thesis using that [of zs m] assms ys seg_perm_trans [OF ys(2)] by (simp add: qst_head_def Let_def)
qed

text \<open>
  What \<open>qst\<close> achieves on a segment.  The two parts are sorted one after the other, the smaller one first;
  \<open>qst_parts\<close> says that both recursive calls do what they should.
\<close>

lemma qst_left_first:
  assumes h: "qst_head cmp xs base mx lo = Some (Ok (ys, m))" "seg_perm base mx xs ys" "parted cmp base mx ys m"
    and q: "qst_parts cmp base mx m" and len: "mx \<le> length ys" and le: "m - base \<le> mx - (m + 1)"
  shows "\<exists>vs. qst cmp xs base mx lo = Some (Ok vs) \<and> seg_perm base mx xs vs \<and> least_early cmp base mx vs"
proof -
  have m: "base \<le> m" "m < mx" using h(3) by (auto simp: parted_def)
  obtain us where us: "(if THRESH \<le> m - base then qst cmp ys base m (m - base) else Some (Ok ys)) = Some (Ok us)"
    "seg_perm base m ys us" "THRESH \<le> m - base \<longrightarrow> least_early cmp base m us"
    using q len unfolding qst_parts_def by meson
  have lu: "mx \<le> length us" using len seg_perm_length [OF us(2)] by simp
  obtain vs where vs: "(if THRESH \<le> mx - (m + 1) then qst cmp us (m + 1) mx (mx - (m + 1)) else Some (Ok us)) = Some (Ok vs)"
    "seg_perm (m + 1) mx us vs"
    using q lu unfolding qst_parts_def by meson
  have "qst cmp xs base mx lo = Some (Ok vs)"
    using le by (subst qst.simps) (simp add: h(1) us(1) vs(1) Let_def del: One_nat_def add_Suc_right)
  moreover have "seg_perm base mx xs vs"
    using h(2) seg_perm_mono [OF us(2), of base mx] seg_perm_mono [OF vs(2), of base mx] m
    by (auto intro: seg_perm_trans)
  moreover have "parted cmp base mx vs m"
    by (rule parted_right [OF parted_left [OF h(3) len us(2)] lu vs(2)])
  moreover have "least_early cmp base m vs" if "THRESH \<le> m - base"
  proof -
    have "vs ! k = us ! k" if "k < m" for k using seg_perm_outside [OF vs(2)] that m lu by auto
    then show ?thesis using us(3) that by (auto simp: least_early_def)
  qed
  ultimately show ?thesis using least_early_parted by blast
qed

lemma qst_right_first:
  assumes h: "qst_head cmp xs base mx lo = Some (Ok (ys, m))" "seg_perm base mx xs ys" "parted cmp base mx ys m"
    and q: "qst_parts cmp base mx m" and len: "mx \<le> length ys" and le: "\<not> m - base \<le> mx - (m + 1)"
  shows "\<exists>vs. qst cmp xs base mx lo = Some (Ok vs) \<and> seg_perm base mx xs vs \<and> least_early cmp base mx vs"
proof -
  have m: "base \<le> m" "m < mx" using h(3) by (auto simp: parted_def)
  obtain us where us: "(if THRESH \<le> mx - (m + 1) then qst cmp ys (m + 1) mx (mx - (m + 1)) else Some (Ok ys)) = Some (Ok us)"
    "seg_perm (m + 1) mx ys us"
    using q len unfolding qst_parts_def by meson
  have lu: "mx \<le> length us" using len seg_perm_length [OF us(2)] by simp
  obtain vs where vs: "(if THRESH \<le> m - base then qst cmp us base m (m - base) else Some (Ok us)) = Some (Ok vs)"
    "seg_perm base m us vs" "THRESH \<le> m - base \<longrightarrow> least_early cmp base m vs"
    using q lu unfolding qst_parts_def by meson
  have "qst cmp xs base mx lo = Some (Ok vs)"
    using le by (subst qst.simps) (simp add: h(1) us(1) vs(1) Let_def del: One_nat_def add_Suc_right)
  moreover have "seg_perm base mx xs vs"
    using h(2) seg_perm_mono [OF us(2), of base mx] seg_perm_mono [OF vs(2), of base mx] m
    by (auto intro: seg_perm_trans)
  moreover have "parted cmp base mx vs m"
    by (rule parted_left [OF parted_right [OF h(3) len us(2)] lu vs(2)])
  ultimately show ?thesis using least_early_parted vs(3) by blast
qed

lemma qst_ok:
  assumes "base + lo = mx" "THRESH \<le> lo" "mx \<le> length xs"
  shows "\<exists>ys. qst cmp xs base mx lo = Some (Ok ys) \<and> seg_perm base mx xs ys \<and> least_early cmp base mx ys"
  using assms
proof (induction lo arbitrary: xs base mx rule: less_induct)
  case (less lo)
  obtain ys m where h: "qst_head cmp xs base mx lo = Some (Ok (ys, m))" "seg_perm base mx xs ys" "parted cmp base mx ys m"
    using qst_head_ok [of base lo mx xs] less.prems by auto
  have m: "base \<le> m" "m < mx" "m - base < lo" "mx - (m + 1) < lo" "mx \<le> length ys"
    using h(3) less.prems seg_perm_length [OF h(2)] by (auto simp: parted_def)
  have "qst_parts cmp base mx m"
    using less.IH [OF m(3), of base m] less.IH [OF m(4), of "m + 1" mx] m by (auto simp: qst_parts_def)
  then show ?case using qst_left_first [OF h _ m(5)] qst_right_first [OF h _ m(5)] by blast
qed

section \<open>The insertion sort\<close>

lemma qsort_least_ok:
  assumes "j < lo" "lo \<le> hi" "hi \<le> length xs" "\<And>k. k < lo \<Longrightarrow> cmp (xs ! j) (xs ! k) \<le> 0"
  shows "\<exists>j'. qsort_least cmp xs j lo hi = Ok j' \<and> j' < hi \<and> (\<forall>k < hi. cmp (xs ! j') (xs ! k) \<le> 0)"
  using assms
proof (induction "hi - lo" arbitrary: j lo)
  case 0
  then show ?case by (subst qsort_least.simps) auto
next
  case (Suc d)
  then have lh: "lo < hi" by linarith
  define j' where "j' = (if cmp (xs ! j) (xs ! lo) > 0 then lo else j)"
  have "cmp (xs ! j') (xs ! k) \<le> 0" if "k < Suc lo" for k
  proof (cases "cmp (xs ! j) (xs ! lo) > 0")
    case True
    with Suc.prems that cmp_trans [OF cmp_flip [OF True]] cmp_refl show ?thesis
      by (cases "k = lo") (auto simp: j'_def)
  next
    case False
    with Suc.prems that show ?thesis by (cases "k = lo") (auto simp: j'_def)
  qed
  moreover have "qsort_least cmp xs j lo hi = qsort_least cmp xs j' (Suc lo) hi"
    using lh Suc.prems by (subst qsort_least.simps) (simp add: j'_def)
  moreover have "j' < Suc lo" using Suc.prems by (simp add: j'_def)
  ultimately show ?case using Suc.hyps(1) [of "Suc lo" j'] Suc.hyps(2) Suc.prems(3) lh by simp
qed

lemma qsort_place_ok:
  assumes "0 < hi" "hi \<le> mn" "mn < length xs" "cmp (xs ! 0) (xs ! mn) \<le> 0"
  shows "\<exists>h. qsort_place cmp xs mn hi = Ok h \<and> 0 < h \<and> h \<le> hi \<and> cmp (xs ! (h - 1)) (xs ! mn) \<le> 0 \<and>
    (\<forall>k. h \<le> k \<and> k < hi \<longrightarrow> cmp (xs ! mn) (xs ! k) \<le> 0)"
  using assms
proof (induction hi)
  case (Suc hi)
  show ?case
  proof (cases "cmp (xs ! hi) (xs ! mn) > 0")
    case False
    with Suc.prems show ?thesis by auto
  next
    case True
    then have "0 < hi" using Suc.prems by (cases hi) auto
    then obtain h where "qsort_place cmp xs mn hi = Ok h" "0 < h" "h \<le> hi" "cmp (xs ! (h - 1)) (xs ! mn) \<le> 0"
      "\<And>k. h \<le> k \<Longrightarrow> k < hi \<Longrightarrow> cmp (xs ! mn) (xs ! k) \<le> 0"
      using Suc by auto
    with True Suc.prems show ?thesis using cmp_flip by (auto simp: less_Suc_eq)
  qed
qed simp

lemma rec_rotate_props:
  assumes "hi \<le> mn" "mn < length xs"
  shows "length (rec_rotate xs hi mn) = length xs" "mset (rec_rotate xs hi mn) = mset xs"
    "take (Suc mn) (rec_rotate xs hi mn) = take hi xs @ xs ! mn # drop hi (take mn xs)"
proof -
  have "xs = take mn xs @ xs ! mn # drop (Suc mn) xs" using assms(2) by (rule id_take_nth_drop)
  moreover have "take mn xs = take hi xs @ drop hi (take mn xs)" using assms(1)
    by (metis append_take_drop_id min.absorb1 take_take)
  ultimately have "mset xs = mset (take hi xs) + mset (drop hi (take mn xs)) + {#xs ! mn#} + mset (drop (Suc mn) xs)"
    by (metis (no_types, lifting) add.assoc add_mset_add_single mset.simps(2) mset_append union_commute)
  then show "mset (rec_rotate xs hi mn) = mset xs" by (simp add: rec_rotate_def)
qed (use assms in \<open>simp_all add: rec_rotate_def min_def Suc_diff_le\<close>)

lemma sorted_rotate:
  assumes srt: "sorted_wrt (\<lambda>x y. cmp x y \<le> 0) (take mn xs)" and h: "0 < h" "h \<le> mn" "mn < length xs"
    and below: "cmp (xs ! (h - 1)) (xs ! mn) \<le> 0" and above: "\<forall>k. h \<le> k \<and> k < mn \<longrightarrow> cmp (xs ! mn) (xs ! k) \<le> 0"
  shows "sorted_wrt (\<lambda>x y. cmp x y \<le> 0) (take h xs @ xs ! mn # drop h (take mn xs))"
proof -
  have split: "take mn xs = take h xs @ drop h (take mn xs)" using h
    by (metis append_take_drop_id min.absorb1 take_take)
  have s: "sorted_wrt (\<lambda>x y. cmp x y \<le> 0) (take h xs)" "sorted_wrt (\<lambda>x y. cmp x y \<le> 0) (drop h (take mn xs))"
    "\<forall>x \<in> set (take h xs). \<forall>y \<in> set (drop h (take mn xs)). cmp x y \<le> 0"
    using srt unfolding sorted_wrt_append [of _ "take h xs" "drop h (take mn xs)", folded split] by blast+
  have "cmp x (xs ! mn) \<le> 0" if x: "x \<in> set (take h xs)" for x
  proof -
    obtain k where k: "k < h" "x = xs ! k" using x h by (auto simp: in_set_conv_nth)
    show ?thesis
    proof (cases "k = h - 1")
      case False
      with k h have "cmp (xs ! k) (xs ! (h - 1)) \<le> 0"
        using sorted_wrt_nth_less [OF s(1), of k "h - 1"] by simp
      with below k show ?thesis using cmp_trans by blast
    qed (use below k in simp)
  qed
  moreover have "cmp (xs ! mn) y \<le> 0" if "y \<in> set (drop h (take mn xs))" for y
    using that above by (auto simp: seg_nth)
  ultimately show ?thesis using s by (auto simp: sorted_wrt_append)
qed

lemma qsort_insert_ok:
  assumes "0 < mn" "mn \<le> length xs" "sorted_wrt (\<lambda>x y. cmp x y \<le> 0) (take mn xs)"
    "\<And>k. k < length xs \<Longrightarrow> cmp (xs ! 0) (xs ! k) \<le> 0"
  shows "\<exists>ys. qsort_insert cmp xs mn (length xs) = Ok ys \<and> mset ys = mset xs \<and> sorted_wrt (\<lambda>x y. cmp x y \<le> 0) ys"
  using assms
proof (induction "length xs - mn" arbitrary: xs mn)
  case 0
  then show ?case by (subst qsort_insert.simps) auto
next
  case (Suc d)
  then have lt: "mn < length xs" by linarith
  obtain h where h: "qsort_place cmp xs mn mn = Ok h" "0 < h" "h \<le> mn" "cmp (xs ! (h - 1)) (xs ! mn) \<le> 0"
    "\<forall>k. h \<le> k \<and> k < mn \<longrightarrow> cmp (xs ! mn) (xs ! k) \<le> 0"
    using qsort_place_ok [of mn mn xs] Suc.prems lt by auto
  define ys where "ys = (if h \<noteq> mn then rec_rotate xs h mn else xs)"
  note r = rec_rotate_props [OF h(3) lt]
  have same: "length ys = length xs" "mset ys = mset xs" using r by (auto simp: ys_def)
  have "take (Suc mn) xs = take mn xs @ [xs ! mn]" using lt by (rule take_Suc_conv_app_nth)
  with r have tk: "take (Suc mn) ys = take h xs @ xs ! mn # drop h (take mn xs)"
    using h lt by (auto simp: ys_def)
  have "ys ! 0 = xs ! 0" using h(2) lt Suc.prems(1) by (auto simp: ys_def rec_rotate_def nth_append)
  moreover have "ys ! k \<in> set xs" if "k < length ys" for k using same that by (metis nth_mem set_mset_mset)
  ultimately have "cmp (ys ! 0) (ys ! k) \<le> 0" if "k < length ys" for k
    using that Suc.prems(4) by (metis in_set_conv_nth)
  moreover have "sorted_wrt (\<lambda>x y. cmp x y \<le> 0) (take (Suc mn) ys)"
    unfolding tk by (rule sorted_rotate [OF Suc.prems(3) h(2,3) lt h(4,5)])
  ultimately have "\<exists>zs. qsort_insert cmp ys (Suc mn) (length ys) = Ok zs \<and> mset zs = mset ys \<and> sorted_wrt (\<lambda>x y. cmp x y \<le> 0) zs"
    using Suc.hyps lt same by (intro Suc.hyps(1)) auto
  then show ?case using lt h(1) same by (subst qsort_insert.simps) (simp add: ys_def)
qed

lemma qsort_first:
  assumes "0 < length xs"
  shows "\<exists>ys. (if THRESH \<le> length xs then qst cmp xs 0 (length xs) (length xs) else Some (Ok xs)) = Some (Ok ys) \<and>
    length ys = length xs \<and> mset ys = mset xs \<and> least_early cmp 0 (length xs) ys"
proof (cases "THRESH \<le> length xs")
  case True
  then show ?thesis using qst_ok [of 0 "length xs" "length xs" xs] by (auto simp: seg_perm_def)
next
  case False
  obtain k where "k < length xs" "\<And>l. l < length xs \<Longrightarrow> cmp (xs ! k) (xs ! l) \<le> 0"
    using least_exists [OF assms, of xs] by auto
  with False have "least_early cmp 0 (length xs) xs" unfolding least_early_def by (intro exI [of _ k]) auto
  with False show ?thesis by simp
qed

lemma qsort_ok: "\<exists>ys. qsort cmp xs = Some (Ok ys) \<and> mset ys = mset xs \<and> sorted_wrt (\<lambda>x y. cmp x y \<le> 0) ys"
proof (cases "length xs \<le> 1")
  case True
  then show ?thesis by (cases xs) (auto simp: qsort_def)
next
  case False
  define hi where "hi = (if THRESH \<le> length xs then THRESH else length xs)"
  obtain ys where ys: "(if THRESH \<le> length xs then qst cmp xs 0 (length xs) (length xs) else Some (Ok xs)) = Some (Ok ys)"
    "length ys = length xs" "mset ys = mset xs" "least_early cmp 0 (length xs) ys"
    using qsort_first [of xs] False by (metis le_zero_eq linorder_not_le nat_le_linear)
  have hi: "1 < hi" "hi \<le> length ys" "hi = (if THRESH \<le> length xs then THRESH else length xs)"
    using False ys(2) by (auto simp: hi_def)
  obtain j where j: "qsort_least cmp ys 0 1 hi = Ok j" "j < hi" "\<And>k. k < hi \<Longrightarrow> cmp (ys ! j) (ys ! k) \<le> 0"
    using qsort_least_ok [of 0 1 hi ys] hi cmp_refl by auto
  have least: "cmp (ys ! j) (ys ! k) \<le> 0" if k: "k < length xs" for k
  proof -
    obtain l where l: "l < THRESH" "l < length xs" "\<And>m. m < length xs \<Longrightarrow> cmp (ys ! l) (ys ! m) \<le> 0"
      using ys(4) by (auto simp: least_early_def)
    then have "l < hi" "cmp (ys ! l) (ys ! k) \<le> 0" using k by (auto simp: hi_def)
    with j(3) show ?thesis using cmp_trans by blast
  qed
  define zs where "zs = (if j \<noteq> 0 then ys[0 := ys ! j, j := ys ! 0] else ys)"
  have jl: "j < length ys" and ne: "0 < length ys" using hi j(2) by linarith+
  have zs: "length zs = length xs" "mset zs = mset xs" "zs ! 0 = ys ! j" "zs \<noteq> []"
    using False ne jl ys(2,3) mset_swap [of j ys 0] by (auto simp: zs_def nth_list_update)
  have "zs ! k \<in> set ys" if "k < length zs" for k using zs ys that by (metis nth_mem set_mset_mset)
  then have low: "cmp (zs ! 0) (zs ! k) \<le> 0" if "k < length zs" for k
    using that least ys(2) zs(3) by (metis in_set_conv_nth)
  have "sorted_wrt (\<lambda>x y. cmp x y \<le> 0) (take 1 zs)" by (cases zs) simp_all
  then obtain us where us: "qsort_insert cmp zs 1 (length zs) = Ok us" "mset us = mset zs" "sorted_wrt (\<lambda>x y. cmp x y \<le> 0) us"
    using qsort_insert_ok [of 1 zs] low zs(4) by (metis Suc_leI One_nat_def length_greater_0_conv zero_less_one)
  have "(if j \<noteq> 0 then rec_swap ys 0 j else Ok ys) = Ok zs" using jl ne by (simp add: zs_def)
  then have "qsort cmp xs = Some (Ok us)"
    using False ys(1) j(1) us(1) zs(1) by (simp add: qsort_def Let_def flip: hi_def)
  with us zs(2) show ?thesis by simp
qed

end

end
