(* ===== verification/Ix_Heapsort.thy ===== *)
theory Ix_Heapsort
  imports Ix_Qsort
begin

text \<open>
  Correctness of \<open>heapsort\<close> and \<open>bsearch\<close>, and the properties of sorting and searching.
\<close>

section \<open>Heapsort\<close>

text \<open>
  Heaps, with records numbered from 1: no child of a record from \<open>l\<close> on is above its parent.  \<open>heap_but\<close>
  leaves out the record \<open>i\<close>, whose children must not be above the parent of \<open>i\<close>.
\<close>

definition child :: "nat \<Rightarrow> nat \<Rightarrow> bool" where
  "child i j \<longleftrightarrow> j = i * 2 \<or> j = i * 2 + 1"

definition heap_from :: "('a \<Rightarrow> 'a \<Rightarrow> int) \<Rightarrow> nat \<Rightarrow> 'a list \<Rightarrow> nat \<Rightarrow> bool" where
  "heap_from cmp n xs l \<longleftrightarrow> (\<forall>i j. l \<le> i \<and> child i j \<and> j \<le> n \<longrightarrow> cmp (xs ! (j - 1)) (xs ! (i - 1)) \<le> 0)"

definition heap_but :: "('a \<Rightarrow> 'a \<Rightarrow> int) \<Rightarrow> nat \<Rightarrow> 'a list \<Rightarrow> nat \<Rightarrow> nat \<Rightarrow> bool" where
  "heap_but cmp n xs l i \<longleftrightarrow>
     (\<forall>k j. l \<le> k \<and> k \<noteq> i \<and> child k j \<and> j \<le> n \<longrightarrow> cmp (xs ! (j - 1)) (xs ! (k - 1)) \<le> 0) \<and>
     (\<forall>p j. l \<le> p \<and> child p i \<and> child i j \<and> j \<le> n \<longrightarrow> cmp (xs ! (j - 1)) (xs ! (p - 1)) \<le> 0)"

text \<open>The records from \<open>n\<close> on are sorted, and none of those below is above them.\<close>

definition sorted_tail :: "('a \<Rightarrow> 'a \<Rightarrow> int) \<Rightarrow> nat \<Rightarrow> 'a list \<Rightarrow> bool" where
  "sorted_tail cmp n xs \<longleftrightarrow> (\<forall>a b. a < b \<and> n \<le> b \<and> b < length xs \<longrightarrow> cmp (xs ! a) (xs ! b) \<le> 0)"

context comparator
begin

lemma heap_but_swap:
  assumes hb: "heap_but cmp n xs l i" and l: "0 < l" "l \<le> i" and n: "n \<le> length xs" and j: "child i j" "j \<le> n"
    and big: "\<And>j'. child i j' \<Longrightarrow> j' \<le> n \<Longrightarrow> cmp (xs ! (j' - 1)) (xs ! (j - 1)) \<le> 0"
    and gt: "cmp (xs ! (j - 1)) (xs ! (i - 1)) > 0"
  shows "heap_but cmp n (xs[i - 1 := xs ! (j - 1), j - 1 := xs ! (i - 1)]) l j"
proof -
  let ?ys = "xs[i - 1 := xs ! (j - 1), j - 1 := xs ! (i - 1)]"
  have ij: "i < j" "0 < i" "i - 1 < length xs" "j - 1 < length xs" using j l n by (auto simp: child_def)
  have yi: "?ys ! (i - 1) = xs ! (j - 1)" and yj: "?ys ! (j - 1) = xs ! (i - 1)" using ij by auto
  have yo: "?ys ! (k - 1) = xs ! (k - 1)" if "0 < k" "k \<noteq> i" "k \<noteq> j" for k
    using that ij by (simp add: nth_list_update)
  have one: "cmp (?ys ! (c - 1)) (?ys ! (k - 1)) \<le> 0" if k: "l \<le> k" "k \<noteq> j" "child k c" "c \<le> n" for k c
  proof -
    have c: "k < c" "0 < k" using k l by (auto simp: child_def)
    consider "k = i" "c = j" | "k = i" "c \<noteq> j" | "c = i" | "k \<noteq> i" "c \<noteq> i" by blast
    then show ?thesis
    proof cases
      case 1
      then show ?thesis using yi yj cmp_flip [OF gt] by simp
    next
      case 2
      then show ?thesis using yi yo [of c] c big k by simp
    next
      case 3
      then show ?thesis using yi yo [of k] c k j hb unfolding heap_but_def by auto
    next
      case 4
      have "c \<noteq> j" using 4 k j by (auto simp: child_def)
      then show ?thesis using yo [of k] yo [of c] c 4 k hb unfolding heap_but_def by auto
    qed
  qed
  have two: "cmp (?ys ! (c - 1)) (?ys ! (p - 1)) \<le> 0" if p: "l \<le> p" "child p j" "child j c" "c \<le> n" for p c
  proof -
    have "p = i" using p j by (auto simp: child_def)
    moreover have "j < c" "l \<le> j" using p ij l by (auto simp: child_def)
    ultimately show ?thesis using yi yo [of c] ij p hb unfolding heap_but_def by auto
  qed
  show ?thesis unfolding heap_but_def using one two by blast
qed

lemma heap_sift_step:
  assumes "i \<noteq> 0" "i * 2 \<le> n" "n \<le> length xs"
  obtains j where "child i j" "j \<le> n" "\<And>j'. child i j' \<Longrightarrow> j' \<le> n \<Longrightarrow> cmp (xs ! (j' - 1)) (xs ! (j - 1)) \<le> 0"
    "heap_sift cmp n xs i = (if cmp (xs ! (j - 1)) (xs ! (i - 1)) \<le> 0 then Ok xs
      else heap_sift cmp n (xs[i - 1 := xs ! (j - 1), j - 1 := xs ! (i - 1)]) j)"
proof -
  let ?c = "if i * 2 < n then cmp (xs ! (i * 2 - 1)) (xs ! (i * 2)) else 0"
  define j where "j = (if ?c < 0 then i * 2 + 1 else i * 2)"
  have j: "child i j" "j \<le> n" "j - 1 < length xs" "i - 1 < length xs"
    using assms by (auto simp: j_def child_def split: if_splits)
  have big: "cmp (xs ! (j' - 1)) (xs ! (j - 1)) \<le> 0" if "child i j'" "j' \<le> n" for j'
    using that cmp_refl cmp_sym [of "xs ! (i * 2)" "xs ! (i * 2 - 1)"]
    by (auto simp: child_def j_def split: if_splits)
  have c: "(if i * 2 < n then rec_cmp cmp xs (i * 2 - 1) (i * 2) else Ok 0) = Ok ?c" using assms by simp
  from assms j have "heap_sift cmp n xs i = (if cmp (xs ! (j - 1)) (xs ! (i - 1)) \<le> 0 then Ok xs
      else heap_sift cmp n (xs[i - 1 := xs ! (j - 1), j - 1 := xs ! (i - 1)]) j)"
    by (subst heap_sift.simps, unfold c exec_bind.simps Let_def j_def [symmetric]) simp
  with j big show ?thesis using that by blast
qed

lemma heap_sift_ok:
  assumes "0 < l" "l \<le> i" "n \<le> length xs" "heap_but cmp n xs l i"
  shows "\<exists>ys. heap_sift cmp n xs i = Ok ys \<and> seg_perm 0 n xs ys \<and> heap_from cmp n ys l"
  using assms
proof (induction "n - i" arbitrary: xs i rule: less_induct)
  case less
  then have i: "i \<noteq> 0" by simp
  show ?case
  proof (cases "i * 2 \<le> n")
    case False
    have "\<not> j \<le> n" if "child i j" for j using False that by (auto simp: child_def)
    then have "heap_from cmp n xs l" using less.prems(4) unfolding heap_from_def heap_but_def by metis
    moreover have "heap_sift cmp n xs i = Ok xs" using False i by (subst heap_sift.simps) auto
    ultimately show ?thesis by simp
  next
    case True
    obtain j where j: "child i j" "j \<le> n" and big: "\<And>j'. child i j' \<Longrightarrow> j' \<le> n \<Longrightarrow> cmp (xs ! (j' - 1)) (xs ! (j - 1)) \<le> 0"
      and step: "heap_sift cmp n xs i = (if cmp (xs ! (j - 1)) (xs ! (i - 1)) \<le> 0 then Ok xs
        else heap_sift cmp n (xs[i - 1 := xs ! (j - 1), j - 1 := xs ! (i - 1)]) j)"
      by (rule heap_sift_step [OF i True less.prems(3)]) blast
    show ?thesis
    proof (cases "cmp (xs ! (j - 1)) (xs ! (i - 1)) \<le> 0")
      case True
      have "heap_from cmp n xs l" unfolding heap_from_def
        using less.prems(4) big cmp_trans [OF _ True] unfolding heap_but_def by metis
      with True step show ?thesis by simp
    next
      case False
      let ?ys = "xs[i - 1 := xs ! (j - 1), j - 1 := xs ! (i - 1)]"
      have ij: "i < j" using j(1) i by (auto simp: child_def)
      have hb: "heap_but cmp n ?ys l j" using False less.prems j big by (intro heap_but_swap) auto
      have "n - j < n - i" using ij j(2) by linarith
      from less.hyps [OF this less.prems(1) _ _ hb] ij less.prems(2,3)
      obtain zs where "heap_sift cmp n ?ys j = Ok zs" "seg_perm 0 n ?ys zs" "heap_from cmp n zs l" by auto
      moreover have "seg_perm 0 n xs ?ys" using ij j less.prems by (intro seg_perm_swap) auto
      ultimately show ?thesis using False step seg_perm_trans by (metis (no_types, lifting))
    qed
  qed
qed

lemma heap_build_ok:
  assumes "n \<le> length xs" "heap_from cmp n xs (Suc l)"
  shows "\<exists>ys. heap_build cmp n xs l = Ok ys \<and> seg_perm 0 n xs ys \<and> heap_from cmp n ys 1"
  using assms
proof (induction l arbitrary: xs)
  case (Suc l)
  have "\<not> child p (Suc l)" if "Suc l \<le> p" for p using that by (auto simp: child_def)
  then have "heap_but cmp n xs (Suc l) (Suc l)" using Suc.prems(2) unfolding heap_but_def heap_from_def
    by (metis Suc_leI le_neq_implies_less)
  then obtain ys where ys: "heap_sift cmp n xs (Suc l) = Ok ys" "seg_perm 0 n xs ys" "heap_from cmp n ys (Suc l)"
    using heap_sift_ok [of "Suc l" "Suc l" n xs] Suc.prems by auto
  then obtain zs where "heap_build cmp n ys l = Ok zs" "seg_perm 0 n ys zs" "heap_from cmp n zs 1"
    using Suc.IH [of ys] Suc.prems seg_perm_length [OF ys(2)] by auto
  then show ?case using ys seg_perm_trans by auto
qed simp

lemma heap_top: "heap_from cmp n xs 1 \<Longrightarrow> 0 < i \<Longrightarrow> i \<le> n \<Longrightarrow> cmp (xs ! (i - 1)) (xs ! 0) \<le> 0"
proof (induction i rule: less_induct)
  case (less i)
  show ?case
  proof (cases "i = 1")
    case False
    have "child (i div 2) i" by (auto simp: child_def)
    moreover have "1 \<le> i div 2" using False less.prems by auto
    ultimately have "cmp (xs ! (i - 1)) (xs ! (i div 2 - 1)) \<le> 0" using less.prems by (auto simp: heap_from_def)
    moreover have "cmp (xs ! (i div 2 - 1)) (xs ! 0) \<le> 0" using less False by auto
    ultimately show ?thesis by (rule cmp_trans)
  qed (simp add: cmp_refl)
qed

lemma sorted_tail_step:
  assumes t: "sorted_tail cmp n xs" and n: "1 < n" "n \<le> length xs" and h: "heap_from cmp n xs 1"
    and ys: "ys = xs[0 := xs ! (n - 1), n - 1 := xs ! 0]" and zs: "seg_perm 0 (n - 1) ys zs"
  shows "sorted_tail cmp (n - 1) zs"
proof -
  have ly: "length ys = length xs" and lz: "length zs = length xs" using ys seg_perm_length [OF zs] by auto
  have out: "zs ! k = ys ! k" if "n - 1 \<le> k" "k < length xs" for k
    using seg_perm_outside [OF zs] that ly by auto
  have lastz: "zs ! (n - 1) = xs ! 0" using out [of "n - 1"] n ys by simp
  have rest: "zs ! k = xs ! k" if "n \<le> k" "k < length xs" for k
    using out [of k] that n ys by (simp add: nth_list_update)
  have below: "\<exists>k'. k' < n \<and> zs ! k = xs ! k'" if k: "k < n - 1" for k
  proof -
    obtain k' where "k' < n - 1" "zs ! k = ys ! k'" by (rule seg_perm_inside [OF zs _ _ k]) (use n ly in auto)
    moreover have "0 < length xs" using n by linarith
    moreover from calculation n ys have "ys ! k' = xs ! (if k' = 0 then n - 1 else k')" by (auto simp: nth_list_update)
    ultimately show ?thesis using n by (intro exI [of _ "if k' = 0 then n - 1 else k'"]) auto
  qed
  have low: "\<exists>k'. k' < n \<and> zs ! k = xs ! k'" if "k < n" for k
    using that below [of k] lastz n by (cases "k = n - 1") (auto intro: exI [of _ 0])
  show ?thesis unfolding sorted_tail_def lz
  proof (intro allI impI, elim conjE)
    fix a b assume ab: "a < b" "n - 1 \<le> b" "b < length xs"
    show "cmp (zs ! a) (zs ! b) \<le> 0"
    proof (cases "b = n - 1")
      case True
      then obtain k' where "k' < n" "zs ! a = xs ! k'" using below ab by blast
      then show ?thesis using True lastz heap_top [OF h, of "k' + 1"] by auto
    next
      case False
      then have b: "n \<le> b" using ab n by simp
      show ?thesis
      proof (cases "a < n")
        case True
        then obtain k' where "k' < n" "zs ! a = xs ! k'" using low by blast
        then show ?thesis using b ab t rest [of b] unfolding sorted_tail_def by auto
      next
        case False
        then show ?thesis using b ab t rest unfolding sorted_tail_def by auto
      qed
    qed
  qed
qed

lemma heap_but_top:
  assumes h: "heap_from cmp n xs 1" and eq: "\<And>k. 1 < k \<Longrightarrow> k < n \<Longrightarrow> ys ! (k - 1) = xs ! (k - 1)"
  shows "heap_but cmp (n - 1) ys 1 1"
  unfolding heap_but_def
proof (intro conjI allI impI; elim conjE)
  fix k j assume k: "1 \<le> k" "k \<noteq> 1" "child k j" "j \<le> n - 1"
  then have "1 < k" "k < j" "j < n" by (auto simp: child_def)
  then show "cmp (ys ! (j - 1)) (ys ! (k - 1)) \<le> 0" using h k eq [of k] eq [of j] unfolding heap_from_def by auto
next
  fix p j assume "1 \<le> p" "child p 1"
  then show "cmp (ys ! (j - 1)) (ys ! (p - 1)) \<le> 0" by (auto simp: child_def)
qed

lemma heap_unload_ok:
  assumes "n \<le> length xs" "heap_from cmp n xs 1" "sorted_tail cmp n xs"
  shows "\<exists>ys. heap_unload cmp n xs = Ok ys \<and> mset ys = mset xs \<and> sorted_wrt (\<lambda>x y. cmp x y \<le> 0) ys"
  using assms
proof (induction n arbitrary: xs rule: less_induct)
  case (less n)
  show ?case
  proof (cases "1 < n")
    case False
    then have "sorted_wrt (\<lambda>x y. cmp x y \<le> 0) xs"
      using less.prems(3) unfolding sorted_wrt_iff_nth_less sorted_tail_def by auto
    moreover have "heap_unload cmp n xs = Ok xs" using False by (subst heap_unload.simps) simp
    ultimately show ?thesis by simp
  next
    case True
    define ys where "ys = xs[0 := xs ! (n - 1), n - 1 := xs ! 0]"
    have len: "n - 1 < length xs" "0 < length xs" using True less.prems(1) by linarith+
    have y: "rec_swap xs 0 (n - 1) = Ok ys" "length ys = length xs" "mset ys = mset xs"
      using len mset_swap [of "n - 1" xs 0] by (auto simp: ys_def)
    have "heap_but cmp (n - 1) ys 1 1"
      by (rule heap_but_top [OF less.prems(2)]) (simp add: ys_def nth_list_update)
    then obtain zs where z: "heap_sift cmp (n - 1) ys 1 = Ok zs" "seg_perm 0 (n - 1) ys zs" "heap_from cmp (n - 1) zs 1"
      using heap_sift_ok [of 1 1 "n - 1" ys] len(1) y(2) by auto
    have lz: "length zs = length xs" "mset zs = mset xs" using z(2) y by (auto simp: seg_perm_def)
    have "sorted_tail cmp (n - 1) zs"
      by (rule sorted_tail_step [OF less.prems(3) True less.prems(1,2) ys_def z(2)])
    then have "\<exists>us. heap_unload cmp (n - 1) zs = Ok us \<and> mset us = mset zs \<and> sorted_wrt (\<lambda>x y. cmp x y \<le> 0) us"
      using True less.prems(1) lz z(3) by (intro less.IH) auto
    then show ?thesis using True y(1) z(1) lz by (subst heap_unload.simps) simp
  qed
qed

lemma heapsort_ok:
  assumes "0 < sz"
  shows "\<exists>ys. heapsort cmp sz xs = Ok (0, None, ys) \<and> mset ys = mset xs \<and> sorted_wrt (\<lambda>x y. cmp x y \<le> 0) ys"
proof (cases "length xs \<le> 1")
  case True
  then show ?thesis by (cases xs) (auto simp: heapsort_def)
next
  case False
  have "heap_from cmp (length xs) xs (Suc (length xs div 2))" by (auto simp: heap_from_def child_def)
  then obtain ys where ys: "heap_build cmp (length xs) xs (length xs div 2) = Ok ys" "seg_perm 0 (length xs) xs ys"
    "heap_from cmp (length xs) ys 1"
    using heap_build_ok [of "length xs" xs] by auto
  then have "length ys = length xs" "mset ys = mset xs" "sorted_tail cmp (length ys) ys"
    by (auto simp: seg_perm_def sorted_tail_def)
  then show ?thesis using False assms ys heap_unload_ok [of "length ys" ys] by (auto simp: heapsort_def)
qed

section \<open>Binary search\<close>

lemma bsearch_loop_ok:
  assumes "sorted_wrt (\<lambda>x y. cmp x y \<le> 0) xs" "base + lim \<le> length xs"
    "\<And>k. k < base \<Longrightarrow> cmp key (xs ! k) > 0" "\<And>k. base + lim \<le> k \<Longrightarrow> k < length xs \<Longrightarrow> cmp key (xs ! k) < 0"
  shows "\<exists>r. bsearch_loop (cmp key) xs base lim = Ok r \<and>
    (case r of Some p \<Rightarrow> p < length xs \<and> cmp key (xs ! p) = 0 | None \<Rightarrow> \<forall>x \<in> set xs. cmp key x \<noteq> 0)"
  using assms
proof (induction lim arbitrary: base rule: less_induct)
  case (less lim)
  define p where "p = base + lim div 2"
  have le: "cmp (xs ! a) (xs ! b) \<le> 0" if "a < b" "b < length xs" for a b
    using sorted_wrt_nth_less [OF less.prems(1) that] .
  have flip: "cmp y x > 0 \<longleftrightarrow> cmp x y < 0" for x y using cmp_sym by blast
  consider (none) "lim = 0" | (hit) "0 < lim" "cmp key (xs ! p) = 0" | (right) "0 < lim" "cmp key (xs ! p) > 0"
    | (left) "0 < lim" "cmp key (xs ! p) < 0" by linarith
  moreover have pl: "p < length xs" if "0 < lim" using that less.prems(2) by (simp add: p_def)
  ultimately show ?case
  proof cases
    case none
    have "cmp key (xs ! k) \<noteq> 0" if "k < length xs" for k
      using less.prems(3) [of k] less.prems(4) [of k] none that by (cases "k < base") auto
    then have "\<forall>x \<in> set xs. cmp key x \<noteq> 0" by (metis in_set_conv_nth)
    with none show ?thesis by (subst bsearch_loop.simps) simp
  next
    case hit
    then show ?thesis using pl by (subst bsearch_loop.simps) (simp add: Let_def flip: p_def)
  next
    case right
    have low: "cmp key (xs ! k) > 0" if "k < p + 1" for k
    proof (rule ccontr)
      assume "\<not> cmp key (xs ! k) > 0"
      moreover have "k = p \<or> cmp (xs ! k) (xs ! p) \<le> 0" using le [of k p] that right pl by (cases "k = p") auto
      ultimately show False using right cmp_trans [of key "xs ! k" "xs ! p"] by auto
    qed
    have top: "p + 1 + (lim - 1) div 2 = base + lim" "(lim - 1) div 2 < lim" using right by (simp_all add: p_def)
    have "bsearch_loop (cmp key) xs base lim = bsearch_loop (cmp key) xs (p + 1) ((lim - 1) div 2)"
      using right pl by (subst bsearch_loop.simps) (simp add: Let_def flip: p_def)
    then show ?thesis by (simp only:) (rule less.IH [OF top(2) less.prems(1)], use top less.prems low in auto)
  next
    case left
    have high: "cmp key (xs ! k) < 0" if "p \<le> k" "k < length xs" for k
    proof (rule ccontr)
      assume "\<not> cmp key (xs ! k) < 0"
      then have "cmp (xs ! k) key \<le> 0" using flip [of "xs ! k" key] by auto
      moreover have "k = p \<or> cmp (xs ! p) (xs ! k) \<le> 0" using le [of p k] that by (cases "k = p") auto
      ultimately have "cmp (xs ! p) key \<le> 0" using cmp_trans by blast
      then show False using left flip [of "xs ! p" key] by auto
    qed
    have half: "lim div 2 < lim" "base + lim div 2 \<le> length xs" using left less.prems(2) by auto
    have "bsearch_loop (cmp key) xs base lim = bsearch_loop (cmp key) xs base (lim div 2)"
      using left pl by (subst bsearch_loop.simps) (simp add: Let_def flip: p_def)
    then show ?thesis by (simp only:) (rule less.IH [OF half(1) less.prems(1)], use half less.prems high p_def in auto)
  qed
qed

end

section \<open>Properties\<close>

text \<open>A comparison function that is zero for equal records only leaves one way to sort an array.\<close>

locale strict_comparator = comparator +
  assumes cmp_eq: "cmp x y = 0 \<Longrightarrow> x = y"
begin

lemma cmp_antisym: "cmp x y \<le> 0 \<Longrightarrow> cmp y x \<le> 0 \<Longrightarrow> x = y"
  using cmp_sym [of x y] cmp_sym [of y x] cmp_eq [of x y] by linarith

lemma sorted_unique:
  "sorted_wrt (\<lambda>x y. cmp x y \<le> 0) xs \<Longrightarrow> sorted_wrt (\<lambda>x y. cmp x y \<le> 0) ys \<Longrightarrow> mset xs = mset ys \<Longrightarrow> xs = ys"
proof (induction xs arbitrary: ys)
  case (Cons x xs)
  then obtain y ys' where ys: "ys = y # ys'" by (cases ys) auto
  have "y \<in> set (x # xs)" "x \<in> set (y # ys')" using Cons.prems(3) ys by (metis list.set_intros(1) set_mset_mset)+
  then have "x = y" using Cons.prems(1,2) ys cmp_antisym by auto
  with Cons ys show ?case by simp
qed simp

end

text \<open>
  C7. \<open>qsort\<close> on any array, with a consistent comparison function, returns; the array is then a sorted
  permutation of what it was, and no access was outside it.
\<close>

theorem qsort_sorts:
  assumes "comparator cmp"
  shows "\<exists>ys. qsort cmp xs = Some (Ok ys) \<and> mset ys = mset xs \<and> sorted_wrt (\<lambda>x y. cmp x y \<le> 0) ys"
  using assms by (rule comparator.qsort_ok)

lemma int_comparator: "strict_comparator (\<lambda>x y :: int. x - y)"
  by unfold_locales auto

theorem qsort_sorts_witness:
  "qsort (\<lambda>x y. x - y) [5, 3, 1, 2 :: int] = Some (Ok [1, 2, 3, 5]) \<and>
   (\<exists>ys. qsort (\<lambda>x y. x - y) [5, 3, 1, 2 :: int] = Some (Ok ys) \<and>
      mset ys = mset [5, 3, 1, 2] \<and> sorted_wrt (\<lambda>x y. x - y \<le> 0) ys)"
proof
  show "qsort (\<lambda>x y. x - y) [5, 3, 1, 2 :: int] = Some (Ok [1, 2, 3, 5])" by code_simp
qed (rule qsort_sorts [OF strict_comparator.axioms(1) [OF int_comparator]])

text \<open>
  C26. \<open>qsort\<close> and \<open>heapsort\<close> are interchangeable: when only equal records compare as equal, both
  leave the same array.
\<close>

theorem qsort_heapsort:
  assumes "strict_comparator cmp" and "0 < sz"
  shows "qsort cmp xs = Some (Ok ys) \<longleftrightarrow> heapsort cmp sz xs = Ok (0, None, ys)"
proof -
  note cmp = strict_comparator.axioms(1) [OF assms(1)]
  show ?thesis
    using comparator.qsort_ok [OF cmp, of xs] comparator.heapsort_ok [OF cmp assms(2), of xs]
      strict_comparator.sorted_unique [OF assms(1)] by auto
qed

theorem qsort_heapsort_witness:
  "heapsort (\<lambda>x y. x - y) 4 [5, 3, 1, 2 :: int] = Ok (0, None, [1, 2, 3, 5]) \<and>
   qsort (\<lambda>x y. x - y) [5, 3, 1, 2 :: int] = Some (Ok [1, 2, 3, 5])"
proof -
  have "heapsort (\<lambda>x y. x - y) 4 [5, 3, 1, 2 :: int] = Ok (0, None, [1, 2, 3, 5])" by code_simp
  then show ?thesis using qsort_heapsort [OF int_comparator, of 4] by simp
qed

text \<open>
  \<open>bsearch\<close> on the array \<open>qsort\<close> leaves returns and stays within the array; it finds a record equal to the key,
  and when it returns the null pointer there was no such record in the array before.
\<close>

theorem qsort_bsearch:
  assumes "comparator cmp"
  shows "\<exists>ys r. qsort cmp xs = Some (Ok ys) \<and> bsearch (cmp key) ys = Ok r \<and>
    (case r of Some p \<Rightarrow> p < length xs \<and> ys ! p \<in> set xs \<and> cmp key (ys ! p) = 0 | None \<Rightarrow> \<forall>x \<in> set xs. cmp key x \<noteq> 0)"
proof -
  obtain ys where ys: "qsort cmp xs = Some (Ok ys)" "mset ys = mset xs" "sorted_wrt (\<lambda>x y. cmp x y \<le> 0) ys"
    using comparator.qsort_ok [OF assms, of xs] by blast
  have same: "length ys = length xs" "set ys = set xs" using mset_eq_length [OF ys(2)] mset_eq_setD [OF ys(2)] by simp_all
  have "\<exists>r. bsearch (cmp key) ys = Ok r \<and>
    (case r of Some p \<Rightarrow> p < length ys \<and> cmp key (ys ! p) = 0 | None \<Rightarrow> \<forall>x \<in> set ys. cmp key x \<noteq> 0)"
    unfolding bsearch_def by (rule comparator.bsearch_loop_ok [OF assms ys(3)]) simp_all
  then obtain r where r: "bsearch (cmp key) ys = Ok r"
    "case r of Some p \<Rightarrow> p < length ys \<and> cmp key (ys ! p) = 0 | None \<Rightarrow> \<forall>x \<in> set ys. cmp key x \<noteq> 0" by blast
  have "case r of Some p \<Rightarrow> p < length xs \<and> ys ! p \<in> set xs \<and> cmp key (ys ! p) = 0 | None \<Rightarrow> \<forall>x \<in> set xs. cmp key x \<noteq> 0"
    using r(2) same nth_mem [of _ ys] by (cases r) (simp_all only: option.case)
  with ys(1) r(1) show ?thesis by blast
qed

theorem qsort_bsearch_witness:
  "bsearch (\<lambda>y. 3 - y) [1, 2, 3, 5 :: int] = Ok (Some 2) \<and>
   (\<exists>ys r. qsort (\<lambda>x y. x - y) [5, 3, 1, 2 :: int] = Some (Ok ys) \<and> bsearch (\<lambda>y. 3 - y) ys = Ok r \<and>
     (case r of
        Some p \<Rightarrow> p < length [5, 3, 1, 2 :: int] \<and> ys ! p \<in> set [5, 3, 1, 2] \<and> 3 - ys ! p = 0
      | None \<Rightarrow> \<forall>x \<in> set [5, 3, 1, 2 :: int]. 3 - x \<noteq> 0))"
proof
  show "bsearch (\<lambda>y. 3 - y) [1, 2, 3, 5 :: int] = Ok (Some 2)" by code_simp
qed (rule qsort_bsearch [OF strict_comparator.axioms(1) [OF int_comparator], of "[5, 3, 1, 2]" 3])

end
