(* ===== verification/Ix_Cstring_Props.thy ===== *)
theory Ix_Cstring_Props
  imports Ix_Cstring Ix_Heapsort
begin

text \<open>
  Correctness of the string functions, and the comparison of strings as a comparison function for
  \<open>qsort\<close>: the C version of \<open>strcmp\<close> is consistent, the one in assembly is not.
\<close>

section \<open>Terminated strings\<close>

lemma cstr_simps [simp]: "cstr [] = []" "cstr (c # s) = (if c = 0 then [] else c # cstr s)"
  by (simp_all add: cstr_def)

lemma cstr_nonzero [simp]: "0 \<notin> set (cstr s)"
  by (induction s) auto

lemma cstr_append0 [simp]: "cstr (s @ 0 # t) = cstr s"
  by (induction s) auto

lemma strlen_loop_ok: "0 \<in> set s \<Longrightarrow> strlen_loop s n = Ok (n + length (cstr s))"
  by (induction s arbitrary: n) auto

lemma strlen_ok [simp]: "0 \<in> set s \<Longrightarrow> strlen (Some s) = Ok (length (cstr s))"
  by (simp add: strlen_def strlen_loop_ok)

lemma span_to_ok [simp]: "0 \<in> set d \<Longrightarrow> span_to d c = Ok (c = 0 \<or> c \<in> set (cstr d))"
  by (induction d) auto

lemma span_in_ok [simp]: "0 \<in> set d \<Longrightarrow> span_in d c = Ok (c \<in> set (cstr d))"
  by (induction d) auto

section \<open>Comparison\<close>

text \<open>The order of the first characters that differ, as unsigned numbers; a proper prefix comes first.\<close>

fun lexcmp :: "u8 list \<Rightarrow> u8 list \<Rightarrow> int" where
  "lexcmp [] [] = 0"
| "lexcmp [] (b # t) = - uint b"
| "lexcmp (a # s) [] = uint a"
| "lexcmp (a # s) (b # t) = (if a = b then lexcmp s t else uint a - uint b)"

lemma byte_lt: "uint (a :: u8) < 256"
  by (rule uint_lt2p [THEN order_less_le_trans]) simp

lemma byte_sub: "sint ((ucast (a :: u8) :: u32) - ucast (b :: u8)) = uint a - uint b"
proof -
  have "uint a < 256" "uint b < 256" "0 \<le> uint a" "0 \<le> uint b" by (simp_all add: byte_lt)
  then have "- 256 < uint a - uint b" "uint a - uint b < 256" by linarith+
  then have "s32 (uint a - uint b) = uint a - uint b" by (intro s32_id) auto
  moreover have "(ucast a :: u32) - ucast b = word_of_int (uint a - uint b)"
    by (simp only: ucast_eq wi_hom_sub)
  ultimately show ?thesis by (metis s32_def)
qed

lemma byte_sub_0: "(ucast (a :: u8) :: u32) - ucast (b :: u8) = 0 \<longleftrightarrow> a = b"
  using byte_sub [of a b] by (metis eq_iff_diff_eq_0 signed_0 word_eq_iff_unsigned)

lemma strcmp_c_step: "strcmp_c (a # s) (b # t) = (if a = b \<and> b \<noteq> 0 then strcmp_c s t else Ok (uint a - uint b))"
  unfolding strcmp_c.simps Let_def byte_sub byte_sub_0 ..

declare strcmp_c.simps (1) [simp del]

lemma strcmp_c_ok: "0 \<in> set s \<Longrightarrow> 0 \<in> set t \<Longrightarrow> strcmp_c s t = Ok (lexcmp (cstr s) (cstr t))"
  by (induction s t rule: strcmp_c.induct) (auto simp: strcmp_c_step)

lemma lexcmp_flip: "lexcmp t s = - lexcmp s t"
  by (induction s t rule: lexcmp.induct) auto

lemma lexcmp_eq: "0 \<notin> set s \<Longrightarrow> 0 \<notin> set t \<Longrightarrow> lexcmp s t = 0 \<Longrightarrow> s = t"
  by (induction s t rule: lexcmp.induct) (auto split: if_splits simp: word_uint_eq_iff)

lemma lexcmp_trans:
  "0 \<notin> set s \<Longrightarrow> 0 \<notin> set t \<Longrightarrow> 0 \<notin> set u \<Longrightarrow> lexcmp s t \<le> 0 \<Longrightarrow> lexcmp t u \<le> 0 \<Longrightarrow> lexcmp s u \<le> 0"
proof (induction s t arbitrary: u rule: lexcmp.induct)
  case (2 b t)
  then show ?case by (cases u) auto
next
  case (4 a s b t)
  then show ?case by (cases u) (auto split: if_splits simp: word_uint_eq_iff)
next
  case (3 a s)
  then have "uint a \<le> 0" by simp
  then have "a = 0" by (simp add: word_uint_eq_iff order_antisym)
  with 3 show ?case by simp
next
  case 1
  then show ?case by simp
qed

text \<open>A comparison of strings as a comparison function for names: the strings are the names and a null character.\<close>

definition name_cmp :: "(u8 list \<Rightarrow> u8 list \<Rightarrow> int exec) \<Rightarrow> u8 list \<Rightarrow> u8 list \<Rightarrow> int" where
  "name_cmp f s t = (case f (s @ [0]) (t @ [0]) of Ok r \<Rightarrow> r | Panic m \<Rightarrow> 0 | Wild \<Rightarrow> 0)"

lemma name_cmp_c: "name_cmp strcmp_c s t = lexcmp (cstr s) (cstr t)"
  by (simp add: name_cmp_def strcmp_c_ok)

interpretation sc: comparator "name_cmp strcmp_c"
proof
  fix x y z
  show "(0 < name_cmp strcmp_c x y) = (name_cmp strcmp_c y x < 0)"
    using lexcmp_flip [of "cstr x" "cstr y"] by (simp add: name_cmp_c)
  show "name_cmp strcmp_c x y \<le> 0 \<Longrightarrow> name_cmp strcmp_c y z \<le> 0 \<Longrightarrow> name_cmp strcmp_c x z \<le> 0"
    using lexcmp_trans [of "cstr x" "cstr y" "cstr z"] by (simp add: name_cmp_c)
qed

text \<open>Strings without null characters; on them \<open>strcmp_c\<close> is zero for equal strings only.\<close>

typedef cstring = "{s :: u8 list. 0 \<notin> set s}" morphisms chars cstring
  by (rule exI [of _ "[]"]) simp

lemma cstr_chars [simp]: "cstr (chars s) = chars s"
  using chars [of s] by (auto simp: cstr_def takeWhile_eq_all_conv)

definition cstring_cmp :: "cstring \<Rightarrow> cstring \<Rightarrow> int" where
  "cstring_cmp s t = name_cmp strcmp_c (chars s) (chars t)"

interpretation st: strict_comparator cstring_cmp
proof
  fix x y z
  show "(0 < cstring_cmp x y) = (cstring_cmp y x < 0)" unfolding cstring_cmp_def by (rule sc.cmp_sym)
  show "cstring_cmp x y \<le> 0 \<Longrightarrow> cstring_cmp y z \<le> 0 \<Longrightarrow> cstring_cmp x z \<le> 0"
    unfolding cstring_cmp_def by (rule sc.cmp_trans)
  show "cstring_cmp x y = 0 \<Longrightarrow> x = y"
    using lexcmp_eq [of "chars x" "chars y"] chars [of x] chars [of y]
    by (simp add: cstring_cmp_def name_cmp_c chars_inject)
qed

lemma s8_id: "- 128 \<le> x \<Longrightarrow> x < 128 \<Longrightarrow> sint (word_of_int x :: u8) = x"
  by (simp add: signed_take_bit_int_eq_self sint_sbintrunc')

text \<open>
  On strings of 7-bit characters the assembly version of \<open>strcmp\<close> returns the same value as the C version.
\<close>

theorem strcmp_7bit:
  assumes "0 \<in> set s" and "0 \<in> set t" and "\<forall>c \<in> set (cstr s) \<union> set (cstr t). c < 128"
  shows "strcmp s t = strcmp_c s t"
proof -
  have small: "sint (a - b) = uint a - uint b" if "a < 128" "b < 128" for a b :: u8
  proof -
    have "uint a < 128" "uint b < 128" "0 \<le> uint a" "0 \<le> uint b" using that by (simp_all add: word_less_def)
    then have "sint (word_of_int (uint a - uint b) :: u8) = uint a - uint b" by (intro s8_id; linarith)
    then show ?thesis by simp
  qed
  show ?thesis using assms
    by (induction s t rule: strcmp.induct) (auto simp: strcmp_c_step small small [of _ 0, simplified] small [of 0, simplified] split: if_splits)
qed

theorem strcmp_7bit_witness: "strcmp [97, 98, 0] [97, 99, 0] = Ok (- 1) \<and> strcmp [97, 98, 0] [97, 99, 0] = strcmp_c [97, 98, 0] [97, 99, 0]"
proof
  show "strcmp [97, 98, 0] [97, 99, 0] = Ok (- 1)" by code_simp
qed (rule strcmp_7bit; simp)

section \<open>Searching\<close>

lemma strncmp_loop_prefix:
  "0 \<in> set s \<Longrightarrow> 0 \<in> set t \<Longrightarrow> n = length (cstr t) \<Longrightarrow> 0 < n \<Longrightarrow>
    \<exists>r. strncmp_loop s t n = Ok r \<and> (r = 0 \<longleftrightarrow> prefix (cstr t) (cstr s))"
proof (induction s t n rule: strncmp_loop.induct)
  case (1 a s b t n)
  show ?case
  proof (cases "a = b")
    case False
    then have "sint (a - b) \<noteq> 0" by (metis right_minus_eq signed_eq_0_iff)
    with False 1 show ?thesis by auto
  next
    case True
    show ?thesis
    proof (cases "n - 1 = 0")
      case True
      with 1 \<open>a = b\<close> show ?thesis by (auto split: if_splits)
    next
      case False
      with 1 \<open>a = b\<close> show ?thesis by (auto split: if_splits)
    qed
  qed
qed auto

lemma strncmp_prefix:
  assumes "0 \<in> set s" "0 \<in> set t"
  shows "\<exists>r. strncmp s t (length (cstr t)) = Ok r \<and> (r = 0 \<longleftrightarrow> prefix (cstr t) (cstr s))"
  using strncmp_loop_prefix [OF assms refl] by (cases "cstr t") (auto simp: strncmp_def)

text \<open>The first place, counted from \<open>n\<close>, where \<open>p\<close> occurs in \<open>s\<close>.\<close>

fun first_at :: "u8 list \<Rightarrow> u8 list \<Rightarrow> nat \<Rightarrow> nat option" where
  "first_at p s n = (if prefix p s then Some n else case s of [] \<Rightarrow> None | c # s' \<Rightarrow> first_at p s' (n + 1))"

declare first_at.simps [simp del]

lemma strstr_loop_ok:
  assumes "0 \<in> set s" "0 \<in> set p" "c \<noteq> 0"
  shows "strstr_loop c p (length (cstr p)) s n = Ok (first_at (c # cstr p) (cstr s) n)"
  using assms(1)
proof (induction s arbitrary: n)
  case (Cons sc s)
  show ?case
  proof (cases "sc = 0")
    case True
    then show ?thesis by (subst first_at.simps) simp
  next
    case False
    with Cons.prems have s: "0 \<in> set s" by auto
    obtain r where "strncmp s p (length (cstr p)) = Ok r" "r = 0 \<longleftrightarrow> prefix (cstr p) (cstr s)"
      using strncmp_prefix [OF s assms(2)] by blast
    with False Cons.IH [OF s] show ?thesis by (subst first_at.simps) auto
  qed
qed simp

lemma first_at_spec:
  "first_at p s n = Some k \<longleftrightarrow> n \<le> k \<and> k \<le> n + length s \<and> prefix p (drop (k - n) s) \<and> (\<forall>j < k - n. \<not> prefix p (drop j s))"
proof (induction p s n arbitrary: k rule: first_at.induct)
  case (1 p s n)
  show ?case
  proof (cases "prefix p s")
    case True
    then have "first_at p s n = Some n" by (subst first_at.simps) simp
    moreover have "(\<forall>j < k - n. \<not> prefix p (drop j s)) \<longleftrightarrow> k \<le> n" using True by (metis drop0 diff_is_0_eq not_less_zero zero_less_diff linorder_not_less)
    ultimately show ?thesis using True by auto
  next
    case False
    show ?thesis
    proof (cases s)
      case Nil
      with False show ?thesis by (subst first_at.simps) auto
    next
      case (Cons c s')
      have "first_at p s n = first_at p s' (n + 1)" using False Cons by (subst first_at.simps) simp
      also have "\<dots> = Some k \<longleftrightarrow> n + 1 \<le> k \<and> k \<le> n + 1 + length s' \<and> prefix p (drop (k - (n + 1)) s') \<and>
        (\<forall>j < k - (n + 1). \<not> prefix p (drop j s'))" by (rule "1.IH" [OF False Cons])
      also have "\<dots> \<longleftrightarrow> n \<le> k \<and> k \<le> n + length s \<and> prefix p (drop (k - n) s) \<and> (\<forall>j < k - n. \<not> prefix p (drop j s))"
      proof (cases "n + 1 \<le> k")
        case True
        then have "k - n = Suc (k - (n + 1))" by simp
        then show ?thesis using True False Cons by (auto simp: All_less_Suc2)
      next
        case no: False
        then show ?thesis using False Cons by (auto simp: not_less_eq_eq dest: order_antisym)
      qed
      finally show ?thesis .
    qed
  qed
qed

lemma first_at_None: "first_at p s n = None \<longleftrightarrow> \<not> sublist p s"
proof (induction p s n rule: first_at.induct)
  case (1 p s n)
  then show ?case by (subst first_at.simps) (cases s; auto simp: sublist_Cons_right)
qed

text \<open>
  C40. \<open>strstr\<close> on terminated strings returns the first place at which the string \<open>fnd\<close> occurs in the string \<open>s\<close>,
  and the null pointer when there is none; it reads no byte behind the terminating characters.
\<close>

theorem strstr_first:
  assumes "0 \<in> set s" and "0 \<in> set fnd"
  shows "\<exists>r. strstr s fnd = Ok r \<and>
    (case r of
       Some k \<Rightarrow> prefix (cstr fnd) (drop k (cstr s)) \<and> (\<forall>j < k. \<not> prefix (cstr fnd) (drop j (cstr s)))
     | None \<Rightarrow> \<not> sublist (cstr fnd) (cstr s))"
proof (cases fnd)
  case Nil
  with assms show ?thesis by simp
next
  case (Cons c p)
  have e: "strstr s fnd = Ok (first_at (cstr fnd) (cstr s) 0)"
  proof (cases "c = 0")
    case True
    then show ?thesis using Cons by (subst first_at.simps) simp
  next
    case False
    then show ?thesis using Cons assms strstr_loop_ok [of s p c 0] by simp
  qed
  show ?thesis
  proof (cases "first_at (cstr fnd) (cstr s) 0")
    case None
    with e show ?thesis by (simp add: first_at_None)
  next
    case (Some k)
    then show ?thesis using e first_at_spec [of "cstr fnd" "cstr s" 0 k] by simp
  qed
qed

theorem strstr_first_witness:
  "strstr [97, 98, 97, 99, 0] [97, 99, 0] = Ok (Some 2) \<and>
   (\<exists>r. strstr [97, 98, 97, 99, 0] [97, 99, 0] = Ok r \<and>
     (case r of
        Some k \<Rightarrow> prefix (cstr [97, 99, 0]) (drop k (cstr [97, 98, 97, 99, 0])) \<and>
          (\<forall>j < k. \<not> prefix (cstr [97, 99, 0]) (drop j (cstr [97, 98, 97, 99, 0])))
      | None \<Rightarrow> \<not> sublist (cstr [97, 99, 0]) (cstr [97, 98, 97, 99, 0])))"
proof
  show "strstr [97, 98, 97, 99, 0] [97, 99, 0] = Ok (Some 2)" by code_simp
qed (rule strstr_first; simp)

end
