(* ===== verification/Ix_Tokens.thy ===== *)
theory Ix_Tokens
  imports Ix_Cstring_Props
begin

text \<open>
  Correctness of \<open>strtok\<close> and \<open>strsep\<close>, which take a string apart in place, and of \<open>strlcpy\<close> and \<open>strlcat\<close>, which
  write to a buffer of given size.
\<close>

section \<open>Splitting a string\<close>

text \<open>The maximal runs of characters that are not delimiters, and the fields between delimiters.\<close>

function words_of :: "('a \<Rightarrow> bool) \<Rightarrow> 'a list \<Rightarrow> 'a list list" where
  "words_of P s =
     (let r = dropWhile P s in
      if r = [] then [] else takeWhile (\<lambda>c. \<not> P c) r # words_of P (dropWhile (\<lambda>c. \<not> P c) r))"
  by pat_completeness auto
termination
proof (relation "measure (\<lambda>(P, s). length s)")
  fix P :: "'a \<Rightarrow> bool" and s r
  assume r: "r = dropWhile P s" "r \<noteq> []"
  then have "\<not> P (hd r)" by (simp add: hd_dropWhile)
  then have "length (dropWhile (\<lambda>c. \<not> P c) r) < length r"
    using r(2) by (cases r) (auto simp: length_dropWhile_le less_Suc_eq_le)
  also have "\<dots> \<le> length s" using r(1) by (simp add: length_dropWhile_le)
  finally show "((P, dropWhile (\<lambda>c. \<not> P c) r), P, s) \<in> measure (\<lambda>(P, s). length s)" by simp
qed simp

function fields_of :: "('a \<Rightarrow> bool) \<Rightarrow> 'a list \<Rightarrow> 'a list list" where
  "fields_of P s =
     (let r = dropWhile (\<lambda>c. \<not> P c) s in
      takeWhile (\<lambda>c. \<not> P c) s # (if r = [] then [] else fields_of P (tl r)))"
  by pat_completeness auto
termination
proof (relation "measure (\<lambda>(P, s). length s)")
  fix P :: "'a \<Rightarrow> bool" and s r
  assume r: "r = dropWhile (\<lambda>c. \<not> P c) s" "r \<noteq> []"
  then have "length (tl r) < length r" by simp
  also have "\<dots> \<le> length s" using r(1) by (simp add: length_dropWhile_le)
  finally show "((P, tl r), P, s) \<in> measure (\<lambda>(P, s). length s)" by simp
qed simp

declare words_of.simps [simp del] fields_of.simps [simp del]

abbreviation delims :: "u8 list \<Rightarrow> u8 \<Rightarrow> bool" where
  "delims d c \<equiv> c \<in> set (cstr d)"

section \<open>One call\<close>

lemma rd_drop: "drop s m = c # t \<Longrightarrow> rd m s = Ok c \<and> drop (s + 1) m = t"
  by (metis Cons_nth_drop_Suc Suc_eq_plus1 drop_all leI list.inject list.distinct(1) rd_def)

lemma at0: "0 \<in> set (drop s m) \<Longrightarrow> \<exists>c t. drop s m = c # t"
  by (cases "drop s m") auto

lemma skip_delims_ok:
  assumes "0 \<in> set (drop s m)" "0 \<in> set d"
  shows "skip_delims m d s = Ok (s + length (takeWhile (delims d) (cstr (drop s m))))"
  using assms
proof (induction m d s rule: skip_delims.induct)
  case (1 m d s)
  obtain c t where ct: "drop s m = c # t" using at0 [OF "1.prems"(1)] by blast
  note r = rd_drop [OF ct]
  show ?case
  proof (cases "delims d c")
    case True
    then have "c \<noteq> 0" by (metis cstr_nonzero)
    moreover have "0 \<in> set (drop (s + 1) m)" using "1.prems"(1) ct r \<open>c \<noteq> 0\<close> by simp
    ultimately show ?thesis using True "1.prems"(2) "1.IH" [of c True] r ct
      by (subst skip_delims.simps) simp
  next
    case False
    then show ?thesis using "1.prems"(2) r ct by (subst skip_delims.simps) simp
  qed
qed

lemma token_end_ok:
  assumes "0 \<in> set (drop s m)" "0 \<in> set d"
  shows "token_end m d s =
    (let r = cstr (drop s m); n = length (takeWhile (\<lambda>c. \<not> delims d c) r) in
     Ok (if n = length r then (m, None) else (m[s + n := 0], Some (s + n + 1))))"
  using assms
proof (induction m d s rule: token_end.induct)
  case (1 m d s)
  obtain c t where ct: "drop s m = c # t" using at0 [OF "1.prems"(1)] by blast
  note r = rd_drop [OF ct]
  show ?case
  proof (cases "c = 0 \<or> delims d c")
    case True
    then show ?thesis using "1.prems"(2) r ct by (subst token_end.simps) (auto simp: Let_def)
  next
    case False
    moreover have "0 \<in> set (drop (s + 1) m)" using "1.prems"(1) ct r False by simp
    ultimately show ?thesis using "1.prems"(2) "1.IH" [of c False] r ct
      by (subst token_end.simps) (simp add: Let_def)
  qed
qed

lemma cstr_drop: "k \<le> length (cstr (drop s m)) \<Longrightarrow> cstr (drop (s + k) m) = drop k (cstr (drop s m))"
proof -
  have "k \<le> length (cstr x) \<Longrightarrow> cstr (drop k x) = drop k (cstr x)" for x
  proof (induction x arbitrary: k)
    case (Cons c x)
    then show ?case by (cases k) (auto split: if_splits)
  qed simp
  then show "k \<le> length (cstr (drop s m)) \<Longrightarrow> cstr (drop (s + k) m) = drop k (cstr (drop s m))"
    by (metis add.commute drop_drop)
qed

lemma zero_drop: "0 \<in> set (drop s m) \<Longrightarrow> k \<le> length (cstr (drop s m)) \<Longrightarrow> 0 \<in> set (drop (s + k) m)"
proof -
  have "0 \<in> set x \<Longrightarrow> k \<le> length (cstr x) \<Longrightarrow> 0 \<in> set (drop k x)" for x :: "u8 list"
  proof (induction x arbitrary: k)
    case (Cons c x)
    then show ?case by (cases k) (auto split: if_splits)
  qed simp
  then show "0 \<in> set (drop s m) \<Longrightarrow> k \<le> length (cstr (drop s m)) \<Longrightarrow> 0 \<in> set (drop (s + k) m)"
    by (metis add.commute drop_drop)
qed

text \<open>A null character written at distance \<open>k\<close> ends the string there, and leaves what is behind it.\<close>

lemma cut_before:
  assumes "0 \<in> set (drop s m)" "k \<le> length (cstr (drop s m))"
  shows "cstr (drop s (m[s + k := 0])) = take k (cstr (drop s m))"
proof -
  have "k \<le> length (cstr x) \<Longrightarrow> 0 \<in> set x \<Longrightarrow> cstr (x[k := 0]) = take k (cstr x)" for x
  proof (induction x arbitrary: k)
    case (Cons c x)
    then show ?case by (cases k) (auto split: if_splits)
  qed simp
  with assms show ?thesis by (simp add: drop_update_swap)
qed

lemma cut_behind: "drop (s + 1) (m[s := c]) = drop (s + 1) m"
  by (simp add: drop_update_cancel)

text \<open>A string is unchanged when the bytes up to its end are.\<close>

lemma cstr_same:
  assumes "take q m' = take q m" "t + length (cstr (drop t m)) < q" "q \<le> length m"
  shows "cstr (drop t m') = cstr (drop t m)"
proof -
  have c: "length (cstr x) < n \<Longrightarrow> n \<le> length x \<Longrightarrow> cstr (take n x) = cstr x \<and> 0 \<in> set (take n x)" for x :: "u8 list" and n
  proof (induction x arbitrary: n)
    case (Cons c x)
    then show ?case by (cases n) (auto split: if_splits)
  qed simp
  have p: "0 \<in> set (take n x) \<Longrightarrow> cstr (take n x) = cstr x" for x :: "u8 list" and n
    by (induction x arbitrary: n) (auto simp: take_Cons split: nat.splits)
  have "take (q - t) (drop t m') = take (q - t) (drop t m)" using assms by (simp add: take_drop)
  moreover have "cstr (take (q - t) (drop t m)) = cstr (drop t m) \<and> 0 \<in> set (take (q - t) (drop t m))"
    using assms by (intro c) auto
  ultimately show ?thesis using p by metis
qed

lemma zero_bound: "0 \<in> set (drop t m) \<Longrightarrow> t + length (cstr (drop t m)) < length m"
proof -
  have "0 \<in> set x \<Longrightarrow> length (cstr x) < length x" for x :: "u8 list"
    by (induction x) auto
  then show "0 \<in> set (drop t m) \<Longrightarrow> t + length (cstr (drop t m)) < length m" by fastforce
qed

section \<open>\<open>strtok\<close>\<close>

text \<open>The calls a program makes: the first with a string, the others with the null pointer, until none is left.\<close>

inductive strtok_run :: "u8 list \<Rightarrow> u8 list \<Rightarrow> nat option \<Rightarrow> nat option \<Rightarrow> nat list \<Rightarrow> u8 list \<Rightarrow> bool" for d where
  stop: "strtok m lst s d = Ok (None, l', m') \<Longrightarrow> strtok_run d m lst s [] m'"
| more: "strtok m lst s d = Ok (Some t, l', m1) \<Longrightarrow> strtok_run d m1 l' None ts m' \<Longrightarrow> strtok_run d m lst s (t # ts) m'"

lemma strtok_call:
  assumes z: "0 \<in> set (drop p m)" "0 \<in> set d" and p: "(case s of None \<Rightarrow> lst | Some p \<Rightarrow> Some p) = Some p"
    and r: "r = dropWhile (delims d) (cstr (drop p m))" and w: "w = takeWhile (\<lambda>c. \<not> delims d c) r"
    and t: "t = p + length (takeWhile (delims d) (cstr (drop p m)))"
  shows "strtok m lst s d =
    Ok (if r = [] then (None, None, m) else if w = r then (Some t, None, m)
        else (Some t, Some (t + length w + 1), m[t + length w := 0]))"
    and "cstr (drop t m) = r" and "0 \<in> set (drop t m)"
proof -
  let ?k = "length (takeWhile (delims d) (cstr (drop p m)))"
  have k: "?k \<le> length (cstr (drop p m))" by (rule length_takeWhile_le)
  show cr: "cstr (drop t m) = r" unfolding t cstr_drop [OF k] r by (rule dropWhile_eq_drop [symmetric])
  show zt: "0 \<in> set (drop t m)" unfolding t by (rule zero_drop [OF z(1) k])
  obtain c u where cu: "drop t m = c # u" using at0 [OF zt] by blast
  note rd = rd_drop [OF cu]
  show "strtok m lst s d =
    Ok (if r = [] then (None, None, m) else if w = r then (Some t, None, m)
        else (Some t, Some (t + length w + 1), m[t + length w := 0]))"
  proof (cases "r = []")
    case True
    then have "c = 0" using cr cu by (simp split: if_splits)
    then show ?thesis using True p rd skip_delims_ok [OF z] t by (simp add: strtok_def)
  next
    case False
    then have c: "c \<noteq> 0" "r = c # cstr u" using cr cu by (auto split: if_splits)
    then have nd: "\<not> delims d c" using r by (metis hd_dropWhile list.sel(1) list.distinct(1))
    have zu: "0 \<in> set (drop (t + 1) m)" using zt cu c rd by simp
    have "w = c # takeWhile (\<lambda>c. \<not> delims d c) (cstr u)" using w c nd by simp
    moreover have "takeWhile P x = x \<longleftrightarrow> length (takeWhile P x) = length x" for P and x :: "u8 list"
      by (metis takeWhile_eq_take take_all order_refl)
    ultimately show ?thesis using False p rd c skip_delims_ok [OF z] t token_end_ok [OF zu z(2)]
      by (auto simp: strtok_def Let_def)
  qed
qed

lemma words_of_cons:
  assumes "r = dropWhile P s" "r \<noteq> []" "w = takeWhile (\<lambda>c. \<not> P c) r"
  shows "words_of P s = w # (if w = r then [] else words_of P (drop (length w + 1) r))"
proof -
  have e: "words_of P s = w # words_of P (dropWhile (\<lambda>c. \<not> P c) r)"
    using assms by (subst words_of.simps) (simp add: Let_def)
  have d: "dropWhile (\<lambda>c. \<not> P c) r = drop (length w) r" using assms(3) by (simp add: dropWhile_eq_drop)
  show ?thesis
  proof (cases "w = r")
    case True
    then show ?thesis using e d by (simp add: words_of.simps)
  next
    case False
    then have "dropWhile (\<lambda>c. \<not> P c) r \<noteq> []" using assms(3) by (metis append_Nil2 takeWhile_dropWhile_id)
    then obtain c x where cx: "dropWhile (\<lambda>c. \<not> P c) r = c # x" "P c" by (metis hd_dropWhile list.exhaust list.sel(1))
    then have "words_of P (c # x) = words_of P x" by (subst words_of.simps, subst (2) words_of.simps) simp
    moreover have "x = drop (length w + 1) r" using cx(1) d by (metis Suc_eq_plus1 drop_Suc list.sel(3) tl_drop)
    ultimately show ?thesis using e False cx(1) by simp
  qed
qed

lemma strtok_run_ok:
  assumes "0 \<in> set (drop p m)" "0 \<in> set d" "(case s of None \<Rightarrow> lst | Some p \<Rightarrow> Some p) = Some p"
  shows "\<exists>ts m'. strtok_run d m lst s ts m' \<and> map (\<lambda>t. cstr (drop t m')) ts = words_of (delims d) (cstr (drop p m)) \<and>
    take p m' = take p m"
  using assms(1,3)
proof (induction "length m - p" arbitrary: m p s lst rule: less_induct)
  case less
  define r where "r = dropWhile (delims d) (cstr (drop p m))"
  define w where "w = takeWhile (\<lambda>c. \<not> delims d c) r"
  define t where "t = p + length (takeWhile (delims d) (cstr (drop p m)))"
  note call = strtok_call [OF less.prems(1) assms(2) less.prems(2) r_def w_def t_def]
  show ?case
  proof (cases "r = []")
    case True
    then have "strtok_run d m lst s [] m" using call(1) by (auto intro: strtok_run.stop)
    moreover have "words_of (delims d) (cstr (drop p m)) = []" using True by (simp add: words_of.simps r_def [symmetric])
    ultimately show ?thesis by (intro exI [of _ "[]"] exI [of _ m]) simp
  next
    case False
    note words = words_of_cons [OF r_def False w_def]
    show ?thesis
    proof (cases "w = r")
      case True
      have "strtok_run d m None None [] m" by (rule strtok_run.stop) (simp add: strtok_def)
      then have "strtok_run d m lst s [t] m" using call(1) False True by (auto intro: strtok_run.more)
      then show ?thesis using words True call(2) by (intro exI [of _ "[t]"] exI [of _ m]) simp
    next
      case wr: False
      let ?n = "length w"
      let ?q = "t + ?n + 1" and ?m = "m[t + length w := 0]"
      have n: "?n < length r" using wr w_def by (metis length_takeWhile_le le_neq_implies_less takeWhile_eq_take take_all order_refl)
      have z: "0 \<in> set (drop ?q ?m)" and cq: "cstr (drop ?q ?m) = drop (?n + 1) r"
        using zero_drop [OF call(3), of "?n + 1"] cstr_drop [of "?n + 1" t m] n
        by (simp_all add: call(2) cut_behind add.assoc)
      have lt: "?q \<le> length m" using zero_bound [OF z] by simp
      have "take ?n r = w" unfolding w_def by (rule takeWhile_eq_take [symmetric])
      then have tok: "cstr (drop t ?m) = w" using cut_before [OF call(3), of ?n] n by (simp add: call(2))
      have "length ?m - ?q < length m - p" using lt by (simp add: t_def)
      from less.hyps [OF this z, of "Some ?q" None, unfolded cq]
      obtain ts m' where run: "strtok_run d ?m (Some ?q) None ts m'"
        and ts: "map (\<lambda>t. cstr (drop t m')) ts = words_of (delims d) (drop (?n + 1) r)" and eq: "take ?q m' = take ?q ?m"
        by auto
      have "strtok_run d m lst s (t # ts) m'" using call(1) False wr run by (auto intro: strtok_run.more)
      moreover have "cstr (drop t m') = w" using cstr_same [OF eq] tok lt by simp
      moreover have "take p m' = take p m"
        using arg_cong [OF eq, of "take p"] by (simp add: t_def min_def take_update_cancel)
      ultimately show ?thesis using words ts wr by (intro exI [of _ "t # ts"] exI [of _ m']) simp
    qed
  qed
qed

text \<open>
  C30. The calls of \<open>strtok\<close> on a string end, and the tokens they return are, in order, the maximal runs of
  characters that are not delimiters; all of them are still in place when the last call returns.
\<close>

theorem strtok_words:
  assumes "0 \<in> set (drop p m)" and "0 \<in> set d"
  shows "\<exists>ts m'. strtok_run d m lst (Some p) ts m' \<and>
    map (\<lambda>t. cstr (drop t m')) ts = words_of (delims d) (cstr (drop p m))"
  using strtok_run_ok [OF assms, of lst "Some p"] by auto

theorem strtok_words_witness:
  "\<exists>ts m'. strtok_run [44, 32, 0] [97, 44, 32, 98, 99, 44, 0] None (Some 0) ts m' \<and>
    map (\<lambda>t. cstr (drop t m')) ts = [[97], [98, 99]]"
  using strtok_words [of 0 "[97, 44, 32, 98, 99, 44, 0]" "[44, 32, 0]" None] by (simp add: words_of.simps)

section \<open>\<open>strsep\<close>\<close>

inductive strsep_run :: "u8 list \<Rightarrow> u8 list \<Rightarrow> nat option \<Rightarrow> nat list \<Rightarrow> u8 list \<Rightarrow> bool" for d where
  stop: "strsep m p d = Ok (None, p', m') \<Longrightarrow> strsep_run d m p [] m'"
| more: "strsep m p d = Ok (Some t, p', m1) \<Longrightarrow> strsep_run d m1 p' ts m' \<Longrightarrow> strsep_run d m p (t # ts) m'"

lemma strsep_run_ok:
  assumes "0 \<in> set (drop p m)" "0 \<in> set d"
  shows "\<exists>ts m'. strsep_run d m (Some p) ts m' \<and> map (\<lambda>t. cstr (drop t m')) ts = fields_of (delims d) (cstr (drop p m)) \<and>
    take p m' = take p m"
  using assms(1)
proof (induction "length m - p" arbitrary: m p rule: less_induct)
  case less
  let ?r = "cstr (drop p m)"
  define w where "w = takeWhile (\<lambda>c. \<not> delims d c) ?r"
  let ?n = "length w"
  have tw: "take ?n ?r = w" unfolding w_def by (rule takeWhile_eq_take [symmetric])
  have dw: "dropWhile (\<lambda>c. \<not> delims d c) ?r = drop ?n ?r" by (simp add: w_def dropWhile_eq_drop)
  have n: "?n \<le> length ?r" by (simp add: w_def length_takeWhile_le)
  have call: "strsep m (Some p) d = Ok (if ?n = length ?r then (Some p, None, m) else (Some p, Some (p + ?n + 1), m[p + ?n := 0]))"
    using token_end_ok [OF less.prems assms(2)] by (simp add: strsep_def Let_def w_def)
  show ?case
  proof (cases "?n = length ?r")
    case True
    have "strsep_run d m None [] m" by (rule strsep_run.stop) (simp add: strsep_def)
    then have "strsep_run d m (Some p) [p] m" using call True by (auto intro: strsep_run.more)
    moreover have "fields_of (delims d) ?r = [?r]"
      unfolding fields_of.simps [of _ ?r] Let_def dw w_def [symmetric] using True arg_cong [OF tw, of length] tw by simp
    ultimately show ?thesis by (intro exI [of _ "[p]"] exI [of _ m]) simp
  next
    case False
    let ?q = "p + ?n + 1" and ?m = "m[p + ?n := 0]"
    have lt: "?n + 1 \<le> length ?r" using False n by simp
    have z: "0 \<in> set (drop ?q ?m)" and cq: "cstr (drop ?q ?m) = drop (?n + 1) ?r"
      using zero_drop [OF less.prems lt] cstr_drop [OF lt] by (simp_all add: cut_behind add.assoc)
    have le: "?q \<le> length m" using zero_bound [OF z] by simp
    have tok: "cstr (drop p ?m) = w" using cut_before [OF less.prems n] tw by simp
    have "length ?m - ?q < length m - p" using le by simp
    from less.hyps [OF this z, unfolded cq]
    obtain ts m' where run: "strsep_run d ?m (Some ?q) ts m'"
      and ts: "map (\<lambda>t. cstr (drop t m')) ts = fields_of (delims d) (drop (?n + 1) ?r)" and eq: "take ?q m' = take ?q ?m"
      by auto
    have "strsep_run d m (Some p) (p # ts) m'" using call False run by (auto intro: strsep_run.more)
    moreover have "fields_of (delims d) ?r = w # fields_of (delims d) (drop (?n + 1) ?r)"
      unfolding fields_of.simps [of _ ?r] Let_def dw w_def [symmetric] using lt by (simp add: drop_Suc drop_tl)
    moreover have "cstr (drop p m') = w" using cstr_same [OF eq] tok le by simp
    moreover have "take p m' = take p m"
      using arg_cong [OF eq, of "take p"] by (simp add: min_def take_update_cancel)
    ultimately show ?thesis using ts by (intro exI [of _ "p # ts"] exI [of _ m']) simp
  qed
qed

text \<open>
  The calls of \<open>strsep\<close> on a string end and return, in order, the fields between the delimiters, the empty
  ones included; all of them are still in place when the last call returns.
\<close>

theorem strsep_fields:
  assumes "0 \<in> set (drop p m)" and "0 \<in> set d"
  shows "\<exists>ts m'. strsep_run d m (Some p) ts m' \<and> map (\<lambda>t. cstr (drop t m')) ts = fields_of (delims d) (cstr (drop p m))"
  using strsep_run_ok [OF assms] by auto

theorem strsep_fields_witness:
  "\<exists>ts m'. strsep_run [58, 0] [97, 58, 58, 98, 0] (Some 0) ts m' \<and> map (\<lambda>t. cstr (drop t m')) ts = [[97], [], [98]]"
  using strsep_fields [of 0 "[97, 58, 58, 98, 0]" "[58, 0]"] by (simp add: fields_of.simps)

section \<open>Copying with a bound\<close>

text \<open>The buffer \<open>m\<close> with the bytes \<open>xs\<close> at \<open>p\<close>.\<close>

definition put_bytes :: "u8 list \<Rightarrow> nat \<Rightarrow> u8 list \<Rightarrow> u8 list" where
  "put_bytes m p xs = take p m @ xs @ drop (p + length xs) m"

lemma put_nil [simp]: "put_bytes m p [] = m"
  by (simp add: put_bytes_def)

lemma put_cons: "p < length m \<Longrightarrow> put_bytes (m[p := c]) (p + 1) xs = put_bytes m p (c # xs)"
  by (simp add: put_bytes_def upd_conv_take_nth_drop min_def add.commute)

lemma put_one: "p < length m \<Longrightarrow> m[p := c] = put_bytes m p [c]"
  by (simp add: put_bytes_def upd_conv_take_nth_drop)

lemma strlcpy_loop_ok:
  assumes "0 \<in> set s" "0 < n" "d + n \<le> length m"
  shows "strlcpy_loop m d s k n =
    (let x = cstr s in
     Ok (if length x < n then (put_bytes m d (x @ [0]), d + length x + 1, drop (length x + 1) s, k + length x + 1, n - length x)
         else (put_bytes m d (take n x), d + n, drop n s, k + n, 0)))"
  using assms
proof (induction s arbitrary: m d k n)
  case (Cons c s)
  then have w: "wr m d c = Ok (m[d := c])" "d < length m" by (auto simp: wr_def)
  show ?case
  proof (cases "c = 0")
    case True
    then show ?thesis using Cons.prems w by (simp add: put_one)
  next
    case False
    with Cons.prems have z: "0 \<in> set s" by auto
    show ?thesis
    proof (cases "n = 1")
      case True
      then show ?thesis using False w by (simp add: put_one)
    next
      case n: False
      have "strlcpy_loop m d (c # s) k n = strlcpy_loop (m[d := c]) (d + 1) s (k + 1) (n - 1)"
        using False n Cons.prems(2) w by simp
      also have "\<dots> = (let x = cstr s in
        Ok (if length x < n - 1 then (put_bytes (m[d := c]) (d + 1) (x @ [0]), d + 1 + length x + 1, drop (length x + 1) s, k + 1 + length x + 1, n - 1 - length x)
            else (put_bytes (m[d := c]) (d + 1) (take (n - 1) x), d + 1 + (n - 1), drop (n - 1) s, k + 1 + (n - 1), 0)))"
        using Cons.prems n by (intro Cons.IH [OF z]) auto
      finally show ?thesis using False n Cons.prems(2) put_cons [OF w(2)]
        by (cases n) (auto simp: Let_def)
    qed
  qed
qed simp

lemma put_length [simp]: "p + length xs \<le> length m \<Longrightarrow> length (put_bytes m p xs) = length m"
  by (simp add: put_bytes_def)

lemma put_put: "p + length xs \<le> length m \<Longrightarrow> put_bytes (put_bytes m p xs) (p + length xs) ys = put_bytes m p (xs @ ys)"
  by (cases xs) (auto simp: put_bytes_def min_def ac_simps)

lemma strlen_drop: "0 \<in> set s \<Longrightarrow> n \<le> length (cstr s) \<Longrightarrow> strlen_loop (drop n s) k = Ok (k + length (cstr s) - n)"
  using strlen_loop_ok [of "drop n s" k] zero_drop [of 0 s n] cstr_drop [of n 0 s] by simp

text \<open>
  \<open>strlcpy\<close> into a buffer of \<open>siz\<close> bytes writes as many characters of the string as fit and a null
  character, and no byte outside the buffer; it returns the length of the source.
\<close>

theorem strlcpy_bounded:
  assumes "0 \<in> set src" and "dst + siz \<le> length m"
  shows "strlcpy m dst src siz =
    Ok (length (cstr src), if siz = 0 then m else put_bytes m dst (take (siz - 1) (cstr src) @ [0]))"
proof (cases "siz \<le> 1")
  case True
  then show ?thesis using assms by (auto simp: strlcpy_def strlen_loop_ok wr_def put_one)
next
  case False
  let ?x = "cstr src" and ?n = "siz - 1"
  have l: "strlcpy_loop m dst src 0 ?n =
    Ok (if length ?x < ?n then (put_bytes m dst (?x @ [0]), dst + length ?x + 1, drop (length ?x + 1) src, length ?x + 1, ?n - length ?x)
        else (put_bytes m dst (take ?n ?x), dst + ?n, drop ?n src, ?n, 0))"
    using strlcpy_loop_ok [of src ?n dst m 0] assms False by (simp add: Let_def)
  show ?thesis
  proof (cases "length ?x < ?n")
    case True
    moreover from True have "\<not> siz \<le> Suc (length ?x)" by simp
    ultimately show ?thesis using l False by (simp add: strlcpy_def)
  next
    case long: False
    then have n: "length (take ?n ?x) = ?n" by simp
    have "wr (put_bytes m dst (take ?n ?x)) (dst + ?n) 0 = Ok (put_bytes m dst (take ?n ?x @ [0]))"
      using put_put [of dst "take ?n ?x" m "[0]"] put_one [of "dst + ?n" "put_bytes m dst (take ?n ?x)" 0] n assms False
      by (simp add: wr_def)
    then show ?thesis using l long False strlen_drop [OF assms(1), of ?n ?n] by (simp add: strlcpy_def)
  qed
qed

theorem strlcpy_bounded_witness:
  "strlcpy [1, 1, 1, 1] 0 [97, 98, 99, 0] 3 = Ok (3, [97, 98, 0, 1])"
  using strlcpy_bounded [of "[97, 98, 99, 0]" 0 3 "[1, 1, 1, 1]"] by (simp add: put_bytes_def)

lemma strlcat_end_ok:
  "d + n \<le> length m \<Longrightarrow> strlcat_end m d n = Ok (d + length (cstr (take n (drop d m))))"
proof (induction n arbitrary: d)
  case (Suc n)
  then have "drop d m = m ! d # drop (d + 1) m" by (simp add: Cons_nth_drop_Suc)
  with Suc show ?case by (simp add: rd_def)
qed simp

lemma strlcat_loop_ok:
  assumes "0 \<in> set s" "0 < n" "d + n \<le> length m"
  shows "strlcat_loop m d s k n =
    (let x = take (n - 1) (cstr s) in Ok (put_bytes m d x, d + length x, k + length (cstr s)))"
  using assms
proof (induction s arbitrary: m d k n)
  case (Cons c s)
  show ?case
  proof (cases "c = 0")
    case False
    then have z: "0 \<in> set s" using Cons.prems by auto
    show ?thesis
    proof (cases "n = 1")
      case True
      then show ?thesis using False Cons.IH [OF z] Cons.prems by (simp add: Let_def)
    next
      case n: False
      then obtain n' where n': "n = Suc (Suc n')" using Cons.prems(2) by (metis One_nat_def gr0_implies_Suc not0_implies_Suc)
      have "d < length m" using Cons.prems n' by simp
      then show ?thesis using False n' Cons.IH [OF z, of "Suc n'" "d + 1" "m[d := c]"] Cons.prems put_cons [of d m c]
        by (simp add: Let_def wr_def)
    qed
  qed simp
qed simp

text \<open>
  \<open>strlcat\<close> appends to the string in a buffer of \<open>siz\<close> bytes as many characters as fit and a null
  character, and writes no byte outside the buffer; when there is no string in the buffer it changes nothing.
  It returns the length of the string it tried to make.
\<close>

theorem strlcat_bounded:
  assumes "0 \<in> set src" and "dst + siz \<le> length m" and "l = length (cstr (take siz (drop dst m)))"
  shows "strlcat m dst src siz =
    Ok (l + length (cstr src), if l = siz then m else put_bytes m (dst + l) (take (siz - l - 1) (cstr src) @ [0]))"
proof -
  have e: "strlcat_end m dst siz = Ok (dst + l)" using strlcat_end_ok [OF assms(2)] assms(3) by simp
  have "l \<le> length (take siz (drop dst m))" unfolding assms(3) cstr_def by (rule length_takeWhile_le)
  then have l: "l \<le> siz" by simp
  show ?thesis
  proof (cases "l = siz")
    case True
    then show ?thesis using e assms(1) by (simp add: strlcat_def)
  next
    case False
    let ?x = "take (siz - l - 1) (cstr src)"
    have len: "dst + l + length ?x < length m" using l False assms(2) by simp
    have "wr (put_bytes m (dst + l) ?x) (dst + l + length ?x) 0 = Ok (put_bytes m (dst + l) (?x @ [0]))"
      using put_put [of "dst + l" ?x m "[0]"] put_one [of "dst + l + length ?x" "put_bytes m (dst + l) ?x" 0] len
      by (simp add: wr_def)
    then show ?thesis using e False l assms strlcat_loop_ok [OF assms(1), of "siz - l" "dst + l" m 0]
      by (simp add: strlcat_def Let_def)
  qed
qed

theorem strlcat_bounded_witness:
  "strlcat [97, 0, 1, 1, 1] 0 [98, 99, 100, 0] 4 = Ok (4, [97, 98, 99, 0, 1])"
  using strlcat_bounded [of "[98, 99, 100, 0]" 0 4 "[97, 0, 1, 1, 1]" 1] by (simp add: put_bytes_def)

end
