(* ===== verification/Ix_Records.thy ===== *)
theory Ix_Records
  imports Ix_Sort
begin

text \<open>
  The bytes of records.  \<open>qsort\<close> and \<open>heapsort\<close> swap records byte by byte, and the insertion sort of
  \<open>qsort\<close> moves the bytes of a record to their place one after the other, each with the bytes at the
  same offset of the records it passes.  These loops act on the array as \<open>rec_swap\<close> and \<open>rec_rotate\<close> act on
  the list of its records.
\<close>

section \<open>The loops\<close>

text \<open>The macro \<open>SWAP\<close> of \<open>heapsort.c\<close> and the loops of lines 113, 184 and 223 of \<open>qsort.c\<close>.\<close>

fun swap_bytes :: "u8 list \<Rightarrow> nat \<Rightarrow> nat \<Rightarrow> nat \<Rightarrow> u8 list" where
  "swap_bytes bs a b 0 = bs"
| "swap_bytes bs a b (Suc cnt) = swap_bytes (bs[a := bs ! b, b := bs ! a]) (a + 1) (b + 1) cnt"

text \<open>Lines 130--135 of \<open>qsort.c\<close>: \<open>shift_byte\<close> is the inner loop, \<open>cnt\<close> the number of values \<open>lo\<close> still takes.\<close>

function shift_byte :: "u8 list \<Rightarrow> nat \<Rightarrow> nat \<Rightarrow> nat \<Rightarrow> u8 \<Rightarrow> u8 list" where
  "shift_byte bs hi qsz i c =
     (if 0 < qsz \<and> hi + qsz \<le> i then shift_byte (bs[i := bs ! (i - qsz)]) hi qsz (i - qsz) c else bs[i := c])"
  by pat_completeness auto
termination
  by (relation "measure (\<lambda>(bs, hi, qsz, i, c). i)") auto

declare shift_byte.simps [simp del]

fun rotate_bytes :: "u8 list \<Rightarrow> nat \<Rightarrow> nat \<Rightarrow> nat \<Rightarrow> nat \<Rightarrow> u8 list" where
  "rotate_bytes bs hi mn qsz 0 = bs"
| "rotate_bytes bs hi mn qsz (Suc cnt) =
     (let lo = mn + cnt in rotate_bytes (shift_byte bs hi qsz lo (bs ! lo)) hi mn qsz cnt)"

section \<open>Records\<close>

definition records :: "nat \<Rightarrow> u8 list \<Rightarrow> u8 list list" where
  "records qsz bs = map (\<lambda>i. take qsz (drop (i * qsz) bs)) [0..<length bs div qsz]"

lemma records_length [simp]: "length (records qsz bs) = length bs div qsz"
  by (simp add: records_def)

lemma records_inside: "i < length bs div qsz \<Longrightarrow> i * qsz + qsz \<le> length bs"
  by (metis Suc_leI add.commute div_times_less_eq_dividend le_trans mult_Suc mult_le_mono1)

lemma records_row [simp]: "i < length bs div qsz \<Longrightarrow> length (records qsz bs ! i) = qsz"
  using records_inside [of i bs qsz] by (simp add: records_def)

lemma records_byte: "i < length bs div qsz \<Longrightarrow> d < qsz \<Longrightarrow> records qsz bs ! i ! d = bs ! (i * qsz + d)"
  using records_inside [of i bs qsz] by (simp add: records_def)

lemma records_eqI:
  assumes "length bs div qsz = length rs"
    and "\<And>i. i < length rs \<Longrightarrow> length (rs ! i) = qsz"
    and "\<And>i d. i < length rs \<Longrightarrow> d < qsz \<Longrightarrow> bs ! (i * qsz + d) = rs ! i ! d"
  shows "records qsz bs = rs"
  using assms by (intro nth_equalityI) (auto simp: records_byte)

lemma same_record: "d < qsz \<Longrightarrow> a * qsz \<le> i * qsz + d \<longleftrightarrow> a \<le> (i :: nat)"
proof
  assume d: "d < qsz" and "a * qsz \<le> i * qsz + d"
  then have "a * qsz < (Suc i) * qsz" by simp
  then show "a \<le> i" by (simp only: mult_less_cancel2) simp
next
  assume "a \<le> i"
  then have "a * qsz \<le> i * qsz" by (rule mult_le_mono1)
  then show "a * qsz \<le> i * qsz + d" by (rule trans_le_add1)
qed

section \<open>What the loops do\<close>

lemma swap_bytes_length [simp]: "length (swap_bytes bs a b c) = length bs"
  by (induction bs a b c rule: swap_bytes.induct) auto

lemma swap_bytes_nth:
  assumes "a + c \<le> b \<or> b + c \<le> a" "a + c \<le> length bs" "b + c \<le> length bs" "k < length bs"
  shows "swap_bytes bs a b c ! k =
    (if a \<le> k \<and> k < a + c then bs ! (k - a + b) else if b \<le> k \<and> k < b + c then bs ! (k - b + a) else bs ! k)"
  using assms
proof (induction bs a b c rule: swap_bytes.induct)
  case (2 bs a b c)
  have "swap_bytes bs a b (Suc c) ! k =
    (if a + 1 \<le> k \<and> k < a + 1 + c then bs[a := bs ! b, b := bs ! a] ! (k - (a + 1) + (b + 1))
     else if b + 1 \<le> k \<and> k < b + 1 + c then bs[a := bs ! b, b := bs ! a] ! (k - (b + 1) + (a + 1))
     else bs[a := bs ! b, b := bs ! a] ! k)"
    using "2.prems" unfolding swap_bytes.simps by (intro "2.IH") auto
  also have "\<dots> = (if a \<le> k \<and> k < a + Suc c then bs ! (k - a + b)
     else if b \<le> k \<and> k < b + Suc c then bs ! (k - b + a) else bs ! k)"
  proof -
    have x: "bs[a := bs ! b, b := bs ! a] ! m = (if m = b then bs ! a else if m = a then bs ! b else bs ! m)" for m
      using "2.prems" by (simp add: nth_list_update)
    consider "k = a" | "k = b" | "a < k" "k < a + Suc c" "k \<noteq> b" | "b < k" "k < b + Suc c" "k \<noteq> a" "\<not> (a < k \<and> k < a + Suc c)"
      | "k \<noteq> a" "k \<noteq> b" "\<not> (a < k \<and> k < a + Suc c)" "\<not> (b < k \<and> k < b + Suc c)" by blast
    then show ?thesis
    proof cases
      case 1
      have "(b + 1 \<le> a \<and> a < b + 1 + c) = False" using "2.prems"(1) by auto
      then show ?thesis using 1 by (simp only: x) simp
    next
      case 2
      have "(a + 1 \<le> b \<and> b < a + 1 + c) = False" "(a \<le> b \<and> b < a + Suc c) = False" using "2.prems"(1) by auto
      then show ?thesis using 2 by (simp only: x) simp
    next
      case 3
      then have "k - (a + 1) + (b + 1) = k - a + b" "k - a + b \<noteq> b" "k - a + b \<noteq> a" using "2.prems"(1) by linarith+
      moreover have "(a + 1 \<le> k \<and> k < a + 1 + c) = True" "(a \<le> k \<and> k < a + Suc c) = True" using 3 by auto
      ultimately show ?thesis by (simp only: x if_True if_False)
    next
      case 4
      then have "k - (b + 1) + (a + 1) = k - b + a" "k - b + a \<noteq> b" "k - b + a \<noteq> a" using "2.prems"(1) by linarith+
      moreover have "(a + 1 \<le> k \<and> k < a + 1 + c) = False" "(a \<le> k \<and> k < a + Suc c) = False"
        "(b + 1 \<le> k \<and> k < b + 1 + c) = True" "(b \<le> k \<and> k < b + Suc c) = True" using 4 by auto
      ultimately show ?thesis by (simp only: x if_True if_False)
    next
      case 5
      then have "(a + 1 \<le> k \<and> k < a + 1 + c) = False" "(a \<le> k \<and> k < a + Suc c) = False"
        "(b + 1 \<le> k \<and> k < b + 1 + c) = False" "(b \<le> k \<and> k < b + Suc c) = False" by auto
      with 5 show ?thesis by (simp only: x if_False)
    qed
  qed
  finally show ?case .
qed auto

lemma shift_byte_length [simp]: "length (shift_byte bs hi qsz i c) = length bs"
proof (induction bs hi qsz i c rule: shift_byte.induct)
  case (1 bs hi qsz i c)
  then show ?case by (subst shift_byte.simps) simp
qed

lemma byte_pos_eq: "d < q \<Longrightarrow> e < q \<Longrightarrow> a * q + d = b * q + e \<longleftrightarrow> a = b \<and> d = (e :: nat)"
  by (metis add_right_imp_eq div_mult_self3 div_less add.commute add_cancel_left_right mod_less mod_mult_self3 not_less_zero)

text \<open>The bytes at offset \<open>e\<close> of the records \<open>h\<close>, ..., \<open>m - 1\<close> move up to the next record.\<close>

lemma shift_byte_nth:
  assumes "h \<le> m" "e < q" "d < q" "m * q + e < length bs" "r * q + d < length bs"
  shows "shift_byte bs (h * q) q (m * q + e) c ! (r * q + d) =
    (if d = e \<and> h \<le> r \<and> r \<le> m then if r = h then c else bs ! ((r - 1) * q + d) else bs ! (r * q + d))"
  using assms
proof (induction "m - h" arbitrary: m bs)
  case 0
  then have "\<not> h * q + q \<le> m * q + e" by simp
  with 0 show ?case by (subst shift_byte.simps) (auto simp: nth_list_update byte_pos_eq)
next
  case (Suc n)
  then obtain m' where m: "m = Suc m'" "h \<le> m'" by (cases m) auto
  let ?i = "m * q + e" and ?j = "m' * q + e"
  have "h * q \<le> m' * q + e" using mult_le_mono1 [OF m(2), of q] by (rule trans_le_add1)
  then have step: "shift_byte bs (h * q) q ?i c = shift_byte (bs[?i := bs ! ?j]) (h * q) q ?j c"
    using Suc.prems(2) m(1) by (subst shift_byte.simps) simp
  have ih: "shift_byte (bs[?i := bs ! ?j]) (h * q) q ?j c ! (r * q + d) =
    (if d = e \<and> h \<le> r \<and> r \<le> m' then if r = h then c else bs[?i := bs ! ?j] ! ((r - 1) * q + d)
     else bs[?i := bs ! ?j] ! (r * q + d))"
    using Suc.prems Suc.hyps(2) m by (intro Suc.hyps(1)) auto
  have upd: "bs[?i := bs ! ?j] ! (s * q + d) = (if s = m \<and> d = e then bs ! ?j else bs ! (s * q + d))" for s
    using Suc.prems by (auto simp: nth_list_update byte_pos_eq)
  show ?case unfolding step ih upd using m by auto
qed

lemma rotate_bytes_length [simp]: "length (rotate_bytes bs hi mn q c) = length bs"
  by (induction bs hi mn q c rule: rotate_bytes.induct) (auto simp: Let_def)

lemma rotate_bytes_nth:
  assumes "h \<le> m" "c \<le> q" "d < q" "m * q + q \<le> length bs" "r * q + d < length bs"
  shows "rotate_bytes bs (h * q) (m * q) q c ! (r * q + d) =
    (if d < c \<and> h \<le> r \<and> r \<le> m then if r = h then bs ! (m * q + d) else bs ! ((r - 1) * q + d) else bs ! (r * q + d))"
  using assms
proof (induction c arbitrary: bs r)
  case (Suc c)
  let ?bs = "shift_byte bs (h * q) q (m * q + c) (bs ! (m * q + c))"
  have s: "?bs ! (k * q + d) =
    (if d = c \<and> h \<le> k \<and> k \<le> m then if k = h then bs ! (m * q + c) else bs ! ((k - 1) * q + d) else bs ! (k * q + d))"
    if "k * q + d < length bs" for k
    using Suc.prems that by (intro shift_byte_nth) auto
  have "(r - 1) * q + d < length bs" using Suc.prems(5) by (meson add_le_mono1 diff_le_self le_less_trans mult_le_mono1)
  moreover have "m * q + d < length bs" using Suc.prems by simp
  moreover have "rotate_bytes bs (h * q) (m * q) q (Suc c) ! (r * q + d) =
    (if d < c \<and> h \<le> r \<and> r \<le> m then if r = h then ?bs ! (m * q + d) else ?bs ! ((r - 1) * q + d) else ?bs ! (r * q + d))"
    using Suc.prems unfolding rotate_bytes.simps Let_def by (intro Suc.IH) auto
  ultimately show ?case using s Suc.prems(5) by (auto simp: less_Suc_eq)
qed simp

text \<open>
  C27. The loops of \<open>qsort\<close> and \<open>heapsort\<close> that move bytes implement the operations on records the sorting
  algorithms are written with: swapping the bytes of two records swaps the records, and the rotation moves
  record \<open>m\<close> to place \<open>h\<close> and the records from \<open>h\<close> on up by one.
\<close>

theorem record_loops:
  assumes "i < length bs div qsz" and "j < length bs div qsz" and "i \<noteq> j" and "h \<le> m" and "m < length bs div qsz"
  shows "rec_swap (records qsz bs) i j = Ok (records qsz (swap_bytes bs (i * qsz) (j * qsz) qsz)) \<and>
    rec_rotate (records qsz bs) h m = records qsz (rotate_bytes bs (h * qsz) (m * qsz) qsz qsz)"
proof
  have apart: "i * qsz + qsz \<le> j * qsz \<or> j * qsz + qsz \<le> i * qsz"
    using assms(3) mult_le_mono1 [of "Suc i" j qsz] mult_le_mono1 [of "Suc j" i qsz] by (auto simp: neq_iff)
  have "records qsz (swap_bytes bs (i * qsz) (j * qsz) qsz) = (records qsz bs)[i := records qsz bs ! j, j := records qsz bs ! i]"
  proof (rule records_eqI)
    fix k d assume k: "k < length ((records qsz bs)[i := records qsz bs ! j, j := records qsz bs ! i])" and d: "d < qsz"
    then have "k * qsz + d < length bs" using records_inside [of k bs qsz] by simp
    moreover have in_rec: "a * qsz \<le> k * qsz + d \<and> k * qsz + d < a * qsz + qsz \<longleftrightarrow> a = k" for a
      using same_record [OF d, of a k] same_record [OF d, of "Suc a" k] by auto
    ultimately show "swap_bytes bs (i * qsz) (j * qsz) qsz ! (k * qsz + d) =
      (records qsz bs)[i := records qsz bs ! j, j := records qsz bs ! i] ! k ! d"
      using assms k d records_inside [of i bs qsz] records_inside [of j bs qsz]
      by (subst swap_bytes_nth [OF apart]) (auto simp: nth_list_update records_byte in_rec add.commute)
  qed (use assms in \<open>auto simp: nth_list_update\<close>)
  then show "rec_swap (records qsz bs) i j = Ok (records qsz (swap_bytes bs (i * qsz) (j * qsz) qsz))"
    using assms by (simp add: rec_swap_def)
next
  have nth: "rec_rotate (records qsz bs) h m ! k = (if h \<le> k \<and> k \<le> m then if k = h then records qsz bs ! m
    else records qsz bs ! (k - 1) else records qsz bs ! k)" if "k < length bs div qsz" for k
    using assms that by (auto simp: rec_rotate_def nth_append nth_Cons' min_def)
  have "records qsz (rotate_bytes bs (h * qsz) (m * qsz) qsz qsz) = rec_rotate (records qsz bs) h m"
  proof (rule records_eqI)
    show len: "length (rotate_bytes bs (h * qsz) (m * qsz) qsz qsz) div qsz = length (rec_rotate (records qsz bs) h m)"
      using assms by (simp add: rec_rotate_def min_def)
    fix k assume k: "k < length (rec_rotate (records qsz bs) h m)"
    then show "length (rec_rotate (records qsz bs) h m ! k) = qsz" using len assms by (simp add: nth)
    fix d assume d: "d < qsz"
    then show "rotate_bytes bs (h * qsz) (m * qsz) qsz qsz ! (k * qsz + d) = rec_rotate (records qsz bs) h m ! k ! d"
      using k len assms records_inside [of k bs qsz] records_inside [of m bs qsz]
      by (subst rotate_bytes_nth) (auto simp: nth records_byte)
  qed
  then show "rec_rotate (records qsz bs) h m = records qsz (rotate_bytes bs (h * qsz) (m * qsz) qsz qsz)" by simp
qed

theorem record_loops_witness:
  "swap_bytes [1, 2, 3, 4, 5, 6] 0 4 2 = [5, 6, 3, 4, 1, 2] \<and>
   rec_swap (records 2 [1, 2, 3, 4, 5, 6]) 0 2 = Ok (records 2 (swap_bytes [1, 2, 3, 4, 5, 6] 0 4 2)) \<and>
   rec_rotate (records 2 [1, 2, 3, 4, 5, 6]) 0 2 = records 2 (rotate_bytes [1, 2, 3, 4, 5, 6] 0 4 2 2)"
proof
  show "swap_bytes [1, 2, 3, 4, 5, 6] 0 4 2 = [5, 6, 3, 4, 1, 2]" by code_simp
qed (use record_loops [of 0 "[1, 2, 3, 4, 5, 6]" 2 2 0 2] in simp)

end
