(* ===== verification/Ix_Scandir.thy ===== *)
theory Ix_Scandir
  imports Ix_Tokens Ix_Records
begin

text \<open>
  Reading a directory into a sorted array: \<open>static/scandir.c\<close>, which puts \<open>qsort\<close> and \<open>strcmp\<close> together.  A
  directory entry has its name as the characters before the null character.  The entries \<open>readdir\<close>
  returns, and whether \<open>opendir\<close> and each allocation succeed, are arguments; the array of names is the list of its
  filled part, with its capacity \<open>arraysz\<close>.
\<close>

record dirent =
  d_fileno :: u32
  d_reclen :: u16
  d_type :: u8
  d_namlen :: u8
  d_name :: "u8 list"

text \<open>The comparison function, with the version of \<open>strcmp\<close> it is linked with.\<close>

definition alphasort :: "(u8 list \<Rightarrow> u8 list \<Rightarrow> int exec) \<Rightarrow> dirent \<Rightarrow> dirent \<Rightarrow> int" where
  "alphasort cmp d1 d2 = name_cmp cmp (d_name d1) (d_name d2)"

text \<open>Lines 46--50: \<open>d_namlen + 1\<close> bytes of the name are copied; a copy without its null character is no string.\<close>

definition dirent_copy :: "dirent \<Rightarrow> dirent exec" where
  "dirent_copy d = (if length (d_name d) \<le> unat (d_namlen d) then Ok d else Wild)"

definition selected :: "(dirent \<Rightarrow> bool) option \<Rightarrow> dirent \<Rightarrow> bool" where
  "selected select d = (case select of None \<Rightarrow> True | Some f \<Rightarrow> f d)"

definition next_ok :: "bool list \<Rightarrow> bool" where
  "next_ok mem = (case mem of [] \<Rightarrow> False | b # _ \<Rightarrow> b)"

text \<open>The loop of line 93; \<open>mem\<close> says which of the allocations to come succeed.  \<open>None\<close> is the return of -1.\<close>

fun scandir_loop ::
    "(dirent \<Rightarrow> bool) option \<Rightarrow> bool list \<Rightarrow> dirent list \<Rightarrow> dirent list \<Rightarrow> nat \<Rightarrow> dirent list option exec" where
  "scandir_loop select mem [] names arraysz = Ok (Some names)"
| "scandir_loop select mem (d # ds) names arraysz =
     (if \<not> selected select d then scandir_loop select mem ds names arraysz
      else if \<not> next_ok mem then Ok None
      else exec_bind (dirent_copy d) (\<lambda>p.
        let nitems = length names + 1 in
        if arraysz \<le> nitems then
          if \<not> next_ok (tl mem) then Ok None
          else if length names < arraysz + 50 then scandir_loop select (tl (tl mem)) ds (names @ [p]) (arraysz + 50) else Wild
        else if length names < arraysz then scandir_loop select (tl mem) ds (names @ [p]) arraysz else Wild))"

text \<open>
  The result is the value returned, the array, and whether the directory was closed; the first element of \<open>mem\<close> is the
  allocation of line 88.
\<close>

definition scandir ::
    "bool \<Rightarrow> bool list \<Rightarrow> (dirent \<Rightarrow> bool) option \<Rightarrow> (dirent \<Rightarrow> dirent \<Rightarrow> int) option \<Rightarrow> dirent list \<Rightarrow>
     (int \<times> dirent list option \<times> bool) exec option" where
  "scandir opened mem select dcomp ds =
     (if \<not> opened then Some (Ok (- 1, None, True))
      else if \<not> next_ok mem then Some (Ok (- 1, None, False))
      else case scandir_loop select (tl mem) ds [] 50 of
        Ok None \<Rightarrow> Some (Ok (- 1, None, False))
      | Ok (Some names) \<Rightarrow>
          (case dcomp of
             Some cmp \<Rightarrow>
               if names \<noteq> [] then
                 Option.bind (qsort cmp names) (\<lambda>r.
                 Some (exec_bind r (\<lambda>names. Ok (int (length names), Some names, True))))
               else Some (Ok (0, Some names, True))
           | None \<Rightarrow> Some (Ok (int (length names), Some names, True)))
      | Panic m \<Rightarrow> Some (Panic m)
      | Wild \<Rightarrow> Some Wild)"

section \<open>Properties\<close>

interpretation al: comparator "alphasort strcmp_c"
  by unfold_locales (auto simp: alphasort_def intro: sc.cmp_trans simp: sc.cmp_sym)

lemma scandir_loop_ok:
  assumes "\<forall>d \<in> set ds. length (d_name d) \<le> unat (d_namlen d)" "length names < arraysz"
    "2 * length ds \<le> length mem" "\<forall>b \<in> set mem. b"
  shows "scandir_loop select mem ds names arraysz = Ok (Some (names @ filter (selected select) ds))"
  using assms
proof (induction select mem ds names arraysz rule: scandir_loop.induct)
  case (2 select mem d ds names arraysz)
  then obtain b b' mem' where "mem = b # b' # mem'" by (cases mem; cases "tl mem") auto
  with 2 show ?case by (auto simp: dirent_copy_def Let_def next_ok_def)
qed simp

text \<open>
  C28. \<open>scandir\<close> with \<open>alphasort\<close> and a \<open>strcmp\<close> that compares characters as unsigned numbers returns the
  selected entries of the directory in the order of their names, when there is memory.
\<close>

theorem scandir_sorted:
  assumes "\<forall>d \<in> set ds. length (d_name d) \<le> unat (d_namlen d)" and "2 * length ds < length mem" and "\<forall>b \<in> set mem. b"
  shows "\<exists>names. scandir True mem select (Some (alphasort strcmp_c)) ds = Some (Ok (int (length names), Some names, True)) \<and>
    mset names = mset (filter (selected select) ds) \<and> sorted_wrt (\<lambda>d e. lexcmp (cstr (d_name d)) (cstr (d_name e)) \<le> 0) names"
proof -
  let ?ns = "filter (selected select) ds"
  obtain b mem' where mem: "mem = b # mem'" "b" using assms(2,3) by (cases mem) auto
  have "scandir_loop select mem' ds [] 50 = Ok (Some ?ns)"
    using scandir_loop_ok [of ds "[]" 50 mem' select] assms mem by auto
  moreover obtain ys where "qsort (alphasort strcmp_c) ?ns = Some (Ok ys)" "mset ys = mset ?ns"
    "sorted_wrt (\<lambda>d e. alphasort strcmp_c d e \<le> 0) ys" using al.qsort_ok by blast
  ultimately show ?thesis
    by (cases "?ns = []") (auto simp: scandir_def mem next_ok_def alphasort_def name_cmp_c)
qed

definition entry :: "u8 list \<Rightarrow> dirent" where
  "entry name = \<lparr>d_fileno = 0, d_reclen = 0, d_type = 0, d_namlen = of_nat (length name), d_name = name\<rparr>"

theorem scandir_sorted_witness:
  "\<exists>names. scandir True (replicate 7 True) None (Some (alphasort strcmp_c)) [entry [112], entry [208], entry [48]] =
      Some (Ok (int (length names), Some names, True)) \<and>
    mset names = {#entry [112], entry [208], entry [48]#} \<and>
    sorted_wrt (\<lambda>d e. lexcmp (cstr (d_name d)) (cstr (d_name e)) \<le> 0) names"
  using scandir_sorted [of "[entry [112], entry [208], entry [48]]" "replicate 7 True" None]
  by (simp add: selected_def entry_def)


end
