(* ===== verification/Spec2Isabelle.thy ===== *)
theory Spec2Isabelle
  imports Ix_Time Ix_Lists Ix_Pipe Ix_Socket Ix_Sem_Props Ix_Proc_Props Ix_Kmalloc Ix_Msg_Props Ix_Scandir
begin

text \<open>
  Verification of \<open>ixemul.library\<close>, the Unix emulation for AmigaOS.

  \<^bold>\<open>The program.\<close>  Programs call the library as they would call a Unix kernel.  The library keeps a
  \<open>struct user\<close> per task (descriptor table, signal state, interval timers) and tables shared by all
  tasks (open files, stream structures, sleep queues, System V objects, the memory of the library).
  The parts that hold state, and how they meet:

  \<^item> the allocator (\<open>library/buddy-alloc.c\<close>, \<open>library/kmalloc.c\<close>) gives memory to all other parts;
    its free lists are the lists of \<open>library/list.c\<close>;
  \<^item> descriptors (\<open>library/kern_descrip.c\<close>, \<open>close.c\<close>, \<open>pipe.c\<close>) point to shared open files with a
    count; the last \<open>close\<close> calls the \<open>f_close\<close> of the file: a DOS file, a file in memory, a socket of the
    network, an end of a pipe, or a local socket;
  \<^item> pipes and local sockets (\<open>library/unp.c\<close>) transfer bytes through ring buffers with a lock;
  \<^item> processes sleep and are woken through the queues of \<open>library/ix_sleep.c\<close>; signals
    (\<open>library/kern_sig.c\<close>, \<open>machdep_68k.c\<close>, \<open>trap.S\<close>) interrupt a sleep and run handlers on the user stack;
    the timer interrupt (\<open>library/ix_timer.c\<close>, \<open>kern_time.c\<close>) posts the alarm signals;
  \<^item> the System V objects (\<open>library/sysv_sem.c\<close>, \<open>sysv_msg.c\<close>, \<open>ipc.c\<close>) block their callers in sleep
    queues and are guarded by the permissions of \<open>ipc_perm\<close>.

  Beside these, programs are linked with routines that hold no state of the library: sorting and searching
  (\<open>stdlib/qsort.c\<close>, \<open>heapsort.c\<close>, \<open>bsearch.c\<close>), strings (\<open>string/\<close>, \<open>static/strlcpy.c\<close>, \<open>strlcat.c\<close>) and
  \<open>static/scandir.c\<close>, which combines them.

  \<^bold>\<open>Conventions.\<close>  The target has 32-bit \<open>int\<close>, \<open>long\<close> and pointers.  Flag words and counters that wrap
  are \<open>word\<close>s, other integers \<open>int\<close> or \<open>nat\<close> with the conversions of the source written out
  (\<open>s32\<close>, \<open>s16\<close>).  A call takes the state and returns its C result and the new state; \<open>exec\<close> adds
  \<open>Panic\<close> for \<open>panic\<close> and \<open>Wild\<close> for an access through a null or dangling pointer or outside an array, so
  that \<open>Ok\<close> is a safety claim.  A call that has to wait ends with a constructor that says where, with the
  variables it keeps; what runs after the sleep is a function of its own.  The code runs under
  \<open>Forbid\<close> or with a lock held, which makes each such stretch one step; \<open>Ix_Pipe\<close>, \<open>Ix_Buddy_Run\<close>,
  \<open>Ix_Msg_Props\<close> and others then quantify over all sequences of steps.  What other libraries return (memory of
  \<open>AllocMem\<close>, answers of the network stack, the time) is an argument of the operation, and requests to them
  are recorded in traces.

  \<^bold>\<open>Theories.\<close>
  \<^item> \<open>Ix_Prelude\<close>: C integers, \<open>exec\<close>, scanning a table, chains of linked cells.
  \<^item> \<open>Ix_Time\<close> (\<open>kern_time.c\<close>, \<open>ix_timer.c\<close>): \<open>timeval\<close> arithmetic, \<open>setitimer\<close>, the timer interrupt; timers
    stay normalised, a periodic timer does not drift.
  \<^item> \<open>Ix_Lists\<close> (\<open>list.c\<close>): the pointer code refines operations on HOL lists; the locale \<open>node_list\<close> is the
    contract of a list, interpreted on the pointer code.
  \<^item> \<open>Ix_Stream\<close>, \<open>Ix_Pipe\<close> (\<open>unp.c\<close>, \<open>pipe.c\<close>): the ring buffer against a queue of bytes; any number of
    readers and writers as a step relation: bytes come out in the order they went in, nobody waits for a
    wake-up that was lost, and what a close does to the others.
  \<^item> \<open>Ix_File\<close>, \<open>Ix_Unp\<close>, \<open>Ix_Descrip\<close>, \<open>Ix_Fd_Safety\<close>, \<open>Ix_Socket\<close> (\<open>kern_descrip.c\<close>, \<open>close.c\<close>,
    \<open>pipe.c\<close>, \<open>unp.c\<close>, \<open>socket.c\<close>): descriptor tables, shared files, local sockets; every sequence of calls
    keeps the counts and follows no dangling pointer (except where a theorem shows how it can); the locale
    \<open>close_contract\<close> is what \<open>close\<close> relies on, interpreted for the five kinds of file and for the
    dispatch between them.
  \<^item> \<open>Ix_Signal\<close>, \<open>Ix_Sigcall\<close>, \<open>Ix_Sig_Safety\<close>, \<open>Ix_Sig_Props\<close> (\<open>kern_sig.c\<close>, \<open>sigsetops.c\<close>,
    \<open>machdep_68k.c\<close>, \<open>trap.S\<close>): the signal calls, delivery against a specification on sets, handlers and
    their return.
  \<^item> \<open>Ix_Proc\<close>, \<open>Ix_Proc_Props\<close> (\<open>ix_sleep.c\<close>, \<open>kern_sig.c\<close>, \<open>machdep_68k.c\<close>): all processes; a sleeper is
    woken, a signal to a group reaches its members.
  \<^item> \<open>Ix_Ipc\<close> (\<open>ipc.c\<close>, \<open>include/sys/ipc.h\<close>); \<open>Ix_Sem\<close>, \<open>Ix_Sem_Undo\<close>, \<open>Ix_Sem_Safety\<close>, \<open>Ix_Sem_Op\<close>,
    \<open>Ix_Sem_Props\<close> (\<open>sysv_sem.c\<close>): semaphores; \<open>semop\<close> grants all its requests or none, \<open>semexit\<close> applies
    the adjustments; \<open>Ix_Msg\<close>, \<open>Ix_Msg_Inv\<close>, \<open>Ix_Msg_Own\<close>, \<open>Ix_Msg_Steps\<close>, \<open>Ix_Msg_Calls\<close>,
    \<open>Ix_Msg_Props\<close> (\<open>sysv_msg.c\<close>): message queues, against lists of messages.
  \<^item> \<open>Ix_Buddy\<close>, \<open>Ix_Buddy_Inv\<close>, \<open>Ix_Buddy_Props\<close>, \<open>Ix_Buddy_Run\<close>, \<open>Ix_Kmalloc\<close> (\<open>buddy-alloc.c\<close>,
    \<open>kmalloc.c\<close>): free and used blocks tile the memory obtained from Exec; clients that keep the protocol
    get disjoint memory, and all of it goes back to Exec.
  \<^item> \<open>Ix_Sort\<close>, \<open>Ix_Qsort\<close>, \<open>Ix_Heapsort\<close>, \<open>Ix_Records\<close> (\<open>qsort.c\<close>, \<open>heapsort.c\<close>, \<open>bsearch.c\<close>): the locale
    \<open>comparator\<close> is what a comparison function must satisfy and \<open>strict_comparator\<close> extends it; under them the
    arrays are sorted without an access outside, and both sorts agree.  They are interpreted on \<open>strcmp\<close> and
    \<open>alphasort\<close>.  The loops over the bytes of records refine the operations on records.
  \<^item> \<open>Ix_Cstring\<close>, \<open>Ix_Cstring_Props\<close>, \<open>Ix_Tokens\<close>, \<open>Ix_Scandir\<close> (\<open>string/\<close>, \<open>strlcpy.c\<close>, \<open>strlcat.c\<close>,
    \<open>scandir.c\<close>): comparison, searching, taking strings apart and copying with a bound; sorted directories, and how
    the \<open>strcmp\<close> in assembly makes \<open>qsort\<close> leave its array.

  \<^bold>\<open>Bounds.\<close>  Loops over tables are structural recursion.  Loops that may not end are
  \<open>partial_function (option)\<close> with value \<open>None\<close>; the safety theorems state that they return.  There is no
  fuel.  The sizes of tables (\<open>NOFILE\<close>, \<open>SEMMNI\<close>, \<open>MSGMNI\<close>, ...) are the constants of the headers.

  \<^bold>\<open>Not modelled.\<close>  \<open>vfork\<close> and the stack extension (they copy stacks and registers of Exec tasks), program
  loading and start-up, file system calls (each sends a packet to a DOS handler and waits for its answer),
  the gateway to TCP/IP stacks and the resolver, the user data base, tracing, floating point, and the
  4.4BSD routines linked with programs that are not named above (standard I/O, number conversion, the
  environment, data bases, regular expressions, time zone files).  They either consist of requests to other libraries whose
  behaviour is not in this source, or do not touch the state of the library.
\<close>

end
